(* ===== verification/Base.thy ===== *)
theory Base
  imports Main
begin

text \<open>
  Prelude of the development: the faults of the model (what C++ leaves undefined or throws),
  sequencing of fallible steps, the view of a char array used by the parser and the reply
  writer, and the interface \<open>guarded_loop\<close> shared by the \<open>while\<close> loops of the program.
\<close>

section \<open>Faults and fallible results\<close>

text \<open>
  Where the C++ source has undefined behaviour, or throws with nobody to catch it, the model
  returns a fault: a \<open>std::string\<close> built from a null begin pointer, an access outside an
  array, an arithmetic result that has no \<open>int\<close> representation, an access through a null
  pointer, a call through a null function pointer, a failed \<open>assert\<close>, or the use of freed memory.
  \<open>ExitOne\<close> is no undefined behaviour: the process ends itself with \<open>exit(1)\<close>.
\<close>

datatype fault =
  NullRange | OutOfBounds | IntOverflow | NullDeref | NullCall | AssertFailed | UseAfterFree | ExitOne

type_synonym 'a res = "fault + 'a"

definition bind_res :: "'a res \<Rightarrow> ('a \<Rightarrow> 'b res) \<Rightarrow> 'b res" where
  "bind_res r f = (case r of Inl e \<Rightarrow> Inl e | Inr x \<Rightarrow> f x)"

lemma bind_res_simps [simp]:
  "bind_res (Inl e) f = Inl e"
  "bind_res (Inr x) f = f x"
  by (simp_all add: bind_res_def)

lemma bind_res_cong [fundef_cong]:
  "r = r' \<Longrightarrow> (\<And>x. r' = Inr x \<Longrightarrow> f x = g x) \<Longrightarrow> bind_res r f = bind_res r' g"
  by (cases r') simp_all

lemma bind_res_Inr_iff: "bind_res r f = Inr y \<longleftrightarrow> (\<exists>x. r = Inr x \<and> f x = Inr y)"
  by (cases r) auto

lemma bind_res_Inl_iff: "bind_res r f = Inl e \<longleftrightarrow> r = Inl e \<or> (\<exists>x. r = Inr x \<and> f x = Inl e)"
  by (cases r) auto

text \<open>\<open>yields r P\<close>: the result is not a fault and satisfies \<open>P\<close>.\<close>

definition yields :: "'a res \<Rightarrow> ('a \<Rightarrow> bool) \<Rightarrow> bool" where
  "yields r P = (case r of Inl e \<Rightarrow> False | Inr x \<Rightarrow> P x)"

lemma yieldsE:
  assumes "yields r P"
  obtains x where "r = Inr x" "P x"
  using assms by (auto simp: yields_def split: sum.splits)

section \<open>Words inside a char array\<close>

text \<open>\<open>at mem p w\<close>: the array \<open>mem\<close> holds the word \<open>w\<close> from index \<open>p\<close> on.\<close>

definition at :: "'a list \<Rightarrow> nat \<Rightarrow> 'a list \<Rightarrow> bool" where
  "at mem p w \<longleftrightarrow> take (length w) (drop p mem) = w"

lemma at_Nil [simp]: "at mem p []"
  by (simp add: at_def)

lemma at_Cons: "at mem p (c # w) \<longleftrightarrow> p < length mem \<and> mem ! p = c \<and> at mem (Suc p) w"
proof (cases "p < length mem")
  case True
  then have "drop p mem = mem ! p # drop (Suc p) mem" by (rule Cons_nth_drop_Suc [symmetric])
  with True show ?thesis by (auto simp: at_def)
next
  case False
  then show ?thesis by (auto simp: at_def)
qed

lemma at_append: "at mem p (u @ v) \<longleftrightarrow> at mem p u \<and> at mem (p + length u) v"
  by (induction u arbitrary: p) (simp_all add: at_Cons)

lemma at_take: "at mem p w \<Longrightarrow> take (length w) (drop p mem) = w"
  by (simp add: at_def)

lemma at_bound: "at mem p w \<Longrightarrow> w \<noteq> [] \<Longrightarrow> p + length w \<le> length mem"
  by (cases "p \<le> length mem") (auto simp: at_def dest: arg_cong [where f = length])

lemma at_self: "at (a @ w @ b) (length a) w"
  by (simp add: at_def)

lemma at_0_self: "at (w @ b) 0 w"
  by (simp add: at_def)

lemma in_set_slice:
  assumes "c \<in> set (take (e - b) (drop b mem))"
  shows "\<exists>i. b \<le> i \<and> i < e \<and> i < length mem \<and> c = mem ! i"
proof -
  from assms obtain k where k: "k < length (take (e - b) (drop b mem))"
    and c: "c = take (e - b) (drop b mem) ! k"
    by (auto simp: in_set_conv_nth)
  from k have "b + k < e" "b + k < length mem" by auto
  moreover from k have "b \<le> length mem" by (cases "b \<le> length mem") auto
  then have "c = mem ! (b + k)" using k c by (simp add: nth_drop)
  ultimately show ?thesis by (intro exI [of _ "b + k"]) simp
qed

lemma hd_slice: "b < e \<Longrightarrow> b < length mem \<Longrightarrow> hd (take (e - b) (drop b mem)) = mem ! b"
  by (simp add: hd_drop_conv_nth)

lemma slice_nonempty: "b < e \<Longrightarrow> b < length mem \<Longrightarrow> take (e - b) (drop b mem) \<noteq> []"
  by simp

section \<open>Loops with a guard\<close>

text \<open>
  The contract every \<open>while (guard) step\<close> loop of the program meets: the loop unfolds, and
  each step of the body makes a measure smaller. What follows from it: the loop rule for
  invariants (for the result and for a fault), and the simulation rule that relates two runs.
\<close>

locale guarded_loop =
  fixes guard :: "'s \<Rightarrow> bool"
    and step :: "'s \<Rightarrow> 's res"
    and loop :: "'s \<Rightarrow> 's res"
    and meas :: "'s \<Rightarrow> nat"
  assumes unfold_loop: "loop s = (if guard s then bind_res (step s) loop else Inr s)"
    and step_decreases: "guard s \<Longrightarrow> step s = Inr s' \<Longrightarrow> meas s' < meas s"
begin

lemma loop_stop: "\<not> guard s \<Longrightarrow> loop s = Inr s"
  by (subst unfold_loop) simp

lemma loop_step: "guard s \<Longrightarrow> step s = Inr s' \<Longrightarrow> loop s = loop s'"
  by (subst unfold_loop) simp

lemma loop_fault: "guard s \<Longrightarrow> step s = Inl e \<Longrightarrow> loop s = Inl e"
  by (subst unfold_loop) simp

lemma loop_outcome:
  assumes "I s" and keep: "\<And>s s'. I s \<Longrightarrow> guard s \<Longrightarrow> step s = Inr s' \<Longrightarrow> I s'"
  shows "(\<exists>t. loop s = Inr t \<and> I t \<and> \<not> guard t) \<or>
    (\<exists>t e. loop s = Inl e \<and> I t \<and> guard t \<and> step t = Inl e)"
  using assms(1)
proof (induction "meas s" arbitrary: s rule: less_induct)
  case less
  show ?case
  proof (cases "guard s")
    case False
    then show ?thesis using less.prems loop_stop by blast
  next
    case True
    show ?thesis
    proof (cases "step s")
      case (Inl e)
      then show ?thesis using True less.prems loop_fault by blast
    next
      case (Inr s')
      then have "meas s' < meas s" "I s'"
        using step_decreases [OF True] keep less.prems True by auto
      then show ?thesis using less.hyps [of s'] loop_step [OF True Inr] by simp
    qed
  qed
qed

lemma loop_invariant:
  assumes "loop s = Inr t" and "I s"
    and "\<And>s s'. I s \<Longrightarrow> guard s \<Longrightarrow> step s = Inr s' \<Longrightarrow> I s'"
  shows "I t \<and> \<not> guard t"
proof -
  have "(\<exists>t. loop s = Inr t \<and> I t \<and> \<not> guard t) \<or>
    (\<exists>t e. loop s = Inl e \<and> I t \<and> guard t \<and> step t = Inl e)"
    using assms(2,3) by (rule loop_outcome)
  with assms(1) show ?thesis by auto
qed

lemma loop_fault_invariant:
  assumes "loop s = Inl e" and "I s"
    and "\<And>s s'. I s \<Longrightarrow> guard s \<Longrightarrow> step s = Inr s' \<Longrightarrow> I s'"
  shows "\<exists>t. I t \<and> guard t \<and> step t = Inl e"
proof -
  have "(\<exists>t. loop s = Inr t \<and> I t \<and> \<not> guard t) \<or>
    (\<exists>t e. loop s = Inl e \<and> I t \<and> guard t \<and> step t = Inl e)"
    using assms(2,3) by (rule loop_outcome)
  with assms(1) show ?thesis by auto
qed

lemma loop_no_fault:
  assumes "I s"
    and "\<And>s s'. I s \<Longrightarrow> guard s \<Longrightarrow> step s = Inr s' \<Longrightarrow> I s'"
    and "\<And>s e. I s \<Longrightarrow> guard s \<Longrightarrow> step s \<noteq> Inl e"
  shows "\<exists>t. loop s = Inr t \<and> I t \<and> \<not> guard t"
proof -
  have "(\<exists>t. loop s = Inr t \<and> I t \<and> \<not> guard t) \<or>
    (\<exists>t e. loop s = Inl e \<and> I t \<and> guard t \<and> step t = Inl e)"
    using assms(1,2) by (rule loop_outcome)
  with assms(3) show ?thesis by blast
qed

text \<open>Two runs whose states stay related give related results.\<close>

lemma loop_simulate:
  assumes "R s t"
    and guards: "\<And>s t. R s t \<Longrightarrow> guard s = guard t"
    and steps: "\<And>s t. R s t \<Longrightarrow> guard s \<Longrightarrow> rel_sum (=) R (step s) (step t)"
  shows "rel_sum (=) R (loop s) (loop t)"
  using assms(1)
proof (induction "meas s" arbitrary: s t rule: less_induct)
  case less
  show ?case
  proof (cases "guard s")
    case False
    with guards [OF less.prems] have "loop s = Inr s" "loop t = Inr t"
      by (simp_all add: loop_stop)
    with less.prems show ?thesis by simp
  next
    case True
    with guards [OF less.prems] have "guard t" by simp
    from steps [OF less.prems True] show ?thesis
    proof (cases rule: rel_sum.cases)
      case (1 e e')
      with True \<open>guard t\<close> show ?thesis by (simp add: loop_fault)
    next
      case (2 s' t')
      then have "rel_sum (=) R (loop s') (loop t')"
        using step_decreases [OF True] less.hyps by blast
      with 2 True \<open>guard t\<close> show ?thesis by (simp add: loop_step)
    qed
  qed
qed

end

section \<open>Runs that are accounted for\<close>

text \<open>
  \<open>trace step s t s'\<close>: steps lead from \<open>s\<close> to \<open>s'\<close>, and \<open>t\<close> is what their labels make together. The
  contract \<open>accounted_steps\<close>: each step keeps a state consistent with what has been accepted so far.
\<close>

inductive trace :: "('s \<Rightarrow> 'l list \<Rightarrow> 's \<Rightarrow> bool) \<Rightarrow> 's \<Rightarrow> 'l list \<Rightarrow> 's \<Rightarrow> bool"
  for step :: "'s \<Rightarrow> 'l list \<Rightarrow> 's \<Rightarrow> bool" where
  start: "trace step s [] s"
| steps: "trace step s t s1 \<Longrightarrow> step s1 u s2 \<Longrightarrow> trace step s (t @ u) s2"

lemma trace_step: "step s u s' \<Longrightarrow> trace step s u s'"
  using trace.steps [OF trace.start] by fastforce

locale accounted_steps =
  fixes step :: "'s \<Rightarrow> 'l list \<Rightarrow> 's \<Rightarrow> bool"
    and ok :: "'l list \<Rightarrow> 's \<Rightarrow> bool"
  assumes step_ok: "ok t s \<Longrightarrow> step s u s' \<Longrightarrow> ok (t @ u) s'"
begin

lemma trace_ok:
  assumes "trace step s t s'" and "ok t0 s"
  shows "ok (t0 @ t) s'"
  using assms
proof (induction rule: trace.induct)
  case (steps s t s1 u s2)
  then have "ok ((t0 @ t) @ u) s2" using step_ok by blast
  then show ?case by simp
qed simp

lemma trace_from_start: "trace step s t s' \<Longrightarrow> ok [] s \<Longrightarrow> ok t s'"
  using trace_ok [of s t s' "[]"] by simp

end

end
