(* ===== verification/CLib.thy ===== *)
theory CLib
  imports Base
begin

text \<open>
  What the program uses of the C and C++ standard library: character classes, \<open>atoi\<close>,
  \<open>std::map::insert\<close> and the decimal conversion of \<open>printf\<close>.
\<close>

section \<open>Character classes\<close>

abbreviation CR :: char where "CR \<equiv> CHR 0x0D"
abbreviation LF :: char where "LF \<equiv> CHR 0x0A"
abbreviation NUL :: char where "NUL \<equiv> CHR 0x00"

definition isblank :: "char \<Rightarrow> bool" where
  "isblank c \<longleftrightarrow> c = CHR 0x20 \<or> c = CHR 0x09"

definition isupper :: "char \<Rightarrow> bool" where
  "isupper c \<longleftrightarrow> 65 \<le> (of_char c :: nat) \<and> (of_char c :: nat) \<le> 90"

definition isdigit :: "char \<Rightarrow> bool" where
  "isdigit c \<longleftrightarrow> 48 \<le> (of_char c :: nat) \<and> (of_char c :: nat) \<le> 57"

definition isspace :: "char \<Rightarrow> bool" where
  "isspace c \<longleftrightarrow> c = CHR 0x20 \<or> (9 \<le> (of_char c :: nat) \<and> (of_char c :: nat) \<le> 13)"

lemma isupper_not_blank: "isupper c \<Longrightarrow> \<not> isblank c"
  by (auto simp: isupper_def isblank_def)

lemma isupper_not_line: "isupper c \<Longrightarrow> c \<noteq> CR \<and> c \<noteq> LF"
  by (auto simp: isupper_def)

lemma isdigit_not_special: "isdigit c \<Longrightarrow> c \<noteq> CR \<and> c \<noteq> CHR ''.''"
  by (auto simp: isdigit_def)

lemma line_not_blank [simp]: "\<not> isblank CR" "\<not> isblank LF"
  by (simp_all add: isblank_def)

lemma blank_space [simp]: "isblank (CHR 0x20)"
  by (simp add: isblank_def)

section \<open>The C type int\<close>

definition INT_MIN :: int where "INT_MIN = - (2 ^ 31)"
definition INT_MAX :: int where "INT_MAX = 2 ^ 31 - 1"

text \<open>Conversion of a wider integer to the 32-bit \<open>int\<close> (modulo \<open>2 ^ 32\<close>, as GCC does).\<close>

definition c_int :: "int \<Rightarrow> int" where
  "c_int x = (x + 2 ^ 31) mod 2 ^ 32 - 2 ^ 31"

lemma c_int_id: "INT_MIN \<le> x \<Longrightarrow> x \<le> INT_MAX \<Longrightarrow> c_int x = x"
  by (simp add: c_int_def INT_MIN_def INT_MAX_def)

lemma c_int_range: "INT_MIN \<le> c_int x \<and> c_int x \<le> INT_MAX"
proof -
  define y where "y = (x + 2 ^ 31) mod 2 ^ 32"
  have "0 \<le> y" "y < 2 ^ 32" by (simp_all add: y_def)
  then show ?thesis by (simp add: c_int_def INT_MIN_def INT_MAX_def flip: y_def)
qed

section \<open>Decimal numbers\<close>

definition digit_val :: "char \<Rightarrow> nat" where
  "digit_val c = of_char c - 48"

definition digit_char :: "nat \<Rightarrow> char" where
  "digit_char d = char_of (48 + d)"

lemma digit_char_props:
  assumes "d < 10"
  shows "isdigit (digit_char d)" "digit_val (digit_char d) = d"
  using assms by (simp_all add: isdigit_def digit_char_def digit_val_def)

text \<open>The value of the longest prefix of digits, as \<open>strtol\<close> reads it.\<close>

fun digits_val :: "nat \<Rightarrow> string \<Rightarrow> nat" where
  "digits_val acc [] = acc"
| "digits_val acc (c # cs) =
     (if isdigit c then digits_val (10 * acc + digit_val c) cs else acc)"

text \<open>
  \<open>atoi\<close>: skip white space, one optional sign, then digits up to the first other char. The
  standard leaves a value outside \<open>int\<close> undefined; the model returns \<open>None\<close> there.
\<close>

definition atoi :: "string \<Rightarrow> int option" where
  "atoi s =
     (let t = dropWhile isspace s;
          v = (case t of
                 [] \<Rightarrow> 0
               | c # cs \<Rightarrow> if c = CHR ''-'' then - int (digits_val 0 cs)
                           else if c = CHR ''+'' then int (digits_val 0 cs)
                           else int (digits_val 0 t))
      in if INT_MIN \<le> v \<and> v \<le> INT_MAX then Some v else None)"

text \<open>\<open>"%d"\<close> of \<open>printf\<close>.\<close>

fun dec_nat :: "nat \<Rightarrow> string" where
  "dec_nat n = (if n < 10 then [digit_char n] else dec_nat (n div 10) @ [digit_char (n mod 10)])"

declare dec_nat.simps [simp del]

definition dec_int :: "int \<Rightarrow> string" where
  "dec_int x = (if x < 0 then CHR ''-'' # dec_nat (nat (- x)) else dec_nat (nat x))"

lemma dec_nat_nonempty: "dec_nat n \<noteq> []"
  by (subst dec_nat.simps) simp

lemma dec_nat_digits: "\<forall>c \<in> set (dec_nat n). isdigit c"
proof (induction n rule: dec_nat.induct)
  case (1 n)
  then show ?case
    by (cases "n < 10") (simp_all add: dec_nat.simps [of n] digit_char_props)
qed

lemma digits_val_append:
  "\<forall>c \<in> set s. isdigit c \<Longrightarrow> digits_val acc (s @ t) = digits_val (digits_val acc s) t"
  by (induction s arbitrary: acc) auto

lemma digits_val_dec_nat: "digits_val 0 (dec_nat n) = n"
proof (induction n rule: dec_nat.induct)
  case (1 n)
  show ?case
  proof (cases "n < 10")
    case True
    then show ?thesis by (simp add: dec_nat.simps [of n] digit_char_props)
  next
    case False
    then have "digits_val 0 (dec_nat n) =
        digits_val (digits_val 0 (dec_nat (n div 10))) [digit_char (n mod 10)]"
      by (simp add: dec_nat.simps [of n] digits_val_append dec_nat_digits)
    also have "\<dots> = 10 * (n div 10) + n mod 10"
      using 1 False by (simp add: digit_char_props)
    finally show ?thesis by simp
  qed
qed

lemma digit_not_sign: "isdigit c \<Longrightarrow> \<not> isspace c \<and> c \<noteq> CHR ''-'' \<and> c \<noteq> CHR ''+''"
  by (auto simp: isdigit_def isspace_def)

text \<open>Reading back what \<open>"%d"\<close> printed gives the number.\<close>

lemma atoi_dec_nat:
  assumes "int n \<le> INT_MAX"
  shows "atoi (dec_nat n) = Some (int n)"
proof -
  obtain c cs where c: "dec_nat n = c # cs" using dec_nat_nonempty by (cases "dec_nat n") auto
  then have "isdigit c" using dec_nat_digits [of n] by simp
  then have "\<not> isspace c" "c \<noteq> CHR ''-''" "c \<noteq> CHR ''+''" using digit_not_sign by auto
  moreover have "digits_val 0 (c # cs) = n" using digits_val_dec_nat [of n] c by simp
  moreover have "INT_MIN \<le> int n" by (simp add: INT_MIN_def)
  ultimately show ?thesis using assms c by (simp add: atoi_def)
qed

lemma dec_nat_length:
  "0 < k \<Longrightarrow> n < 10 ^ k \<Longrightarrow> length (dec_nat n) \<le> k"
proof (induction n arbitrary: k rule: dec_nat.induct)
  case (1 n)
  show ?case
  proof (cases "n < 10")
    case True
    with 1 show ?thesis by (simp add: dec_nat.simps [of n])
  next
    case False
    with 1 obtain j where j: "k = Suc j" "0 < j"
      by (cases k; cases "k - 1") auto
    with 1 False have "n div 10 < 10 ^ j"
      by (simp add: less_mult_imp_div_less mult.commute)
    with 1 False j show ?thesis by (simp add: dec_nat.simps [of n])
  qed
qed

lemma dec_int_length:
  assumes "INT_MIN \<le> x" "x \<le> INT_MAX"
  shows "length (dec_int x) \<le> 11"
proof -
  from assms have "nat (- x) < 10 ^ 10" "nat x < 10 ^ 10"
    by (simp_all add: INT_MIN_def INT_MAX_def)
  then have "length (dec_nat (nat (- x))) \<le> 10" "length (dec_nat (nat x)) \<le> 10"
    by (simp_all add: dec_nat_length)
  then show ?thesis by (simp add: dec_int_def)
qed

section \<open>std::map\<close>

text \<open>\<open>insert\<close> keeps the value that is already there.\<close>

definition map_insert :: "('k \<rightharpoonup> 'v) \<Rightarrow> 'k \<Rightarrow> 'v \<Rightarrow> ('k \<rightharpoonup> 'v)" where
  "map_insert m k v = (case m k of None \<Rightarrow> m(k \<mapsto> v) | Some _ \<Rightarrow> m)"

text \<open>\<open>insert_all\<close>: the pairs of a list inserted in order.\<close>

fun insert_all :: "('k \<rightharpoonup> 'v) \<Rightarrow> ('k \<times> 'v) list \<Rightarrow> ('k \<rightharpoonup> 'v)" where
  "insert_all m [] = m"
| "insert_all m ((k, v) # kvs) = insert_all (map_insert m k v) kvs"

lemma insert_all_append [simp]: "insert_all m (xs @ ys) = insert_all (insert_all m xs) ys"
  by (induction xs arbitrary: m) auto

text \<open>The first pair of a key wins, so the result is what \<open>map_of\<close> gives.\<close>

lemma insert_all_map_of: "insert_all m kvs = map_of kvs ++ m"
proof (induction kvs arbitrary: m)
  case Nil
  then show ?case by simp
next
  case (Cons kv kvs)
  obtain k v where kv: "kv = (k, v)" by (cases kv)
  show ?case
    by (rule ext) (auto simp: Cons kv map_insert_def map_add_def split: option.splits)
qed

end
