(* ===== verification/Http_Request.thy ===== *)
theory Http_Request
  imports CLib
begin

text \<open>
  The request parser of \<open>http/http.cpp\<close>: \<open>SHttpRequest\<close> and its char-by-char state machine
  \<open>ParseInternal\<close>. One definition per \<open>case\<close> of the switch, \<open>parse_step\<close> for one iteration
  of the loop and \<open>parse_loop\<close> for the loop. Pointers into the receive buffer are indices
  into the list \<open>buf\<close>, the whole array the caller owns; \<open>sz\<close> (\<open>size\<close> in the source) is the number of chars received.
\<close>

section \<open>Data\<close>

datatype HttpRequestDecodeState =
    INVALID | INVALID_METHOD | INVALID_URI | INVALID_VERSION | INVALID_HEADER
  | START | METHOD
  | BEFORE_URI | IN_URI | BEFORE_URI_PARAM_KEY | URI_PARAM_KEY
  | BEFORE_URI_PARAM_VALUE | URI_PARAM_VALUE
  | BEFORE_PROTOCOL | PROTOCOL
  | BEFORE_VERSION | VERSION_SPLIT | VERSION
  | HEADER_KEY | HEADER_BEFORE_COLON | HEADER_AFTER_COLON | HEADER_VALUE
  | WHEN_CR | CR_LF | CR_LF_CR
  | BODY | COMPLETE | OPEN

text \<open>A pair of pointers into the buffer, both null at first.\<close>

record StringBuffer =
  m_pBegin :: "nat option"
  m_pEnd :: "nat option"

definition null_buffer :: StringBuffer where
  "null_buffer = \<lparr>m_pBegin = None, m_pEnd = None\<rparr>"

text \<open>
  \<open>operator std::string\<close>: the range constructor. Two null pointers are the empty range; one null
  pointer is undefined (libstdc++ throws \<open>std::logic_error\<close>, which nobody catches).
\<close>

definition sb_string :: "char list \<Rightarrow> StringBuffer \<Rightarrow> string res" where
  "sb_string buf sb =
     (case (m_pBegin sb, m_pEnd sb) of
        (None, None) \<Rightarrow> Inr []
      | (Some b, Some e) \<Rightarrow>
          if b \<le> e \<and> e \<le> length buf then Inr (take (e - b) (drop b buf)) else Inl OutOfBounds
      | _ \<Rightarrow> Inl NullRange)"

record SHttpRequest =
  m_strMethod :: string
  m_strUrl :: string
  m_mRequestParams :: "string \<rightharpoonup> string"
  m_strProtocol :: string
  m_strVersion :: string
  m_mHeaders :: "string \<rightharpoonup> string"
  m_strBody :: string
  m_iNextPos :: nat
  m_bIsOpen :: bool
  m_eDecodeState :: HttpRequestDecodeState

text \<open>
  \<open>SHttpRequest::Init\<close>. Every field is overwritten, so the result does not depend on the
  object it is called on.
\<close>

definition SHttpRequest_Init :: "SHttpRequest \<Rightarrow> SHttpRequest" where
  "SHttpRequest_Init r = r\<lparr>
     m_eDecodeState := START, m_iNextPos := 0, m_bIsOpen := False, m_strBody := [],
     m_mHeaders := Map.empty, m_strMethod := [], m_strProtocol := [], m_strUrl := [],
     m_strVersion := [], m_mRequestParams := Map.empty\<rparr>"

text \<open>The state of a run of \<open>ParseInternal\<close>: the object and the local variables.\<close>

record parse =
  req :: SHttpRequest
  l_method :: StringBuffer
  l_url :: StringBuffer
  l_requestParamKey :: StringBuffer
  l_requestParamValue :: StringBuffer
  l_protocol :: StringBuffer
  l_version :: StringBuffer
  l_headerKey :: StringBuffer
  l_headerValue :: StringBuffer
  l_bodyLength :: int

definition parse_locals :: "SHttpRequest \<Rightarrow> parse" where
  "parse_locals r = \<lparr>req = r, l_method = null_buffer, l_url = null_buffer,
     l_requestParamKey = null_buffer, l_requestParamValue = null_buffer,
     l_protocol = null_buffer, l_version = null_buffer,
     l_headerKey = null_buffer, l_headerValue = null_buffer, l_bodyLength = 0\<rparr>"

abbreviation goto :: "HttpRequestDecodeState \<Rightarrow> parse \<Rightarrow> parse" where
  "goto st s \<equiv> s\<lparr>req := (req s)\<lparr>m_eDecodeState := st\<rparr>\<rparr>"

abbreviation p_state :: "parse \<Rightarrow> HttpRequestDecodeState" where
  "p_state s \<equiv> m_eDecodeState (req s)"

abbreviation p_pos :: "parse \<Rightarrow> nat" where
  "p_pos s \<equiv> m_iNextPos (req s)"

abbreviation begin_at :: "nat \<Rightarrow> StringBuffer \<Rightarrow> StringBuffer" where
  "begin_at p sb \<equiv> sb\<lparr>m_pBegin := Some p\<rparr>"

abbreviation end_at :: "nat \<Rightarrow> StringBuffer \<Rightarrow> StringBuffer" where
  "end_at p sb \<equiv> sb\<lparr>m_pEnd := Some p\<rparr>"

section \<open>The cases of the switch\<close>

text \<open>
  In every case \<open>ch\<close> is the current char and \<open>p\<close> its index: the pointer \<open>p\<close> and the
  position \<open>scanPos\<close> of the source advance together from \<open>buf + m_iNextPos\<close>.
\<close>

definition on_START :: "char \<Rightarrow> nat \<Rightarrow> parse \<Rightarrow> parse res" where
  "on_START ch p s =
     (if ch = CR \<or> ch = LF \<or> isblank ch then Inr s
      else if isupper ch then Inr (goto METHOD (s\<lparr>l_method := begin_at p (l_method s)\<rparr>))
      else Inr (goto INVALID s))"

definition on_METHOD :: "char list \<Rightarrow> char \<Rightarrow> nat \<Rightarrow> parse \<Rightarrow> parse res" where
  "on_METHOD buf ch p s =
     (if isupper ch then Inr s
      else if isblank ch then
        (let m = end_at p (l_method s) in
         bind_res (sb_string buf m) (\<lambda>str.
           Inr (goto BEFORE_URI (s\<lparr>l_method := m, req := (req s)\<lparr>m_strMethod := str\<rparr>\<rparr>))))
      else Inr (goto INVALID_METHOD s))"

definition on_BEFORE_URI :: "char \<Rightarrow> nat \<Rightarrow> parse \<Rightarrow> parse res" where
  "on_BEFORE_URI ch p s =
     (if ch = CHR ''/'' then Inr (goto IN_URI (s\<lparr>l_url := begin_at p (l_url s)\<rparr>))
      else if isblank ch then Inr s
      else Inr (goto INVALID s))"

definition end_url :: "char list \<Rightarrow> nat \<Rightarrow> HttpRequestDecodeState \<Rightarrow> parse \<Rightarrow> parse res" where
  "end_url buf p st s =
     (let u = end_at p (l_url s) in
      bind_res (sb_string buf u) (\<lambda>str.
        Inr (goto st (s\<lparr>l_url := u, req := (req s)\<lparr>m_strUrl := str\<rparr>\<rparr>))))"

definition on_IN_URI :: "char list \<Rightarrow> char \<Rightarrow> nat \<Rightarrow> parse \<Rightarrow> parse res" where
  "on_IN_URI buf ch p s =
     (if ch = CHR ''?'' then end_url buf p BEFORE_URI_PARAM_KEY s
      else if isblank ch then end_url buf p BEFORE_PROTOCOL s
      else Inr s)"

definition on_BEFORE_URI_PARAM_KEY :: "char \<Rightarrow> nat \<Rightarrow> parse \<Rightarrow> parse res" where
  "on_BEFORE_URI_PARAM_KEY ch p s =
     (if isblank ch \<or> ch = LF \<or> ch = CR then Inr (goto INVALID_URI s)
      else Inr (goto URI_PARAM_KEY
             (s\<lparr>l_requestParamKey := begin_at p (l_requestParamKey s)\<rparr>)))"

definition on_URI_PARAM_KEY :: "char \<Rightarrow> nat \<Rightarrow> parse \<Rightarrow> parse res" where
  "on_URI_PARAM_KEY ch p s =
     (if ch = CHR ''='' then
        Inr (goto BEFORE_URI_PARAM_VALUE
               (s\<lparr>l_requestParamKey := end_at p (l_requestParamKey s)\<rparr>))
      else if isblank ch then Inr (goto INVALID_URI s)
      else Inr s)"

definition on_BEFORE_URI_PARAM_VALUE :: "char \<Rightarrow> nat \<Rightarrow> parse \<Rightarrow> parse res" where
  "on_BEFORE_URI_PARAM_VALUE ch p s =
     (if isblank ch \<or> ch = LF \<or> ch = CR then Inr (goto INVALID_URI s)
      else Inr (goto URI_PARAM_VALUE
             (s\<lparr>l_requestParamValue := begin_at p (l_requestParamValue s)\<rparr>)))"

definition harvest_param ::
  "char list \<Rightarrow> nat \<Rightarrow> HttpRequestDecodeState \<Rightarrow> parse \<Rightarrow> parse res" where
  "harvest_param buf p st s =
     (let v = end_at p (l_requestParamValue s) in
      bind_res (sb_string buf (l_requestParamKey s)) (\<lambda>key.
      bind_res (sb_string buf v) (\<lambda>val.
        Inr (goto st (s\<lparr>l_requestParamValue := v,
          req := (req s)\<lparr>m_mRequestParams := map_insert (m_mRequestParams (req s)) key val\<rparr>\<rparr>)))))"

definition on_URI_PARAM_VALUE :: "char list \<Rightarrow> char \<Rightarrow> nat \<Rightarrow> parse \<Rightarrow> parse res" where
  "on_URI_PARAM_VALUE buf ch p s =
     (if ch = CHR ''&'' then harvest_param buf p BEFORE_URI_PARAM_KEY s
      else if isblank ch then harvest_param buf p BEFORE_PROTOCOL s
      else Inr s)"

definition on_BEFORE_PROTOCOL :: "char \<Rightarrow> nat \<Rightarrow> parse \<Rightarrow> parse res" where
  "on_BEFORE_PROTOCOL ch p s =
     (if isblank ch then Inr s
      else Inr (goto PROTOCOL (s\<lparr>l_protocol := begin_at p (l_protocol s)\<rparr>)))"

definition on_PROTOCOL :: "char list \<Rightarrow> char \<Rightarrow> nat \<Rightarrow> parse \<Rightarrow> parse res" where
  "on_PROTOCOL buf ch p s =
     (if ch = CHR ''/'' then
        (let q = end_at p (l_protocol s) in
         bind_res (sb_string buf q) (\<lambda>str.
           Inr (goto BEFORE_VERSION (s\<lparr>l_protocol := q, req := (req s)\<lparr>m_strProtocol := str\<rparr>\<rparr>))))
      else Inr s)"

definition on_BEFORE_VERSION :: "char \<Rightarrow> nat \<Rightarrow> parse \<Rightarrow> parse res" where
  "on_BEFORE_VERSION ch p s =
     (if isdigit ch then Inr (goto VERSION (s\<lparr>l_version := begin_at p (l_version s)\<rparr>))
      else Inr (goto INVALID_VERSION s))"

definition on_VERSION :: "char list \<Rightarrow> char \<Rightarrow> nat \<Rightarrow> parse \<Rightarrow> parse res" where
  "on_VERSION buf ch p s =
     (if ch = CR then
        (let v = end_at p (l_version s) in
         bind_res (sb_string buf v) (\<lambda>str.
           Inr (goto WHEN_CR (s\<lparr>l_version := v, req := (req s)\<lparr>m_strVersion := str\<rparr>\<rparr>))))
      else if ch = CHR ''.'' then Inr (goto VERSION_SPLIT s)
      else if isdigit ch then Inr s
      else Inr (goto INVALID_VERSION s))"

definition on_VERSION_SPLIT :: "char \<Rightarrow> parse \<Rightarrow> parse res" where
  "on_VERSION_SPLIT ch s =
     (if isdigit ch then Inr (goto VERSION s) else Inr (goto INVALID_VERSION s))"

definition on_HEADER_KEY :: "char \<Rightarrow> nat \<Rightarrow> parse \<Rightarrow> parse res" where
  "on_HEADER_KEY ch p s =
     (if isblank ch then
        Inr (goto HEADER_BEFORE_COLON (s\<lparr>l_headerKey := end_at p (l_headerKey s)\<rparr>))
      else if ch = CHR '':'' then
        Inr (goto HEADER_AFTER_COLON (s\<lparr>l_headerKey := end_at p (l_headerKey s)\<rparr>))
      else Inr s)"

definition on_HEADER_BEFORE_COLON :: "char \<Rightarrow> parse \<Rightarrow> parse res" where
  "on_HEADER_BEFORE_COLON ch s =
     (if isblank ch then Inr s
      else if ch = CHR '':'' then Inr (goto HEADER_AFTER_COLON s)
      else Inr (goto INVALID_HEADER s))"

definition on_HEADER_AFTER_COLON :: "char \<Rightarrow> nat \<Rightarrow> parse \<Rightarrow> parse res" where
  "on_HEADER_AFTER_COLON ch p s =
     (if isblank ch then Inr s
      else Inr (goto HEADER_VALUE (s\<lparr>l_headerValue := begin_at p (l_headerValue s)\<rparr>)))"

definition on_HEADER_VALUE :: "char list \<Rightarrow> char \<Rightarrow> nat \<Rightarrow> parse \<Rightarrow> parse res" where
  "on_HEADER_VALUE buf ch p s =
     (if ch = CR then
        (let v = end_at p (l_headerValue s) in
         bind_res (sb_string buf (l_headerKey s)) (\<lambda>key.
         bind_res (sb_string buf v) (\<lambda>val.
           Inr (goto WHEN_CR (s\<lparr>l_headerValue := v,
             req := (req s)\<lparr>m_mHeaders := map_insert (m_mHeaders (req s)) key val\<rparr>\<rparr>)))))
      else Inr s)"

definition on_WHEN_CR :: "char \<Rightarrow> parse \<Rightarrow> parse res" where
  "on_WHEN_CR ch s = (if ch = LF then Inr (goto CR_LF s) else Inr (goto INVALID s))"

definition on_CR_LF :: "char \<Rightarrow> nat \<Rightarrow> parse \<Rightarrow> parse res" where
  "on_CR_LF ch p s =
     (if ch = CR then Inr (goto CR_LF_CR s)
      else if isblank ch then Inr (goto INVALID s)
      else Inr (goto HEADER_KEY (s\<lparr>l_headerKey := begin_at p (l_headerKey s)\<rparr>)))"

text \<open>The end of the header: what follows depends on \<open>Content-Length\<close>.\<close>

definition on_CR_LF_CR :: "nat \<Rightarrow> char \<Rightarrow> nat \<Rightarrow> parse \<Rightarrow> parse res" where
  "on_CR_LF_CR sz ch p s =
     (if ch = LF then
        (case m_mHeaders (req s) ''Content-Length'' of
           Some v \<Rightarrow>
             (case atoi v of
                None \<Rightarrow> Inl IntOverflow
              | Some n \<Rightarrow>
                  if n > 0 then Inr (goto BODY (s\<lparr>l_bodyLength := n\<rparr>))
                  else Inr (goto COMPLETE (s\<lparr>l_bodyLength := n\<rparr>)))
         | None \<Rightarrow>
             if p < sz then Inr (goto BODY (s\<lparr>l_bodyLength := int sz - int p\<rparr>))
             else Inr (goto COMPLETE s))
      else Inr (goto INVALID_HEADER s))"

text \<open>\<open>m_strBody.assign(p, bodyLength)\<close> copies from the array, whatever \<open>size\<close> says.\<close>

definition on_BODY :: "char list \<Rightarrow> nat \<Rightarrow> parse \<Rightarrow> parse res" where
  "on_BODY buf p s =
     (if 0 \<le> l_bodyLength s \<and> int p + l_bodyLength s \<le> int (length buf)
      then Inr (goto COMPLETE
             (s\<lparr>req := (req s)\<lparr>m_strBody := take (nat (l_bodyLength s)) (drop p buf)\<rparr>\<rparr>))
      else Inl OutOfBounds)"

definition parse_switch :: "char list \<Rightarrow> nat \<Rightarrow> char \<Rightarrow> nat \<Rightarrow> parse \<Rightarrow> parse res" where
  "parse_switch buf sz ch p s =
     (case p_state s of
        START \<Rightarrow> on_START ch p s
      | METHOD \<Rightarrow> on_METHOD buf ch p s
      | BEFORE_URI \<Rightarrow> on_BEFORE_URI ch p s
      | IN_URI \<Rightarrow> on_IN_URI buf ch p s
      | BEFORE_URI_PARAM_KEY \<Rightarrow> on_BEFORE_URI_PARAM_KEY ch p s
      | URI_PARAM_KEY \<Rightarrow> on_URI_PARAM_KEY ch p s
      | BEFORE_URI_PARAM_VALUE \<Rightarrow> on_BEFORE_URI_PARAM_VALUE ch p s
      | URI_PARAM_VALUE \<Rightarrow> on_URI_PARAM_VALUE buf ch p s
      | BEFORE_PROTOCOL \<Rightarrow> on_BEFORE_PROTOCOL ch p s
      | PROTOCOL \<Rightarrow> on_PROTOCOL buf ch p s
      | BEFORE_VERSION \<Rightarrow> on_BEFORE_VERSION ch p s
      | VERSION \<Rightarrow> on_VERSION buf ch p s
      | VERSION_SPLIT \<Rightarrow> on_VERSION_SPLIT ch s
      | HEADER_KEY \<Rightarrow> on_HEADER_KEY ch p s
      | HEADER_BEFORE_COLON \<Rightarrow> on_HEADER_BEFORE_COLON ch s
      | HEADER_AFTER_COLON \<Rightarrow> on_HEADER_AFTER_COLON ch p s
      | HEADER_VALUE \<Rightarrow> on_HEADER_VALUE buf ch p s
      | WHEN_CR \<Rightarrow> on_WHEN_CR ch s
      | CR_LF \<Rightarrow> on_CR_LF ch p s
      | CR_LF_CR \<Rightarrow> on_CR_LF_CR sz ch p s
      | BODY \<Rightarrow> on_BODY buf p s
      | _ \<Rightarrow> Inr s)"

section \<open>The loop\<close>

definition invalid_state :: "HttpRequestDecodeState \<Rightarrow> bool" where
  "invalid_state st \<longleftrightarrow>
     st \<in> {INVALID, INVALID_METHOD, INVALID_URI, INVALID_VERSION, INVALID_HEADER}"

definition parse_running :: "nat \<Rightarrow> parse \<Rightarrow> bool" where
  "parse_running sz s \<longleftrightarrow>
     \<not> invalid_state (p_state s) \<and> p_state s \<noteq> COMPLETE \<and> p_pos s < sz"

text \<open>One iteration: read the char, advance the pointer and the position, then the switch.\<close>

definition parse_step :: "char list \<Rightarrow> nat \<Rightarrow> parse \<Rightarrow> parse res" where
  "parse_step buf sz s =
     (let p = p_pos s in
      if p < length buf
      then parse_switch buf sz (buf ! p) p (s\<lparr>req := (req s)\<lparr>m_iNextPos := Suc p\<rparr>\<rparr>)
      else Inl OutOfBounds)"

lemmas on_defs =
  on_START_def on_METHOD_def on_BEFORE_URI_def on_IN_URI_def on_BEFORE_URI_PARAM_KEY_def
  on_URI_PARAM_KEY_def on_BEFORE_URI_PARAM_VALUE_def on_URI_PARAM_VALUE_def
  on_BEFORE_PROTOCOL_def on_PROTOCOL_def on_BEFORE_VERSION_def on_VERSION_def
  on_VERSION_SPLIT_def on_HEADER_KEY_def on_HEADER_BEFORE_COLON_def on_HEADER_AFTER_COLON_def
  on_HEADER_VALUE_def on_WHEN_CR_def on_CR_LF_def on_CR_LF_CR_def on_BODY_def
  end_url_def harvest_param_def

lemma parse_switch_pos: "parse_switch buf sz ch p s = Inr s' \<Longrightarrow> p_pos s' = p_pos s"
  by (cases "p_state s")
    (auto simp: parse_switch_def on_defs Let_def bind_res_Inr_iff split: if_splits option.splits)

lemma parse_step_pos: "parse_step buf sz s = Inr s' \<Longrightarrow> p_pos s' = Suc (p_pos s)"
  by (auto simp: parse_step_def Let_def dest: parse_switch_pos split: if_splits)

function parse_loop :: "char list \<Rightarrow> nat \<Rightarrow> parse \<Rightarrow> parse res" where
  "parse_loop buf sz s =
     (if parse_running sz s then
        (case parse_step buf sz s of Inl e \<Rightarrow> Inl e | Inr s' \<Rightarrow> parse_loop buf sz s')
      else Inr s)"
  by pat_completeness auto
termination
  by (relation "measure (\<lambda>(buf, sz, s). sz - p_pos s)")
    (auto simp: parse_running_def dest!: parse_step_pos)

declare parse_loop.simps [simp del]

text \<open>\<open>SHttpRequest::ParseInternal\<close>: fresh local variables, then the loop.\<close>

definition ParseInternal :: "char list \<Rightarrow> nat \<Rightarrow> SHttpRequest \<Rightarrow> SHttpRequest res" where
  "ParseInternal buf sz r =
     bind_res (parse_loop buf sz (parse_locals r)) (\<lambda>s. Inr (req s))"

interpretation pl: guarded_loop "parse_running sz" "parse_step buf sz"
    "parse_loop buf sz" "\<lambda>s. sz - p_pos s" for buf sz
proof unfold_locales
  fix s
  show "parse_loop buf sz s = (if parse_running sz s
      then bind_res (parse_step buf sz s) (parse_loop buf sz) else Inr s)"
    by (subst parse_loop.simps) (simp add: bind_res_def)
next
  fix s s'
  assume "parse_running sz s" "parse_step buf sz s = Inr s'"
  then show "sz - p_pos s' < sz - p_pos s"
    by (auto simp: parse_running_def dest: parse_step_pos)
qed

end
