(* ===== verification/Kernel.thy ===== *)
theory Kernel
  imports CLib "HOL-Library.Word"
begin

unbundle bit_operations_syntax

text \<open>
  The border to the operating system. The effects of the program are the system calls it issues,
  kept in issue order in \<open>w_calls\<close>; what the kernel answers is not under the repository and is a
  parameter (\<open>kernel\<close>, and the answers of \<open>recv\<close> and \<open>writev\<close> where they are used). The epoll
  helpers at the top of \<open>http/http.cpp\<close> are here too.
\<close>

section \<open>System calls and the global state\<close>

datatype sys_call =
    EpollAdd int int "32 word"
  | EpollMod int int "32 word"
  | EpollDel int int
  | SetFlags int "32 word"
  | CloseFd int
  | Sent int string
  | Munmap int

text \<open>The static members of \<open>CHttp\<close> and the calls issued so far.\<close>

record world =
  m_iEpollFd :: int
  m_iHttpCnt :: int
  w_calls :: "sys_call list"

definition emit :: "sys_call \<Rightarrow> world \<Rightarrow> world" where
  "emit c w = w\<lparr>w_calls := w_calls w @ [c]\<rparr>"

lemma emit_simps [simp]:
  "m_iEpollFd (emit c w) = m_iEpollFd w"
  "m_iHttpCnt (emit c w) = m_iHttpCnt w"
  "w_calls (emit c w) = w_calls w @ [c]"
  by (simp_all add: emit_def)

text \<open>\<open>struct stat\<close> and the result of \<open>mmap\<close>: a mapping is named by its bytes.\<close>

record file_stat =
  st_mode :: "32 word"
  st_size :: int

datatype file_ptr = FNull | FFailed | FMap string

record kernel =
  k_getfl :: "int \<Rightarrow> 32 word"
  k_stat :: "string \<Rightarrow> file_stat option"
  k_open :: "string \<Rightarrow> int"
  k_mmap :: "int \<Rightarrow> int \<Rightarrow> file_ptr"

section \<open>Flags\<close>

abbreviation EPOLLIN :: "32 word" where "EPOLLIN \<equiv> 0x1"
abbreviation EPOLLOUT :: "32 word" where "EPOLLOUT \<equiv> 0x4"
abbreviation EPOLLERR :: "32 word" where "EPOLLERR \<equiv> 0x8"
abbreviation EPOLLHUP :: "32 word" where "EPOLLHUP \<equiv> 0x10"
abbreviation EPOLLRDHUP :: "32 word" where "EPOLLRDHUP \<equiv> 0x2000"
abbreviation EPOLLONESHOT :: "32 word" where "EPOLLONESHOT \<equiv> 0x40000000"
abbreviation EPOLLET :: "32 word" where "EPOLLET \<equiv> 0x80000000"
abbreviation O_NONBLOCK :: "32 word" where "O_NONBLOCK \<equiv> 0x800"
abbreviation S_IROTH :: "32 word" where "S_IROTH \<equiv> 0x4"
abbreviation S_IFMT :: "32 word" where "S_IFMT \<equiv> 0xF000"
abbreviation S_IFDIR :: "32 word" where "S_IFDIR \<equiv> 0x4000"
abbreviation EAGAIN :: int where "EAGAIN \<equiv> 11"

section \<open>The epoll helpers\<close>

definition SetNonBlocking :: "kernel \<Rightarrow> int \<Rightarrow> world \<Rightarrow> 32 word \<times> world" where
  "SetNonBlocking k fd w =
     (let old = k_getfl k fd; new = old OR O_NONBLOCK in (old, emit (SetFlags fd new) w))"

definition add_events :: "bool \<Rightarrow> int \<Rightarrow> 32 word" where
  "add_events one_shot trigger =
     (let ev = (if trigger = 1 then EPOLLIN OR EPOLLRDHUP OR EPOLLET else EPOLLIN OR EPOLLRDHUP)
      in if one_shot then ev OR EPOLLONESHOT else ev)"

definition AddFd :: "kernel \<Rightarrow> int \<Rightarrow> int \<Rightarrow> bool \<Rightarrow> int \<Rightarrow> world \<Rightarrow> world" where
  "AddFd k epfd fd one_shot trigger w =
     snd (SetNonBlocking k fd (emit (EpollAdd epfd fd (add_events one_shot trigger)) w))"

definition RemoveFd :: "int \<Rightarrow> int \<Rightarrow> world \<Rightarrow> world" where
  "RemoveFd epfd fd w = emit (CloseFd fd) (emit (EpollDel epfd fd) w)"

definition mod_events :: "32 word \<Rightarrow> int \<Rightarrow> 32 word" where
  "mod_events ev trigger =
     (if trigger = 1 then ev OR EPOLLET OR EPOLLONESHOT OR EPOLLRDHUP
      else ev OR EPOLLONESHOT OR EPOLLRDHUP)"

definition ModFd :: "int \<Rightarrow> int \<Rightarrow> 32 word \<Rightarrow> int \<Rightarrow> world \<Rightarrow> world" where
  "ModFd epfd fd ev trigger w = emit (EpollMod epfd fd (mod_events ev trigger)) w"

lemma world_simps [simp]:
  "m_iEpollFd (AddFd k e fd b t w) = m_iEpollFd w" "m_iHttpCnt (AddFd k e fd b t w) = m_iHttpCnt w"
  "m_iEpollFd (RemoveFd e fd w) = m_iEpollFd w" "m_iHttpCnt (RemoveFd e fd w) = m_iHttpCnt w"
  "m_iEpollFd (ModFd e fd ev t w) = m_iEpollFd w" "m_iHttpCnt (ModFd e fd ev t w) = m_iHttpCnt w"
  "w_calls (ModFd e fd ev t w) = w_calls w @ [EpollMod e fd (mod_events ev t)]"
  "w_calls (RemoveFd e fd w) = w_calls w @ [EpollDel e fd, CloseFd fd]"
  by (simp_all add: AddFd_def SetNonBlocking_def RemoveFd_def ModFd_def Let_def)

text \<open>The bytes a descriptor has been sent, in order.\<close>

fun wire :: "int \<Rightarrow> sys_call list \<Rightarrow> string" where
  "wire fd [] = []"
| "wire fd (Sent fd' bs # cs) = (if fd' = fd then bs @ wire fd cs else wire fd cs)"
| "wire fd (_ # cs) = wire fd cs"

lemma wire_append [simp]: "wire fd (xs @ ys) = wire fd xs @ wire fd ys"
  by (induction fd xs rule: wire.induct) simp_all

text \<open>
  The registration of a descriptor that the calls leave behind in the epoll instance.
\<close>

fun interest :: "sys_call list \<Rightarrow> (int \<rightharpoonup> 32 word) \<Rightarrow> (int \<rightharpoonup> 32 word)" where
  "interest [] m = m"
| "interest (EpollAdd e fd ev # cs) m = interest cs (m(fd \<mapsto> ev))"
| "interest (EpollMod e fd ev # cs) m = interest cs (case m fd of None \<Rightarrow> m | Some _ \<Rightarrow> m(fd \<mapsto> ev))"
| "interest (EpollDel e fd # cs) m = interest cs (m(fd := None))"
| "interest (CloseFd fd # cs) m = interest cs (m(fd := None))"
| "interest (_ # cs) m = interest cs m"

lemma interest_append [simp]: "interest (xs @ ys) m = interest ys (interest xs m)"
  by (induction xs m rule: interest.induct) (simp_all add: fun_upd_def)

end
