(* ===== verification/Http_Conn.thy ===== *)
theory Http_Conn
  imports Http_Request Kernel
begin

text \<open>
  The connection object \<open>CHttp\<close> of \<open>http/http.cpp\<close>: reading from the socket, parsing, building
  the reply in the write buffer, sending it with \<open>writev\<close>, and closing. Answers of \<open>recv\<close> and
  \<open>writev\<close> are functions of the number of the call inside one loop.
\<close>

section \<open>Data\<close>

definition MAX_READ_DATA_BUFF_SIZE :: nat where "MAX_READ_DATA_BUFF_SIZE = 5 * 1024"
definition MAX_WRITE_DATA_BUFF_SIZE :: nat where "MAX_WRITE_DATA_BUFF_SIZE = 5 * 1024"

text \<open>Base pointers of an \<open>iovec\<close>: an offset into the write buffer or into the mapped file.\<close>

datatype iov_base = NoBase | InWrite int | InFile int

record iovec =
  iov_base :: iov_base
  iov_len :: nat

record sockaddr_in =
  sin_addr :: "32 word"
  sin_port :: "16 word"

record CHttp =
  m_iSockFd :: int
  m_sAddr :: sockaddr_in
  m_aReadData :: "char list"
  m_aWriteData :: "char list"
  m_pFileAddr :: file_ptr
  m_iDataLen :: int
  m_iDataSendLen :: int
  m_iTriggerMode :: int
  m_iReadIdx :: nat
  m_iWriteIdx :: nat
  m_sHttpParse :: SHttpRequest
  m_sFileStat :: file_stat
  m_sIv0 :: iovec
  m_sIv1 :: iovec
  m_iIvCount :: nat
  m_bLinger :: bool
  m_aFile :: string

definition zeros :: "nat \<Rightarrow> char list" where
  "zeros n = replicate n NUL"

text \<open>
  The block of assignments that \<open>Init\<close> and \<open>Write\<close> (twice) share: indices and lengths to zero,
  both buffers cleared, a fresh parser.
\<close>

definition reset_buffers :: "CHttp \<Rightarrow> CHttp" where
  "reset_buffers c = c\<lparr>m_iReadIdx := 0, m_iWriteIdx := 0, m_iDataLen := 0, m_iDataSendLen := 0,
     m_aReadData := zeros MAX_READ_DATA_BUFF_SIZE, m_aWriteData := zeros MAX_WRITE_DATA_BUFF_SIZE,
     m_sHttpParse := SHttpRequest_Init (m_sHttpParse c)\<rparr>"

section \<open>Opening and closing\<close>

definition CHttp_Init :: "kernel \<Rightarrow> int \<Rightarrow> sockaddr_in \<Rightarrow> int \<Rightarrow> CHttp \<Rightarrow> world \<Rightarrow> CHttp \<times> world" where
  "CHttp_Init k fd addr trigger c w =
     (let c1 = c\<lparr>m_iSockFd := fd, m_sAddr := addr, m_iTriggerMode := trigger\<rparr>;
          w1 = AddFd k (m_iEpollFd w) fd True trigger w;
          w2 = w1\<lparr>m_iHttpCnt := m_iHttpCnt w1 + 1\<rparr>
      in (reset_buffers (c1\<lparr>m_bLinger := False\<rparr>), w2))"

definition CloseHttp :: "CHttp \<Rightarrow> world \<Rightarrow> CHttp \<times> world" where
  "CloseHttp c w =
     (if m_iSockFd c = -1 then (c, w)
      else let w1 = RemoveFd (m_iEpollFd w) (m_iSockFd c) w
           in (c\<lparr>m_iSockFd := -1\<rparr>, w1\<lparr>m_iHttpCnt := m_iHttpCnt w1 - 1\<rparr>))"

definition unmmap :: "CHttp \<Rightarrow> world \<Rightarrow> CHttp \<times> world" where
  "unmmap c w =
     (if m_pFileAddr c = FNull then (c, w)
      else (c\<lparr>m_pFileAddr := FNull\<rparr>, emit (Munmap (st_size (m_sFileStat c))) w))"

section \<open>Reading\<close>

datatype recv_result = Received string | RecvErr int

text \<open>\<open>recv i n\<close> is the answer to call number \<open>i\<close> for at most \<open>n\<close> bytes.\<close>

type_synonym receiver = "nat \<Rightarrow> nat \<Rightarrow> recv_result"

definition store_at :: "nat \<Rightarrow> string \<Rightarrow> char list \<Rightarrow> char list" where
  "store_at i d buf = take i buf @ d @ drop (i + length d) buf"

definition take_in :: "string \<Rightarrow> CHttp \<Rightarrow> CHttp" where
  "take_in d c = c\<lparr>m_aReadData := store_at (m_iReadIdx c) d (m_aReadData c),
     m_iReadIdx := m_iReadIdx c + length d\<rparr>"

text \<open>The edge-triggered loop; it need not return, so its result is an option.\<close>

partial_function (option) read_et :: "receiver \<Rightarrow> nat \<Rightarrow> CHttp \<Rightarrow> (bool \<times> CHttp) option" where
  "read_et recv i c =
     (case recv i (MAX_READ_DATA_BUFF_SIZE - m_iReadIdx c) of
        RecvErr e \<Rightarrow> Some (e = EAGAIN, c)
      | Received d \<Rightarrow> if d = [] then Some (False, c) else read_et recv (Suc i) (take_in d c))"

definition CHttp_Read :: "receiver \<Rightarrow> CHttp \<Rightarrow> (bool \<times> CHttp) option" where
  "CHttp_Read recv c =
     (if MAX_READ_DATA_BUFF_SIZE \<le> m_iReadIdx c then Some (False, c)
      else if m_iTriggerMode c \<noteq> 0 then read_et recv 0 c
      else (case recv 0 (MAX_READ_DATA_BUFF_SIZE - m_iReadIdx c) of
              RecvErr e \<Rightarrow> Some (False, c)
            | Received d \<Rightarrow> if d = [] then Some (False, c) else Some (True, take_in d c)))"

section \<open>Parsing\<close>

definition ParseRead :: "CHttp \<Rightarrow> (HttpRequestDecodeState \<times> CHttp) res" where
  "ParseRead c =
     bind_res (ParseInternal (m_aReadData c) (m_iReadIdx c) (m_sHttpParse c)) (\<lambda>r.
       let status = m_eDecodeState r; c' = c\<lparr>m_sHttpParse := r\<rparr> in
       if m_iNextPos r = m_iReadIdx c then
         if status = BODY \<and> m_strMethod r = ''GET'' then Inr (COMPLETE, c')
         else if \<not> invalid_state status then Inr (OPEN, c')
         else Inr (status, c')
       else Inr (status, c'))"

section \<open>Building the reply\<close>

text \<open>
  \<open>AddLine\<close>, with the format already expanded to \<open>txt\<close>. \<open>vsnprintf\<close> gets the room that is left
  minus one; it stores at most one char less than that and a NUL, and returns the full length.
\<close>

definition AddLine :: "string \<Rightarrow> CHttp \<Rightarrow> bool \<times> CHttp" where
  "AddLine txt c =
     (let idx = m_iWriteIdx c in
      if MAX_WRITE_DATA_BUFF_SIZE \<le> idx then (False, c)
      else
        let room = MAX_WRITE_DATA_BUFF_SIZE - 1 - idx;
            c1 = (if room = 0 then c
                  else c\<lparr>m_aWriteData := store_at idx (take (room - 1) txt @ [NUL]) (m_aWriteData c)\<rparr>)
        in if room \<le> length txt then (False, c1)
           else (True, c1\<lparr>m_iWriteIdx := idx + length txt\<rparr>))"

text \<open>\<open>f && g\<close> on methods that return a success flag.\<close>

definition and_then ::
  "(CHttp \<Rightarrow> bool \<times> CHttp) \<Rightarrow> (CHttp \<Rightarrow> bool \<times> CHttp) \<Rightarrow> CHttp \<Rightarrow> bool \<times> CHttp" where
  "and_then f g c = (case f c of (b, c') \<Rightarrow> if b then g c' else (False, c'))"

definition AddStatusLine :: "int \<Rightarrow> string \<Rightarrow> CHttp \<Rightarrow> bool \<times> CHttp" where
  "AddStatusLine status title = AddLine (''HTTP/1.1 '' @ dec_int status @ '' '' @ title @ [CR, LF])"

definition AddContentLength :: "int \<Rightarrow> CHttp \<Rightarrow> bool \<times> CHttp" where
  "AddContentLength n = AddLine (''Content-Length:'' @ dec_int n @ [CR, LF])"

definition AddContentType :: "CHttp \<Rightarrow> bool \<times> CHttp" where
  "AddContentType = AddLine (''Content-Type:'' @ ''text/html'' @ [CR, LF])"

definition AddLinger :: "CHttp \<Rightarrow> bool \<times> CHttp" where
  "AddLinger c =
     AddLine (''Connection:'' @ (if m_bLinger c then ''keep-alive'' else ''close'') @ [CR, LF]) c"

definition AddBlankLine :: "CHttp \<Rightarrow> bool \<times> CHttp" where
  "AddBlankLine = AddLine [CR, LF]"

definition AddContent :: "string \<Rightarrow> CHttp \<Rightarrow> bool \<times> CHttp" where
  "AddContent txt = AddLine txt"

text \<open>The parameter of \<open>AddHeaders\<close> is an \<open>int\<close>; sizes are converted when they are passed.\<close>

definition AddHeaders :: "int \<Rightarrow> CHttp \<Rightarrow> bool \<times> CHttp" where
  "AddHeaders n =
     and_then (AddContentLength (c_int n)) (and_then AddLinger (and_then AddContentType AddBlankLine))"

definition ok_200_title :: string where "ok_200_title = ''OK''"
definition error_400_title :: string where "error_400_title = ''Bad Request''"
definition error_400_form :: string where
  "error_400_form =
     ''Your request has bad syntax or is inherently impossible to staisfy.'' @ [LF]"
definition error_403_title :: string where "error_403_title = ''Forbidden''"
definition error_403_form :: string where
  "error_403_form = ''You do not have permission to get file form this server.'' @ [LF]"
definition error_404_title :: string where "error_404_title = ''Not Found''"
definition error_404_form :: string where
  "error_404_form = ''The requested file was not found on this server.'' @ [LF]"
definition error_500_title :: string where "error_500_title = ''Internal Error''"
definition error_500_form :: string where
  "error_500_form = ''There was an unusual problem serving the request file.'' @ [LF]"

text \<open>
  The three statements every error branch runs. Only the result of the last one is returned; the
  length of the form, an \<open>int\<close> after conversion, is passed on.
\<close>

definition error_reply :: "int \<Rightarrow> string \<Rightarrow> string \<Rightarrow> CHttp \<Rightarrow> bool \<times> CHttp" where
  "error_reply status title form c =
     (let c1 = snd (AddStatusLine status title c);
          c2 = snd (AddHeaders (int (length form)) c1)
      in AddContent form c2)"

text \<open>The branch for a file that can be served.\<close>

definition file_reply :: "kernel \<Rightarrow> CHttp \<Rightarrow> world \<Rightarrow> bool \<times> CHttp \<times> world" where
  "file_reply k c w =
     (let fd = k_open k (m_aFile c);
          sz = st_size (m_sFileStat c);
          c1 = c\<lparr>m_pFileAddr := k_mmap k sz fd\<rparr>;
          w1 = emit (CloseFd fd) w;
          c2 = snd (AddStatusLine 200 ok_200_title c1);
          c3 = snd (AddHeaders sz c2)
      in (True,
          c3\<lparr>m_sIv0 := \<lparr>iov_base = InWrite 0, iov_len = m_iWriteIdx c3\<rparr>,
             m_sIv1 := \<lparr>iov_base = InFile 0, iov_len = nat sz\<rparr>,
             m_iIvCount := 2,
             m_iDataLen := c_int (int (m_iWriteIdx c3) + sz)\<rparr>,
          w1))"

definition ParseWrite :: "kernel \<Rightarrow> HttpRequestDecodeState \<Rightarrow> CHttp \<Rightarrow> world \<Rightarrow> bool \<times> CHttp \<times> world" where
  "ParseWrite k status c w =
     (if invalid_state status then
        (case error_reply 400 error_400_title error_400_form c of (b, c') \<Rightarrow> (b, c', w))
      else if status = COMPLETE then
        (case k_stat k (m_aFile c) of
           None \<Rightarrow> (case error_reply 404 error_404_title error_404_form c of (b, c') \<Rightarrow> (b, c', w))
         | Some st \<Rightarrow>
             let c0 = c\<lparr>m_sFileStat := st\<rparr> in
             if st_mode st AND S_IROTH = 0 then
               (case error_reply 403 error_403_title error_403_form c0 of (b, c') \<Rightarrow> (b, c', w))
             else if st_mode st AND S_IFMT = S_IFDIR then
               (case error_reply 404 error_404_title error_404_form c0 of (b, c') \<Rightarrow> (b, c', w))
             else file_reply k c0 w)
      else
        (case error_reply 500 error_500_title error_500_form c of (b, c') \<Rightarrow> (b, c', w)))"

definition HttpParse :: "kernel \<Rightarrow> CHttp \<Rightarrow> world \<Rightarrow> (CHttp \<times> world) res" where
  "HttpParse k c w =
     bind_res (ParseRead c) (\<lambda>(status, c1).
       if status = OPEN then
         Inr (c1, ModFd (m_iEpollFd w) (m_iSockFd c1) EPOLLIN (m_iTriggerMode c1) w)
       else
         (case ParseWrite k status c1 w of (ret, c2, w2) \<Rightarrow>
            if \<not> ret then Inr (CloseHttp c2 w2)
            else Inr (c2, ModFd (m_iEpollFd w2) (m_iSockFd c2) EPOLLOUT (m_iTriggerMode c2) w2)))"

section \<open>Sending\<close>

datatype writev_result = Wrote int | WriteErr int

type_synonym sender = "nat \<Rightarrow> writev_result"

text \<open>The memory a base pointer plus offset names; \<open>None\<close> outside the array or the mapping.\<close>

definition cell_at :: "string \<Rightarrow> int \<Rightarrow> char option" where
  "cell_at mem i = (if 0 \<le> i \<and> i < int (length mem) then Some (mem ! nat i) else None)"

definition iov_cell :: "CHttp \<Rightarrow> iov_base \<Rightarrow> nat \<Rightarrow> char option" where
  "iov_cell c b j =
     (case b of
        NoBase \<Rightarrow> None
      | InWrite i \<Rightarrow> cell_at (m_aWriteData c) (i + int j)
      | InFile i \<Rightarrow> (case m_pFileAddr c of FMap mem \<Rightarrow> cell_at mem (i + int j) | _ \<Rightarrow> None))"

definition iov_cells :: "CHttp \<Rightarrow> iovec \<Rightarrow> char option list" where
  "iov_cells c v = map (iov_cell c (iov_base v)) [0..<iov_len v]"

text \<open>The memory handed to \<open>writev\<close>: the first \<open>m_iIvCount\<close> segments.\<close>

definition out_cells :: "CHttp \<Rightarrow> char option list" where
  "out_cells c = concat (take (m_iIvCount c) [iov_cells c (m_sIv0 c), iov_cells c (m_sIv1 c)])"

text \<open>
  After a \<open>writev\<close> that did not finish: the two segments for the next call. The comparison is the
  one of the source, against the length that is left in the first segment.
\<close>

definition advance_iov :: "CHttp \<Rightarrow> CHttp" where
  "advance_iov c =
     (if int (iov_len (m_sIv0 c)) \<le> m_iDataSendLen c then
        c\<lparr>m_sIv0 := (m_sIv0 c)\<lparr>iov_len := 0\<rparr>,
          m_sIv1 := \<lparr>iov_base = InFile (m_iDataSendLen c - int (m_iWriteIdx c)),
                     iov_len = nat (m_iDataLen c)\<rparr>\<rparr>
      else
        c\<lparr>m_sIv0 := \<lparr>iov_base = InWrite (m_iDataSendLen c),
                     iov_len = iov_len (m_sIv0 c) - nat (m_iDataSendLen c)\<rparr>\<rparr>)"

partial_function (option) write_loop ::
  "sender \<Rightarrow> nat \<Rightarrow> CHttp \<Rightarrow> world \<Rightarrow> (bool \<times> CHttp \<times> world) res option" where
  "write_loop writev i c w =
     (case writev i of
        WriteErr e \<Rightarrow>
          if e = EAGAIN then
            Some (Inr (True, c, ModFd (m_iEpollFd w) (m_iSockFd c) EPOLLOUT (m_iTriggerMode c) w))
          else (case unmmap c w of (c', w') \<Rightarrow> Some (Inr (False, c', w')))
      | Wrote n \<Rightarrow>
          let bytes = take (nat n) (out_cells c) in
          if None \<in> set bytes then Some (Inl OutOfBounds)
          else
            let w1 = emit (Sent (m_iSockFd c) (map the bytes)) w;
                c1 = c\<lparr>m_iDataSendLen := m_iDataSendLen c + n, m_iDataLen := m_iDataLen c - n\<rparr>
            in if m_iDataLen c1 \<le> 0 then
                 (case unmmap c1 w1 of (c2, w2) \<Rightarrow>
                    let w3 = ModFd (m_iEpollFd w2) (m_iSockFd c2) EPOLLIN (m_iTriggerMode c2) w2 in
                    if m_bLinger c2 then Some (Inr (True, reset_buffers c2, w3))
                    else Some (Inr (False, c2, w3)))
               else write_loop writev (Suc i) (advance_iov c1) w1)"

definition CHttp_Write :: "sender \<Rightarrow> CHttp \<Rightarrow> world \<Rightarrow> (bool \<times> CHttp \<times> world) res option" where
  "CHttp_Write writev c w =
     (if m_iDataLen c = 0 then
        Some (Inr (True, reset_buffers c,
          ModFd (m_iEpollFd w) (m_iSockFd c) EPOLLIN (m_iTriggerMode c) w))
      else write_loop writev 0 c w)"

end
