(* ===== verification/Http_Reply.thy ===== *)
theory Http_Reply
  imports Http_Conn
begin

text \<open>
  The reply builder. \<open>out_buffer\<close> is the contract of a bounded append-only buffer; the connection's
  write buffer with \<open>AddLine\<close> is an instance, and the text of every reply follows from it.
\<close>

section \<open>A bounded buffer of lines\<close>

fun add_lines :: "(string \<Rightarrow> 'c \<Rightarrow> bool \<times> 'c) \<Rightarrow> string list \<Rightarrow> 'c \<Rightarrow> bool \<times> 'c" where
  "add_lines add [] c = (True, c)"
| "add_lines add (t # ts) c =
     (case add t c of (b, c') \<Rightarrow> if b then add_lines add ts c' else (False, c'))"

locale out_buffer =
  fixes add :: "string \<Rightarrow> 'c \<Rightarrow> bool \<times> 'c"
    and contents :: "'c \<Rightarrow> string"
    and capacity :: nat
    and inv :: "'c \<Rightarrow> bool"
    and frame :: "'c \<Rightarrow> 'f"
  assumes add_fits: "inv c \<Longrightarrow> length (contents c) + length t < capacity \<Longrightarrow>
      fst (add t c) \<and> contents (snd (add t c)) = contents c @ t"
    and add_full: "inv c \<Longrightarrow> capacity \<le> length (contents c) + length t \<Longrightarrow>
      \<not> fst (add t c) \<and> contents (snd (add t c)) = contents c"
    and add_inv: "inv c \<Longrightarrow> inv (snd (add t c))"
    and add_frame: "inv c \<Longrightarrow> frame (snd (add t c)) = frame c"
begin

lemma add_cases:
  assumes "inv c"
  obtains (fits) c' where "add t c = (True, c')" "contents c' = contents c @ t" "inv c'"
      "frame c' = frame c" "length (contents c) + length t < capacity"
  | (full) c' where "add t c = (False, c')" "contents c' = contents c" "inv c'"
      "frame c' = frame c" "capacity \<le> length (contents c) + length t"
proof (cases "length (contents c) + length t < capacity")
  case True
  then show ?thesis
    using fits [of "snd (add t c)"] add_fits [OF assms] add_inv [OF assms] add_frame [OF assms]
    by (metis prod.collapse)
next
  case False
  then show ?thesis
    using full [of "snd (add t c)"] add_full [OF assms] add_inv [OF assms] add_frame [OF assms]
    by (metis linorder_not_less prod.collapse)
qed

lemma lines_fit:
  assumes "inv c" and "length (contents c) + length (concat ts) < capacity"
  shows "\<exists>c'. add_lines add ts c = (True, c') \<and> contents c' = contents c @ concat ts \<and>
    inv c' \<and> frame c' = frame c"
  using assms
proof (induction ts arbitrary: c)
  case Nil
  then show ?case by simp
next
  case (Cons t ts)
  from Cons.prems(1) show ?case
  proof (cases rule: add_cases [of c t])
    case (fits c')
    then show ?thesis using Cons.IH [of c'] Cons.prems by auto
  next
    case (full c')
    then show ?thesis using Cons.prems by simp
  qed
qed

text \<open>Whatever the room, only whole lines end up in the buffer, in order.\<close>

lemma lines_prefix:
  assumes "inv c"
  shows "inv (snd (add_lines add ts c)) \<and> frame (snd (add_lines add ts c)) = frame c \<and>
    (\<exists>k. contents (snd (add_lines add ts c)) = contents c @ concat (take k ts) \<and>
      (fst (add_lines add ts c) \<longrightarrow> length ts \<le> k))"
  using assms
proof (induction ts arbitrary: c)
  case Nil
  then show ?case by auto
next
  case (Cons t ts)
  from Cons.prems show ?case
  proof (cases rule: add_cases [of c t])
    case (fits c')
    let ?r = "add_lines add ts c'"
    from Cons.IH [OF fits(3)] obtain k where "contents (snd ?r) = contents c' @ concat (take k ts)"
      "inv (snd ?r)" "frame (snd ?r) = frame c'" "fst ?r \<longrightarrow> length ts \<le> k" by auto
    with fits have "contents (snd ?r) = contents c @ concat (take (Suc k) (t # ts)) \<and>
        (fst ?r \<longrightarrow> length (t # ts) \<le> Suc k)" "inv (snd ?r)" "frame (snd ?r) = frame c"
      by auto
    moreover have "add_lines add (t # ts) c = ?r" using fits by simp
    ultimately show ?thesis by metis
  next
    case (full c')
    then show ?thesis by (auto intro: exI [of _ 0])
  qed
qed

end

section \<open>The write buffer of a connection\<close>

definition written :: "CHttp \<Rightarrow> string" where
  "written c = take (m_iWriteIdx c) (m_aWriteData c)"

definition write_inv :: "CHttp \<Rightarrow> bool" where
  "write_inv c \<longleftrightarrow> length (m_aWriteData c) = MAX_WRITE_DATA_BUFF_SIZE \<and>
     m_iWriteIdx c < MAX_WRITE_DATA_BUFF_SIZE - 1"

text \<open>Everything but the write buffer.\<close>

definition rest_of :: "CHttp \<Rightarrow> CHttp" where
  "rest_of c = c\<lparr>m_aWriteData := [], m_iWriteIdx := 0\<rparr>"

lemma store_at_length: "i + length d \<le> length buf \<Longrightarrow> length (store_at i d buf) = length buf"
  by (simp add: store_at_def)

lemma take_store_at: "i \<le> length buf \<Longrightarrow> take (i + n) (store_at i d buf) = take i buf @ take n (d @ drop (i + length d) buf)"
  by (simp add: store_at_def min_def)

lemma written_length: "write_inv c \<Longrightarrow> length (written c) = m_iWriteIdx c"
  by (auto simp: written_def write_inv_def)

lemma AddLine_effect:
  assumes "write_inv c" and "room = MAX_WRITE_DATA_BUFF_SIZE - 1 - m_iWriteIdx c"
  shows "AddLine txt c =
    (length txt < room,
     c\<lparr>m_aWriteData := store_at (m_iWriteIdx c) (take (room - 1) txt @ [NUL]) (m_aWriteData c),
       m_iWriteIdx := (if length txt < room then m_iWriteIdx c + length txt else m_iWriteIdx c)\<rparr>)"
  using assms by (auto simp: AddLine_def Let_def write_inv_def)

interpretation wb: out_buffer AddLine written "MAX_WRITE_DATA_BUFF_SIZE - 1" write_inv rest_of
proof unfold_locales
  fix c t
  assume inv: "write_inv c"
  define room where "room = MAX_WRITE_DATA_BUFF_SIZE - 1 - m_iWriteIdx c"
  note eff = AddLine_effect [OF inv room_def]
  have len: "m_iWriteIdx c < length (m_aWriteData c)" "length (m_aWriteData c) = MAX_WRITE_DATA_BUFF_SIZE"
    "m_iWriteIdx c + length (take (room - 1) t @ [NUL]) \<le> length (m_aWriteData c)"
    using inv by (auto simp: write_inv_def room_def)
  show "rest_of (snd (AddLine t c)) = rest_of c" by (simp add: eff rest_of_def)
  show "write_inv (snd (AddLine t c))"
    using inv len by (auto simp: eff write_inv_def store_at_length room_def)
  show "fst (AddLine t c) \<and> written (snd (AddLine t c)) = written c @ t"
    if "length (written c) + length t < MAX_WRITE_DATA_BUFF_SIZE - 1"
  proof -
    have "length t < room" using that written_length [OF inv] by (simp add: room_def)
    then have "take (room - 1) t = t" by simp
    with \<open>length t < room\<close> show ?thesis using len by (simp add: eff written_def take_store_at)
  qed
  show "\<not> fst (AddLine t c) \<and> written (snd (AddLine t c)) = written c"
    if "MAX_WRITE_DATA_BUFF_SIZE - 1 \<le> length (written c) + length t"
  proof -
    have "\<not> length t < room" using that written_length [OF inv] by (simp add: room_def)
    then show ?thesis using len take_store_at [of "m_iWriteIdx c" "m_aWriteData c" 0]
      by (simp add: eff written_def)
  qed
qed

section \<open>The head of a reply\<close>

definition status_line :: "int \<Rightarrow> string \<Rightarrow> string" where
  "status_line status title = ''HTTP/1.1 '' @ dec_int status @ '' '' @ title @ [CR, LF]"

definition length_line :: "int \<Rightarrow> string" where
  "length_line n = ''Content-Length:'' @ dec_int n @ [CR, LF]"

definition linger_line :: "bool \<Rightarrow> string" where
  "linger_line linger = ''Connection:'' @ (if linger then ''keep-alive'' else ''close'') @ [CR, LF]"

definition type_line :: string where
  "type_line = ''Content-Type:text/html'' @ [CR, LF]"

definition header_lines :: "int \<Rightarrow> bool \<Rightarrow> string list" where
  "header_lines n linger = [length_line (c_int n), linger_line linger, type_line, [CR, LF]]"

definition reply_head :: "int \<Rightarrow> string \<Rightarrow> int \<Rightarrow> bool \<Rightarrow> string" where
  "reply_head status title n linger = status_line status title @ concat (header_lines n linger)"

lemma AddStatusLine_line: "AddStatusLine status title c = AddLine (status_line status title) c"
  by (simp add: AddStatusLine_def status_line_def)

lemma rest_of_linger: "rest_of c' = rest_of c \<Longrightarrow> m_bLinger c' = m_bLinger c"
  by (drule arg_cong [where f = m_bLinger]) (simp add: rest_of_def)

lemma Add_lines:
  "AddContentLength n = AddLine (length_line n)"
  "AddLinger c = AddLine (linger_line (m_bLinger c)) c"
  "AddContentType = AddLine type_line"
  by (simp_all add: AddContentLength_def length_line_def AddLinger_def linger_line_def
      AddContentType_def type_line_def)

lemma AddHeaders_lines:
  assumes "write_inv c"
  shows "AddHeaders n c = add_lines AddLine (header_lines n (m_bLinger c)) c"
proof -
  have "m_bLinger (snd (AddLine (length_line (c_int n)) c)) = m_bLinger c"
    using wb.add_frame [OF assms] by (rule rest_of_linger)
  then show ?thesis
    by (auto simp: AddHeaders_def and_then_def header_lines_def Add_lines AddBlankLine_def
        simp del: append.simps split: prod.splits)
qed

lemma reply_head_written:
  assumes "write_inv c"
    and "length (written c) + length (reply_head status title n (m_bLinger c)) < MAX_WRITE_DATA_BUFF_SIZE - 1"
  defines "c' \<equiv> snd (AddHeaders n (snd (AddStatusLine status title c)))"
  shows "written c' = written c @ reply_head status title n (m_bLinger c) \<and> write_inv c' \<and>
    rest_of c' = rest_of c"
proof -
  let ?lines = "status_line status title # header_lines n (m_bLinger c)"
  have fits: "length (written c) + length (concat ?lines) < MAX_WRITE_DATA_BUFF_SIZE - 1"
    using assms(2) by (simp add: reply_head_def)
  obtain c1 where c1: "AddLine (status_line status title) c = (True, c1)"
    "write_inv c1" "rest_of c1 = rest_of c"
    using assms(1) fits by (cases rule: wb.add_cases [of c "status_line status title"]) auto
  have "c' = snd (add_lines AddLine ?lines c)"
    using c1 rest_of_linger [OF c1(3)] by (simp add: c'_def AddStatusLine_line AddHeaders_lines)
  with wb.lines_fit [OF assms(1) fits] show ?thesis by (auto simp: reply_head_def)
qed


section \<open>Properties\<close>

text \<open>
  C24: \<open>AddLine\<close> is an append on a bounded buffer. It succeeds exactly when the line and the
  final NUL still fit; then the buffer holds the old text followed by the line, otherwise the old
  text. The array keeps its size and nothing else of the connection changes.
\<close>

theorem AddLine_spec:
  assumes "write_inv c" and "AddLine line c = (b, c')"
  shows "b = (length (written c) + length line < MAX_WRITE_DATA_BUFF_SIZE - 1) \<and>
    written c' = (if b then written c @ line else written c) \<and> write_inv c' \<and> rest_of c' = rest_of c"
  using assms by (cases rule: wb.add_cases [of c line]) auto

definition idle_conn :: CHttp where
  "idle_conn = \<lparr>m_iSockFd = 7, m_sAddr = \<lparr>sin_addr = 0, sin_port = 0\<rparr>,
     m_aReadData = zeros MAX_READ_DATA_BUFF_SIZE, m_aWriteData = zeros MAX_WRITE_DATA_BUFF_SIZE,
     m_pFileAddr = FNull, m_iDataLen = 0, m_iDataSendLen = 0, m_iTriggerMode = 0, m_iReadIdx = 0,
     m_iWriteIdx = 0,
     m_sHttpParse = \<lparr>m_strMethod = [], m_strUrl = [], m_mRequestParams = Map.empty,
       m_strProtocol = [], m_strVersion = [], m_mHeaders = Map.empty, m_strBody = [],
       m_iNextPos = 0, m_bIsOpen = False, m_eDecodeState = START\<rparr>,
     m_sFileStat = \<lparr>st_mode = 0, st_size = 0\<rparr>,
     m_sIv0 = \<lparr>iov_base = NoBase, iov_len = 0\<rparr>, m_sIv1 = \<lparr>iov_base = NoBase, iov_len = 0\<rparr>,
     m_iIvCount = 0, m_bLinger = False, m_aFile = ''./1.html''\<rparr>"

lemma idle_conn_inv: "write_inv idle_conn" "written idle_conn = []"
  by (simp_all add: write_inv_def idle_conn_def zeros_def MAX_WRITE_DATA_BUFF_SIZE_def written_def)

lemma AddLine_spec_witness:
  "\<exists>c'. AddLine ''ab'' idle_conn = (True, c') \<and> written c' = ''ab'' \<and> write_inv c'"
proof -
  obtain b c' where eq: "AddLine ''ab'' idle_conn = (b, c')" by (cases "AddLine ''ab'' idle_conn")
  from AddLine_spec [OF idle_conn_inv(1) eq] have b and "written c' = ''ab''" "write_inv c'"
    by (simp_all add: idle_conn_inv(2) MAX_WRITE_DATA_BUFF_SIZE_def)
  with eq show ?thesis by auto
qed

text \<open>Which error, if any, answers a request: the conditions of \<open>ParseWrite\<close> in their order.\<close>

definition reply_error ::
  "kernel \<Rightarrow> HttpRequestDecodeState \<Rightarrow> string \<Rightarrow> (int \<times> string \<times> string) option" where
  "reply_error k status file =
     (if invalid_state status then Some (400, error_400_title, error_400_form)
      else if status = COMPLETE then
        (case k_stat k file of
           None \<Rightarrow> Some (404, error_404_title, error_404_form)
         | Some st \<Rightarrow>
             if st_mode st AND S_IROTH = 0 then Some (403, error_403_title, error_403_form)
             else if st_mode st AND S_IFMT = S_IFDIR then Some (404, error_404_title, error_404_form)
             else None)
      else Some (500, error_500_title, error_500_form))"

lemma reply_head_length:
  assumes "INT_MIN \<le> status" "status \<le> INT_MAX"
  shows "length (reply_head status title n linger) \<le> 110 + length title"
  using dec_int_length [OF assms] dec_int_length [of "c_int n"] c_int_range [of n]
  by (simp add: reply_head_def status_line_def header_lines_def length_line_def linger_line_def
      type_line_def)

lemma reply_error_small:
  assumes "reply_error k status file = Some (code, title, form)"
  shows "INT_MIN \<le> code" "code \<le> INT_MAX" "length title \<le> 100" "length form \<le> 100"
  using assms
  by (auto simp: reply_error_def INT_MIN_def INT_MAX_def error_400_title_def error_400_form_def
      error_403_title_def error_403_form_def error_404_title_def error_404_form_def
      error_500_title_def error_500_form_def split: if_splits option.splits)

lemma reply_form_written:
  assumes "write_inv c" and "written c = []"
    and "INT_MIN \<le> code" "code \<le> INT_MAX" "length title \<le> 100" "length form \<le> 100"
  shows "\<exists>c'. error_reply code title form c = (True, c') \<and>
    written c' = reply_head code title (int (length form)) (m_bLinger c) @ form \<and> write_inv c' \<and>
    rest_of c' = rest_of c"
proof -
  let ?h = "reply_head code title (int (length form)) (m_bLinger c)"
  let ?c2 = "snd (AddHeaders (int (length form)) (snd (AddStatusLine code title c)))"
  have small: "length ?h \<le> 210"
    using reply_head_length [OF assms(3,4), of title "int (length form)" "m_bLinger c"] assms(5) by linarith
  have "written ?c2 = written c @ ?h \<and> write_inv ?c2 \<and> rest_of ?c2 = rest_of c"
    using small assms(2) by (intro reply_head_written [OF assms(1)]) (simp add: MAX_WRITE_DATA_BUFF_SIZE_def)
  then have c2: "written ?c2 = ?h" "write_inv ?c2" "rest_of ?c2 = rest_of c" using assms(2) by simp_all
  from c2(2) show ?thesis
  proof (cases rule: wb.add_cases [of ?c2 form])
    case (fits c')
    with c2 show ?thesis by (auto simp: error_reply_def AddContent_def Let_def)
  next
    case (full c')
    with c2 small assms(6) show ?thesis by (simp add: MAX_WRITE_DATA_BUFF_SIZE_def)
  qed
qed

text \<open>
  C26: error replies. Whatever fails (a rejected request, a missing, unreadable or directory file,
  an unexpected state), an empty write buffer then holds the whole reply: status line, headers
  with the length of the page, blank line and page.
\<close>

theorem error_reply_text:
  assumes "write_inv c" and "written c = []"
    and "reply_error k status (m_aFile c) = Some (code, title, form)"
  shows "\<exists>c'. ParseWrite k status c w = (True, c', w) \<and> write_inv c' \<and>
    written c' = reply_head code title (int (length form)) (m_bLinger c) @ form"
proof -
  note small = reply_error_small [OF assms(3)]
  have stat: "write_inv (c\<lparr>m_sFileStat := st\<rparr>)" "written (c\<lparr>m_sFileStat := st\<rparr>) = []" for st
    using assms by (simp_all add: write_inv_def written_def)
  from reply_form_written [OF assms(1,2) small] obtain c1 where
    1: "error_reply code title form c = (True, c1)" "write_inv c1"
      "written c1 = reply_head code title (int (length form)) (m_bLinger c) @ form" by auto
  have 2: "\<exists>c'. error_reply code title form (c\<lparr>m_sFileStat := st\<rparr>) = (True, c') \<and> write_inv c' \<and>
      written c' = reply_head code title (int (length form)) (m_bLinger c) @ form" for st
    using reply_form_written [OF stat small, of st] by auto
  show ?thesis
  proof (cases "k_stat k (m_aFile c)")
    case None
    with assms(3) 1 show ?thesis
      by (auto simp: ParseWrite_def reply_error_def split: if_splits)
  next
    case (Some st)
    with assms(3) 1 2 [of st] show ?thesis
      by (auto simp: ParseWrite_def reply_error_def Let_def split: if_splits)
  qed
qed

text \<open>A kernel with one readable file of three bytes, and one without files.\<close>

definition demo_kernel :: kernel where
  "demo_kernel = \<lparr>k_getfl = (\<lambda>_. 2),
     k_stat = (\<lambda>f. if f = ''./1.html'' then Some \<lparr>st_mode = 0x81A4, st_size = 3\<rparr> else None),
     k_open = (\<lambda>_. 9), k_mmap = (\<lambda>n fd. FMap ''abc'')\<rparr>"

definition empty_kernel :: kernel where
  "empty_kernel = demo_kernel\<lparr>k_stat := (\<lambda>_. None)\<rparr>"

definition world0 :: world where
  "world0 = \<lparr>m_iEpollFd = 3, m_iHttpCnt = 1, w_calls = []\<rparr>"

lemma error_reply_text_witness:
  "\<exists>c'. ParseWrite empty_kernel COMPLETE idle_conn world0 = (True, c', world0) \<and> write_inv c' \<and>
    written c' = reply_head 404 error_404_title (int (length error_404_form)) (m_bLinger idle_conn)
      @ error_404_form"
  by (rule error_reply_text [OF idle_conn_inv])
    (simp add: reply_error_def empty_kernel_def invalid_state_def)

lemma error_reply_rest:
  assumes "write_inv c"
  shows "rest_of (snd (error_reply code title form c)) = rest_of c"
proof -
  let ?c1 = "snd (AddStatusLine code title c)"
  let ?c2 = "snd (AddHeaders (int (length form)) ?c1)"
  have c1: "write_inv ?c1" "rest_of ?c1 = rest_of c"
    using wb.add_inv [OF assms] wb.add_frame [OF assms] by (simp_all add: AddStatusLine_line)
  have c2: "write_inv ?c2" "rest_of ?c2 = rest_of ?c1"
    using wb.lines_prefix [OF c1(1)] by (simp_all add: AddHeaders_lines [OF c1(1)])
  show ?thesis using wb.add_frame [OF c2(1)] c1 c2 by (simp add: error_reply_def AddContent_def Let_def)
qed

lemma rest_of_fields:
  assumes "rest_of c' = rest_of c"
  shows "m_iDataLen c' = m_iDataLen c" "m_iSockFd c' = m_iSockFd c"
    "m_iTriggerMode c' = m_iTriggerMode c" "m_bLinger c' = m_bLinger c"
    "m_pFileAddr c' = m_pFileAddr c" "m_sHttpParse c' = m_sHttpParse c"
    "m_iDataSendLen c' = m_iDataSendLen c" "m_sFileStat c' = m_sFileStat c"
    "m_aFile c' = m_aFile c" "m_iReadIdx c' = m_iReadIdx c" "m_aReadData c' = m_aReadData c"
  using assms by (simp_all add: rest_of_def) (cases c; cases c'; simp)+

lemma error_branch:
  assumes "write_inv c" and "reply_error k status (m_aFile c) = Some e"
    and "ParseWrite k status c w = (b, c', w')"
  shows "w' = w \<and> m_iDataLen c' = m_iDataLen c \<and> m_iSockFd c' = m_iSockFd c \<and>
    m_iTriggerMode c' = m_iTriggerMode c"
proof -
  have stat: "write_inv (c\<lparr>m_sFileStat := st\<rparr>)" for st using assms by (simp add: write_inv_def)
  note r1 = rest_of_fields [OF error_reply_rest [OF assms(1)]]
  note r2 = rest_of_fields [OF error_reply_rest [OF stat]]
  show ?thesis
    using assms(2,3) r1 r2
    by (auto simp: ParseWrite_def reply_error_def Let_def split: if_splits option.splits prod.splits
        dest!: arg_cong [where f = snd])
qed

text \<open>
  C38: error replies are never sent. \<open>ParseWrite\<close> leaves \<open>m_iDataLen\<close> at zero on every error
  branch, and \<open>Write\<close> takes zero for \<open>nothing to send\<close>: it calls no \<open>writev\<close>, clears the buffers,
  discards the request and waits for input again, reporting success.
\<close>

theorem error_reply_not_sent:
  assumes "write_inv c" and "m_iDataLen c = 0" and "reply_error k status (m_aFile c) = Some e"
    and "ParseWrite k status c w = (b, c', w')"
  shows "CHttp_Write writev c' w' = Some (Inr (True, reset_buffers c',
    ModFd (m_iEpollFd w) (m_iSockFd c) EPOLLIN (m_iTriggerMode c) w))"
  using error_branch [OF assms(1,3,4)] assms(2) by (simp add: CHttp_Write_def)

lemma error_reply_not_sent_witness:
  "\<exists>c' w'. ParseWrite empty_kernel COMPLETE idle_conn world0 = (True, c', w') \<and>
    CHttp_Write (\<lambda>i. Wrote 10) c' w' = Some (Inr (True, reset_buffers c', ModFd 3 7 EPOLLIN 0 world0))"
proof -
  have none: "reply_error empty_kernel COMPLETE (m_aFile idle_conn) =
      Some (404, error_404_title, error_404_form)"
    by (simp add: reply_error_def empty_kernel_def invalid_state_def)
  obtain b c' w' where eq: "ParseWrite empty_kernel COMPLETE idle_conn world0 = (b, c', w')"
    by (cases "ParseWrite empty_kernel COMPLETE idle_conn world0")
  have b using eq none idle_conn_inv(2)
      reply_form_written [OF idle_conn_inv reply_error_small [OF none]]
    by (auto simp: ParseWrite_def invalid_state_def empty_kernel_def)
  have "m_iDataLen idle_conn = 0" by (simp add: idle_conn_def)
  from error_reply_not_sent [OF idle_conn_inv(1) this none eq, of "\<lambda>i. Wrote 10"] eq \<open>b\<close>
  show ?thesis by (simp add: idle_conn_def world0_def)
qed

lemma file_reply_parts:
  assumes "write_inv c" and "written c = []"
    and "0 \<le> st_size (m_sFileStat c)" and "st_size (m_sFileStat c) \<le> INT_MAX - 1024"
  obtains c3 where
    "written c3 = reply_head 200 ok_200_title (st_size (m_sFileStat c)) (m_bLinger c)"
    "write_inv c3" "length (written c3) \<le> 112"
    "rest_of c3 = rest_of (c\<lparr>m_pFileAddr := k_mmap k (st_size (m_sFileStat c)) (k_open k (m_aFile c))\<rparr>)"
    "file_reply k c w = (True, c3\<lparr>m_sIv0 := \<lparr>iov_base = InWrite 0, iov_len = length (written c3)\<rparr>,
       m_sIv1 := \<lparr>iov_base = InFile 0, iov_len = nat (st_size (m_sFileStat c))\<rparr>, m_iIvCount := 2,
       m_iDataLen := int (length (written c3)) + st_size (m_sFileStat c)\<rparr>,
       emit (CloseFd (k_open k (m_aFile c))) w)"
proof -
  let ?n = "st_size (m_sFileStat c)"
  let ?c1 = "c\<lparr>m_pFileAddr := k_mmap k ?n (k_open k (m_aFile c))\<rparr>"
  define c3 where "c3 = snd (AddHeaders ?n (snd (AddStatusLine 200 ok_200_title ?c1)))"
  let ?h = "reply_head 200 ok_200_title ?n (m_bLinger c)"
  have inv1: "write_inv ?c1" and empty1: "written ?c1 = []" "m_bLinger ?c1 = m_bLinger c"
    using assms(1,2) by (simp_all add: write_inv_def written_def)
  have small: "length ?h \<le> 112"
    using reply_head_length [of 200 ok_200_title ?n "m_bLinger c"]
    by (simp add: INT_MIN_def INT_MAX_def ok_200_title_def)
  have "written c3 = written ?c1 @ reply_head 200 ok_200_title ?n (m_bLinger ?c1) \<and>
      write_inv c3 \<and> rest_of c3 = rest_of ?c1"
    using small empty1 unfolding c3_def
    by (intro reply_head_written [OF inv1]) (simp add: MAX_WRITE_DATA_BUFF_SIZE_def)
  then have c3: "written c3 = ?h" "write_inv c3" "rest_of c3 = rest_of ?c1"
    using empty1 by simp_all
  have idx: "m_iWriteIdx c3 = length (written c3)" using written_length [OF c3(2)] by simp
  have id: "c_int (int (length (written c3)) + ?n) = int (length (written c3)) + ?n"
    using assms(3,4) small c3(1) by (auto intro!: c_int_id simp: INT_MIN_def INT_MAX_def)
  have eq: "file_reply k c w = (True, c3\<lparr>m_sIv0 := \<lparr>iov_base = InWrite 0, iov_len = length (written c3)\<rparr>,
       m_sIv1 := \<lparr>iov_base = InFile 0, iov_len = nat ?n\<rparr>, m_iIvCount := 2,
       m_iDataLen := int (length (written c3)) + ?n\<rparr>,
       emit (CloseFd (k_open k (m_aFile c))) w)"
    unfolding file_reply_def Let_def c3_def [symmetric] idx id ..
  show ?thesis using that [OF c3(1,2) _ c3(3) eq] small c3(1) by simp
qed

lemma ParseWrite_file:
  assumes "k_stat k (m_aFile c) = Some st" and "reply_error k COMPLETE (m_aFile c) = None"
  shows "ParseWrite k COMPLETE c w = file_reply k (c\<lparr>m_sFileStat := st\<rparr>) w"
  using assms by (auto simp: ParseWrite_def reply_error_def Let_def split: if_splits)

lemma atoi_dec_int:
  assumes "0 \<le> n" and "n \<le> INT_MAX"
  shows "atoi (dec_int (c_int n)) = Some n"
proof -
  have "c_int n = n" using assms by (intro c_int_id) (simp_all add: INT_MIN_def INT_MAX_def)
  moreover have "atoi (dec_nat (nat n)) = Some (int (nat n))" using assms by (intro atoi_dec_nat) simp
  ultimately show ?thesis using assms(1) by (simp add: dec_int_def)
qed

text \<open>
  The reply with the file. When the file can be served and its size leaves room in an \<open>int\<close>,
  the write buffer holds the 200 head whose \<open>Content-Length\<close>, read back with \<open>atoi\<close>, is the file
  size; the two segments are that head and the whole file, and \<open>m_iDataLen\<close> is their total.
\<close>

theorem file_reply_ready:
  assumes "write_inv c" and "written c = []"
    and "k_stat k (m_aFile c) = Some st" and "reply_error k COMPLETE (m_aFile c) = None"
    and "0 \<le> st_size st" and "st_size st \<le> INT_MAX - 1024"
  shows "\<exists>c'. ParseWrite k COMPLETE c w = (True, c', emit (CloseFd (k_open k (m_aFile c))) w) \<and>
    write_inv c' \<and> written c' = reply_head 200 ok_200_title (st_size st) (m_bLinger c) \<and>
    atoi (dec_int (c_int (st_size st))) = Some (st_size st) \<and>
    m_pFileAddr c' = k_mmap k (st_size st) (k_open k (m_aFile c)) \<and>
    m_sIv0 c' = \<lparr>iov_base = InWrite 0, iov_len = length (written c')\<rparr> \<and>
    m_sIv1 c' = \<lparr>iov_base = InFile 0, iov_len = nat (st_size st)\<rparr> \<and> m_iIvCount c' = 2 \<and>
    m_iDataLen c' = int (length (written c')) + st_size st"
proof -
  let ?c0 = "c\<lparr>m_sFileStat := st\<rparr>"
  have c0: "write_inv ?c0" "written ?c0 = []" "0 \<le> st_size (m_sFileStat ?c0)"
    "st_size (m_sFileStat ?c0) \<le> INT_MAX - 1024"
    using assms by (simp_all add: write_inv_def written_def)
  obtain c3 where c3: "written c3 = reply_head 200 ok_200_title (st_size st) (m_bLinger c)"
    "write_inv c3"
    "rest_of c3 = rest_of (?c0\<lparr>m_pFileAddr := k_mmap k (st_size st) (k_open k (m_aFile c))\<rparr>)"
    and eq: "file_reply k ?c0 w = (True, c3\<lparr>m_sIv0 := \<lparr>iov_base = InWrite 0, iov_len = length (written c3)\<rparr>,
       m_sIv1 := \<lparr>iov_base = InFile 0, iov_len = nat (st_size st)\<rparr>, m_iIvCount := 2,
       m_iDataLen := int (length (written c3)) + st_size st\<rparr>,
       emit (CloseFd (k_open k (m_aFile c))) w)"
    by (rule file_reply_parts [OF c0, of k w]) simp
  have readback: "atoi (dec_int (c_int (st_size st))) = Some (st_size st)"
    using assms(5,6) by (intro atoi_dec_int) (simp_all add: INT_MAX_def)
  show ?thesis
    unfolding ParseWrite_file [OF assms(3,4)] eq
    by (rule exI, intro conjI, rule refl)
      (use c3(1,2) readback rest_of_fields(5) [OF c3(3)] in \<open>simp_all add: write_inv_def written_def\<close>)
qed

lemma file_reply_ready_witness:
  "\<exists>c'. ParseWrite demo_kernel COMPLETE idle_conn world0 = (True, c', emit (CloseFd 9) world0) \<and>
     m_pFileAddr c' = FMap ''abc'' \<and> m_iDataLen c' = int (length (written c')) + 3"
proof -
  let ?st = "\<lparr>st_mode = 0x81A4, st_size = 3\<rparr>"
  have page: "m_aFile idle_conn = ''./1.html''" by (simp add: idle_conn_def)
  have st: "k_stat demo_kernel (m_aFile idle_conn) = Some ?st"
    and ok: "reply_error demo_kernel COMPLETE (m_aFile idle_conn) = None"
    by (simp_all add: page demo_kernel_def reply_error_def invalid_state_def)
  show ?thesis
    using file_reply_ready [OF idle_conn_inv st ok, of world0]
    by (auto simp: INT_MAX_def demo_kernel_def)
qed

end
