(* ===== verification/Http_Grammar.thy ===== *)
theory Http_Grammar
  imports Http_Request
begin

text \<open>
  The language the parser of \<open>Http_Request\<close> is meant to read: a request message as data, its
  text on the wire (\<open>render_head\<close>), the side conditions the state machine needs to split that
  text again (\<open>wf_msg\<close>), and the lemmas that follow the parser over each kind of token.
\<close>

section \<open>Messages and their text\<close>

record http_msg =
  q_method :: string
  q_url :: string
  q_params :: "(string \<times> string) list"
  q_protocol :: string
  q_version :: string
  q_headers :: "(string \<times> string) list"

definition param_text :: "string \<times> string \<Rightarrow> string" where
  "param_text kv = fst kv @ CHR ''='' # snd kv"

fun params_text :: "(string \<times> string) list \<Rightarrow> string" where
  "params_text [] = []"
| "params_text [kv] = param_text kv"
| "params_text (kv # kvs) = param_text kv @ CHR ''&'' # params_text kvs"

definition header_text :: "string \<times> string \<Rightarrow> string" where
  "header_text kv = fst kv @ CHR '':'' # CHR 0x20 # snd kv @ [CR, LF]"

definition uri_text :: "http_msg \<Rightarrow> string" where
  "uri_text q = q_url q @ (if q_params q = [] then [] else CHR ''?'' # params_text (q_params q))"

definition render_head :: "http_msg \<Rightarrow> string" where
  "render_head q = q_method q @ CHR 0x20 # uri_text q @ CHR 0x20 # q_protocol q @ CHR ''/'' #
     q_version q @ [CR, LF] @ concat (map header_text (q_headers q)) @ [CR, LF]"

section \<open>What the state machine accepts as a token\<close>

definition wf_method :: "string \<Rightarrow> bool" where
  "wf_method m \<longleftrightarrow> m \<noteq> [] \<and> (\<forall>c \<in> set m. isupper c)"

definition wf_url :: "string \<Rightarrow> bool" where
  "wf_url u \<longleftrightarrow> u \<noteq> [] \<and> hd u = CHR ''/'' \<and> (\<forall>c \<in> set (tl u). c \<noteq> CHR ''?'' \<and> \<not> isblank c)"

definition wf_key :: "string \<Rightarrow> bool" where
  "wf_key k \<longleftrightarrow> k \<noteq> [] \<and> \<not> isblank (hd k) \<and> hd k \<noteq> LF \<and> hd k \<noteq> CR \<and>
     (\<forall>c \<in> set (tl k). c \<noteq> CHR ''='' \<and> \<not> isblank c)"

definition wf_value :: "string \<Rightarrow> bool" where
  "wf_value v \<longleftrightarrow> v \<noteq> [] \<and> \<not> isblank (hd v) \<and> hd v \<noteq> LF \<and> hd v \<noteq> CR \<and>
     (\<forall>c \<in> set (tl v). c \<noteq> CHR ''&'' \<and> \<not> isblank c)"

definition wf_protocol :: "string \<Rightarrow> bool" where
  "wf_protocol q \<longleftrightarrow> q \<noteq> [] \<and> \<not> isblank (hd q) \<and> (\<forall>c \<in> set (tl q). c \<noteq> CHR ''/'')"

fun version_rest :: "string \<Rightarrow> bool" where
  "version_rest [] = True"
| "version_rest [c] = isdigit c"
| "version_rest (c # d # cs) =
     (if c = CHR ''.'' then isdigit d \<and> version_rest cs else isdigit c \<and> version_rest (d # cs))"

definition wf_version :: "string \<Rightarrow> bool" where
  "wf_version v \<longleftrightarrow> v \<noteq> [] \<and> isdigit (hd v) \<and> version_rest (tl v)"

definition wf_header_key :: "string \<Rightarrow> bool" where
  "wf_header_key k \<longleftrightarrow> k \<noteq> [] \<and> hd k \<noteq> CR \<and> \<not> isblank (hd k) \<and>
     (\<forall>c \<in> set (tl k). c \<noteq> CHR '':'' \<and> \<not> isblank c)"

definition wf_header_value :: "string \<Rightarrow> bool" where
  "wf_header_value v \<longleftrightarrow> v \<noteq> [] \<and> \<not> isblank (hd v) \<and> (\<forall>c \<in> set (tl v). c \<noteq> CR)"

definition wf_msg :: "http_msg \<Rightarrow> bool" where
  "wf_msg q \<longleftrightarrow> wf_method (q_method q) \<and> wf_url (q_url q) \<and>
     (\<forall>(k, v) \<in> set (q_params q). wf_key k \<and> wf_value v) \<and>
     wf_protocol (q_protocol q) \<and> wf_version (q_version q) \<and>
     (\<forall>(k, v) \<in> set (q_headers q). wf_header_key k \<and> wf_header_value v)"

section \<open>Following the parser\<close>

abbreviation move :: "nat \<Rightarrow> parse \<Rightarrow> parse" where
  "move n s \<equiv> s\<lparr>req := (req s)\<lparr>m_iNextPos := p_pos s + n\<rparr>\<rparr>"

abbreviation live :: "HttpRequestDecodeState \<Rightarrow> bool" where
  "live st \<equiv> \<not> invalid_state st \<and> st \<noteq> COMPLETE"

lemma parse_once:
  assumes "live (p_state s)" and "at buf (p_pos s) [c]" and "p_pos s < sz"
    and "parse_switch buf sz c (p_pos s) (move 1 s) = Inr s'"
  shows "parse_loop buf sz s = parse_loop buf sz s'"
proof (rule pl.loop_step)
  show "parse_running sz s" using assms by (simp add: parse_running_def)
  show "parse_step buf sz s = Inr s'"
    using assms by (simp add: parse_step_def at_Cons)
qed

definition stays :: "char list \<Rightarrow> nat \<Rightarrow> HttpRequestDecodeState \<Rightarrow> char \<Rightarrow> bool" where
  "stays buf sz st c \<longleftrightarrow> (\<forall>p s. p_state s = st \<longrightarrow> parse_switch buf sz c p s = Inr s)"

lemma parse_scan:
  assumes "live (p_state s)" and "at buf (p_pos s) w" and "p_pos s + length w \<le> sz"
    and "\<forall>c \<in> set w. stays buf sz (p_state s) c"
  shows "parse_loop buf sz s = parse_loop buf sz (move (length w) s)"
  using assms
proof (induction w arbitrary: s)
  case Nil
  then show ?case by simp
next
  case (Cons c w)
  from Cons.prems have "parse_switch buf sz c (p_pos s) (move 1 s) = Inr (move 1 s)"
    by (simp add: stays_def)
  with Cons.prems have "parse_loop buf sz s = parse_loop buf sz (move 1 s)"
    by (intro parse_once) (simp_all add: at_Cons)
  also have "\<dots> = parse_loop buf sz (move (length w) (move 1 s))"
    using Cons.prems by (intro Cons.IH) (simp_all add: at_Cons)
  finally show ?case by (simp add: add.commute)
qed

text \<open>
  \<open>goes buf sz s r\<close>: the run from \<open>s\<close> continues as from some state with the object \<open>r\<close>. The
  local variables are left open: at a token boundary no later token reads them.
\<close>

definition goes :: "char list \<Rightarrow> nat \<Rightarrow> parse \<Rightarrow> SHttpRequest \<Rightarrow> bool" where
  "goes buf sz s r \<longleftrightarrow> (\<exists>s'. req s' = r \<and> parse_loop buf sz s = parse_loop buf sz s')"

lemma goes_refl: "goes buf sz s (req s)"
  by (auto simp: goes_def)

lemma goesI: "parse_loop buf sz s = parse_loop buf sz s' \<Longrightarrow> req s' = r \<Longrightarrow> goes buf sz s r"
  by (auto simp: goes_def)

lemma goes_trans:
  "goes buf sz s r \<Longrightarrow> (\<And>s'. req s' = r \<Longrightarrow> goes buf sz s' r') \<Longrightarrow> goes buf sz s r'"
  unfolding goes_def by metis

lemma stays_simps:
  "isupper c \<Longrightarrow> stays buf sz METHOD c"
  "c \<noteq> CHR ''?'' \<Longrightarrow> \<not> isblank c \<Longrightarrow> stays buf sz IN_URI c"
  "c \<noteq> CHR ''='' \<Longrightarrow> \<not> isblank c \<Longrightarrow> stays buf sz URI_PARAM_KEY c"
  "c \<noteq> CHR ''&'' \<Longrightarrow> \<not> isblank c \<Longrightarrow> stays buf sz URI_PARAM_VALUE c"
  "c \<noteq> CHR ''/'' \<Longrightarrow> stays buf sz PROTOCOL c"
  "isdigit c \<Longrightarrow> stays buf sz VERSION c"
  "c \<noteq> CHR '':'' \<Longrightarrow> \<not> isblank c \<Longrightarrow> stays buf sz HEADER_KEY c"
  "c \<noteq> CR \<Longrightarrow> stays buf sz HEADER_VALUE c"
  "isblank c \<Longrightarrow> stays buf sz HEADER_AFTER_COLON c"
  by (auto simp: stays_def parse_switch_def on_defs isdigit_not_special)

lemma live_simps [simp]:
  "live START" "live METHOD" "live BEFORE_URI" "live IN_URI" "live BEFORE_URI_PARAM_KEY"
  "live URI_PARAM_KEY" "live BEFORE_URI_PARAM_VALUE" "live URI_PARAM_VALUE"
  "live BEFORE_PROTOCOL" "live PROTOCOL" "live BEFORE_VERSION" "live VERSION_SPLIT"
  "live VERSION" "live HEADER_KEY" "live HEADER_BEFORE_COLON" "live HEADER_AFTER_COLON"
  "live HEADER_VALUE" "live WHEN_CR" "live CR_LF" "live CR_LF_CR" "live BODY"
  by (simp_all add: invalid_state_def)

text \<open>
  A token \<open>c # w\<close>: the char \<open>c\<close> opens it (the state goes from \<open>st\<close> to \<open>st'\<close> and the step does
  \<open>f\<close>), the chars of \<open>w\<close> stay in \<open>st'\<close>.
\<close>

lemma parse_token:
  assumes "live (p_state s)" and "at buf (p_pos s) w" and "w \<noteq> []"
    and "p_pos s + length w \<le> sz"
    and open_step: "parse_switch buf sz (hd w) (p_pos s) (move 1 s) = Inr s1"
    and "live (p_state s1)"
    and "\<forall>c \<in> set (tl w). stays buf sz (p_state s1) c"
  shows "parse_loop buf sz s = parse_loop buf sz (s1\<lparr>req := (req s1)\<lparr>m_iNextPos := p_pos s + length w\<rparr>\<rparr>)"
proof -
  obtain c v where w: "w = c # v" using \<open>w \<noteq> []\<close> by (cases w) auto
  have pos: "p_pos s1 = Suc (p_pos s)" using parse_switch_pos [OF open_step] by simp
  have "parse_loop buf sz s = parse_loop buf sz s1"
    using assms w by (intro parse_once) (simp_all add: at_Cons)
  also have "\<dots> = parse_loop buf sz (move (length v) s1)"
    using assms w pos by (intro parse_scan) (simp_all add: at_Cons)
  finally show ?thesis using w pos by simp
qed

lemma parse_token_end:
  assumes "live (p_state s)" and w: "at buf (p_pos s) (w @ [b])" and "w \<noteq> []"
    and "p_pos s + length w < sz"
    and open_step: "parse_switch buf sz (hd w) (p_pos s) (move 1 s) = Inr s1"
    and "live (p_state s1)"
    and "\<forall>c \<in> set (tl w). stays buf sz (p_state s1) c"
    and close_step: "parse_switch buf sz b (p_pos s + length w)
      (s1\<lparr>req := (req s1)\<lparr>m_iNextPos := Suc (p_pos s + length w)\<rparr>\<rparr>) = Inr s2"
  shows "parse_loop buf sz s = parse_loop buf sz s2"
proof -
  have "at buf (p_pos s) w" and b: "at buf (p_pos s + length w) [b]"
    using w by (simp_all add: at_append)
  then have "parse_loop buf sz s =
      parse_loop buf sz (s1\<lparr>req := (req s1)\<lparr>m_iNextPos := p_pos s + length w\<rparr>\<rparr>)"
    using assms by (intro parse_token) simp_all
  also have "\<dots> = parse_loop buf sz s2"
    using assms b by (intro parse_once) simp_all
  finally show ?thesis .
qed

lemma sb_string_token:
  assumes "at buf p (w @ [b])" and "m_pBegin sb = Some p"
  shows "sb_string buf (end_at (p + length w) sb) = Inr w"
  using assms at_bound [of buf p "w @ [b]"] by (simp add: sb_string_def at_append at_take)

lemma sb_string_token':
  assumes "at buf p (w @ [b])" and "m_pBegin sb = Some p" and "m_pEnd sb = Some (p + length w)"
  shows "sb_string buf sb = Inr w"
  using assms at_bound [of buf p "w @ [b]"] by (simp add: sb_string_def at_append at_take)

lemma go_method:
  assumes "p_state s = START" and "wf_method m" and "at buf (p_pos s) (m @ [b])" and "isblank b"
    and "p_pos s + length m < sz"
  shows "goes buf sz s ((req s)\<lparr>m_strMethod := m, m_eDecodeState := BEFORE_URI,
    m_iNextPos := Suc (p_pos s + length m)\<rparr>)"
proof -
  from assms(2) obtain c w where m: "m = c # w" and "isupper c" "\<forall>c \<in> set w. isupper c"
    by (cases m) (auto simp: wf_method_def)
  then have "isupper (hd m)" "\<not> isblank (hd m)" "hd m \<noteq> CR" "hd m \<noteq> LF" "m \<noteq> []"
    "\<forall>c \<in> set (tl m). stays buf sz METHOD c"
    using isupper_not_blank [of c] isupper_not_line [of c] by (auto intro: stays_simps(1))
  then show ?thesis
    using assms sb_string_token [OF assms(3)] isupper_not_blank [of b]
    by (intro goesI [OF parse_token_end [where w = m and b = b]])
      (auto simp: parse_switch_def on_START_def on_METHOD_def)
qed


definition url_end :: "char \<Rightarrow> HttpRequestDecodeState \<Rightarrow> bool" where
  "url_end b st \<longleftrightarrow> b = CHR ''?'' \<and> st = BEFORE_URI_PARAM_KEY \<or> isblank b \<and> st = BEFORE_PROTOCOL"

lemma on_IN_URI_end: "url_end b st \<Longrightarrow> on_IN_URI buf b p s = end_url buf p st s"
  by (auto simp: url_end_def on_IN_URI_def isblank_def)

lemma go_url:
  assumes "p_state s = BEFORE_URI" and "wf_url u" and "at buf (p_pos s) (u @ [b])"
    and "url_end b st" and "p_pos s + length u < sz"
  shows "goes buf sz s ((req s)\<lparr>m_strUrl := u, m_eDecodeState := st,
    m_iNextPos := Suc (p_pos s + length u)\<rparr>)"
proof -
  from assms(2) have "hd u = CHR ''/''" "u \<noteq> []" "\<forall>c \<in> set (tl u). stays buf sz IN_URI c"
    by (auto simp: wf_url_def stays_simps)
  then show ?thesis
    using assms sb_string_token [OF assms(3)]
    by (intro goesI [OF parse_token_end [where w = u and b = b]])
      (auto simp: parse_switch_def on_BEFORE_URI_def on_IN_URI_end end_url_def)
qed

definition param_end :: "char \<Rightarrow> HttpRequestDecodeState \<Rightarrow> bool" where
  "param_end b st \<longleftrightarrow> b = CHR ''&'' \<and> st = BEFORE_URI_PARAM_KEY \<or> isblank b \<and> st = BEFORE_PROTOCOL"

lemma on_URI_PARAM_VALUE_end: "param_end b st \<Longrightarrow> on_URI_PARAM_VALUE buf b p s = harvest_param buf p st s"
  by (auto simp: param_end_def on_URI_PARAM_VALUE_def isblank_def)

lemma go_param:
  assumes "p_state s = BEFORE_URI_PARAM_KEY" and "wf_key k" and "wf_value v"
    and at: "at buf (p_pos s) (param_text (k, v) @ [b])"
    and "param_end b st" and "p_pos s + length (param_text (k, v)) < sz"
  shows "goes buf sz s ((req s)\<lparr>
    m_mRequestParams := map_insert (m_mRequestParams (req s)) k v, m_eDecodeState := st,
    m_iNextPos := Suc (p_pos s + length (param_text (k, v)))\<rparr>)"
proof -
  let ?p = "p_pos s" and ?q = "Suc (p_pos s + length k)"
  let ?s1 = "goto BEFORE_URI_PARAM_VALUE (s\<lparr>l_requestParamKey := \<lparr>m_pBegin = Some ?p, m_pEnd = Some (?p + length k)\<rparr>,
    req := (req s)\<lparr>m_iNextPos := ?q\<rparr>\<rparr>)"
  have ak: "at buf ?p (k @ [CHR ''=''])" and av: "at buf ?q (v @ [b])"
    using at by (simp_all add: param_text_def at_append at_Cons)
  have lk: "?p + length k < sz" and lv: "?q + length v < sz"
    using assms by (simp_all add: param_text_def)
  from assms(2) have k: "k \<noteq> []" "\<not> isblank (hd k)" "hd k \<noteq> LF" "hd k \<noteq> CR"
      "\<forall>c \<in> set (tl k). stays buf sz URI_PARAM_KEY c"
    by (auto simp: wf_key_def stays_simps)
  from assms(3) have v: "v \<noteq> []" "\<not> isblank (hd v)" "hd v \<noteq> LF" "hd v \<noteq> CR"
      "\<forall>c \<in> set (tl v). stays buf sz URI_PARAM_VALUE c"
    by (auto simp: wf_value_def stays_simps)
  have "parse_loop buf sz s = parse_loop buf sz ?s1"
    using assms(1) ak lk k
    by (intro parse_token_end [where w = k and b = "CHR ''=''"])
      (auto simp: parse_switch_def on_BEFORE_URI_PARAM_KEY_def on_URI_PARAM_KEY_def)
  moreover have "goes buf sz ?s1 ((req s)\<lparr>
    m_mRequestParams := map_insert (m_mRequestParams (req s)) k v, m_eDecodeState := st,
    m_iNextPos := Suc (?q + length v)\<rparr>)"
    using av lv v assms(5) sb_string_token [OF av] sb_string_token' [OF ak]
    by (intro goesI [OF parse_token_end [where w = v and b = b]])
      (auto simp: parse_switch_def on_BEFORE_URI_PARAM_VALUE_def on_URI_PARAM_VALUE_end harvest_param_def)
  ultimately show ?thesis by (simp add: goes_def param_text_def add.assoc)
qed

lemma go_params:
  assumes "ps \<noteq> []" and "p_state s = BEFORE_URI_PARAM_KEY"
    and "\<forall>(k, v) \<in> set ps. wf_key k \<and> wf_value v"
    and "at buf (p_pos s) (params_text ps @ [b])" and "isblank b"
    and "p_pos s + length (params_text ps) < sz"
  shows "goes buf sz s ((req s)\<lparr>
    m_mRequestParams := insert_all (m_mRequestParams (req s)) ps, m_eDecodeState := BEFORE_PROTOCOL,
    m_iNextPos := Suc (p_pos s + length (params_text ps))\<rparr>)"
  using assms
proof (induction ps arbitrary: s rule: params_text.induct)
  case 1
  then show ?case by simp
next
  case (2 kv)
  obtain k v where kv: "kv = (k, v)" by (cases kv)
  from 2 kv have "param_end b BEFORE_PROTOCOL" by (simp add: param_end_def)
  then show ?case using 2 kv go_param [of s k v buf b BEFORE_PROTOCOL sz] by simp
next
  case (3 kv kv' kvs)
  obtain k v where kv: "kv = (k, v)" by (cases kv)
  let ?p = "p_pos s" and ?n = "length (param_text (k, v))"
  have at1: "at buf ?p (param_text (k, v) @ [CHR ''&''])"
    and at2: "at buf (Suc (?p + ?n)) (params_text (kv' # kvs) @ [b])"
    using 3 kv by (simp_all add: at_append at_Cons add.assoc)
  show ?case
  proof (rule goes_trans)
    show "goes buf sz s ((req s)\<lparr>m_mRequestParams := map_insert (m_mRequestParams (req s)) k v,
        m_eDecodeState := BEFORE_URI_PARAM_KEY, m_iNextPos := Suc (?p + ?n)\<rparr>)"
      using 3 kv at1 by (intro go_param) (auto simp: param_end_def)
    fix s' :: parse assume s': "req s' = (req s)\<lparr>m_mRequestParams := map_insert (m_mRequestParams (req s)) k v,
        m_eDecodeState := BEFORE_URI_PARAM_KEY, m_iNextPos := Suc (?p + ?n)\<rparr>"
    have "goes buf sz s' ((req s')\<lparr>
        m_mRequestParams := insert_all (m_mRequestParams (req s')) (kv' # kvs),
        m_eDecodeState := BEFORE_PROTOCOL,
        m_iNextPos := Suc (p_pos s' + length (params_text (kv' # kvs)))\<rparr>)"
      using 3 at2 kv s' by (intro "3.IH") auto
    then show "goes buf sz s' ((req s)\<lparr>
        m_mRequestParams := insert_all (m_mRequestParams (req s)) (kv # kv' # kvs),
        m_eDecodeState := BEFORE_PROTOCOL,
        m_iNextPos := Suc (?p + length (params_text (kv # kv' # kvs)))\<rparr>)"
      using s' kv by (simp add: add.assoc)
  qed
qed

lemma go_protocol:
  assumes "p_state s = BEFORE_PROTOCOL" and "wf_protocol q" and "at buf (p_pos s) (q @ [CHR ''/''])"
    and "p_pos s + length q < sz"
  shows "goes buf sz s ((req s)\<lparr>m_strProtocol := q, m_eDecodeState := BEFORE_VERSION,
    m_iNextPos := Suc (p_pos s + length q)\<rparr>)"
proof -
  from assms(2) have "\<not> isblank (hd q)" "q \<noteq> []" "\<forall>c \<in> set (tl q). stays buf sz PROTOCOL c"
    by (auto simp: wf_protocol_def stays_simps)
  then show ?thesis
    using assms sb_string_token [OF assms(3)]
    by (intro goesI [OF parse_token_end [where w = q and b = "CHR ''/''"]])
      (auto simp: parse_switch_def on_BEFORE_PROTOCOL_def on_PROTOCOL_def)
qed

lemma goto_same: "p_state s = st \<Longrightarrow> goto st s = s"
  by (cases s; cases "req s") auto

lemma version_scan:
  assumes "p_state s = VERSION" and "version_rest w" and "at buf (p_pos s) w"
    and "p_pos s + length w \<le> sz"
  shows "parse_loop buf sz s = parse_loop buf sz (move (length w) s)"
  using assms
proof (induction w arbitrary: s rule: version_rest.induct)
  case 1
  then show ?case by simp
next
  case (2 c)
  then show ?case using parse_scan [of s buf "[c]" sz] by (simp add: stays_simps)
next
  case (3 c d cs)
  show ?case
  proof (cases "c = CHR ''.''")
    case True
    let ?s1 = "goto VERSION_SPLIT (move 1 s)" and ?s2 = "move 2 s"
    have "parse_loop buf sz s = parse_loop buf sz ?s1"
      using 3 True by (intro parse_once) (auto simp: at_Cons parse_switch_def on_VERSION_def)
    also have "\<dots> = parse_loop buf sz (goto VERSION ?s2)"
      using 3 True by (intro parse_once) (auto simp: at_Cons parse_switch_def on_VERSION_SPLIT_def)
    also have "goto VERSION ?s2 = ?s2" using 3 by (intro goto_same) simp
    also have "parse_loop buf sz ?s2 = parse_loop buf sz (move (length cs) ?s2)"
      using 3 True by (intro "3.IH"(1)) (simp_all add: at_Cons)
    finally show ?thesis by (simp add: add.commute add.left_commute)
  next
    case False
    with 3 have "parse_loop buf sz s = parse_loop buf sz (move 1 s)"
      using parse_scan [of s buf "[c]" sz] by (simp add: stays_simps at_Cons)
    also have "\<dots> = parse_loop buf sz (move (length (d # cs)) (move 1 s))"
      using 3 False by (intro "3.IH"(2)) (simp_all add: at_Cons)
    finally show ?thesis by simp
  qed
qed

lemma go_version:
  assumes "p_state s = BEFORE_VERSION" and "wf_version v" and at: "at buf (p_pos s) (v @ [CR, LF])"
    and "p_pos s + length v + 2 \<le> sz"
  shows "goes buf sz s ((req s)\<lparr>m_strVersion := v, m_eDecodeState := CR_LF,
    m_iNextPos := p_pos s + length v + 2\<rparr>)"
proof -
  obtain c w where v: "v = c # w" "isdigit c" "version_rest w"
    using assms(2) by (cases v) (auto simp: wf_version_def)
  let ?s1 = "goto VERSION (move 1 s\<lparr>l_version := begin_at (p_pos s) (l_version s)\<rparr>)"
  let ?s2 = "move (length w) ?s1"
  let ?s3 = "goto WHEN_CR (move 1 ?s2\<lparr>l_version := end_at (p_pos ?s2) (l_version ?s2),
    req := (req (move 1 ?s2))\<lparr>m_strVersion := v\<rparr>\<rparr>)"
  have at': "at buf (p_pos s) (v @ [CR])" using at by (simp add: at_append at_Cons)
  have "parse_loop buf sz s = parse_loop buf sz ?s1"
    using assms v by (intro parse_once) (auto simp: at_append at_Cons parse_switch_def on_BEFORE_VERSION_def)
  also have "\<dots> = parse_loop buf sz ?s2"
    using assms v by (intro version_scan) (auto simp: at_append at_Cons)
  also have "\<dots> = parse_loop buf sz ?s3"
    using assms v sb_string_token [OF at']
    by (intro parse_once) (auto simp: at_append at_Cons parse_switch_def on_VERSION_def Let_def)
  also have "\<dots> = parse_loop buf sz (goto CR_LF (move 1 ?s3))"
    using assms v
    by (intro parse_once) (auto simp: at_append at_Cons parse_switch_def on_WHEN_CR_def)
  finally show ?thesis using v by (intro goesI) auto
qed

lemma go_header:
  assumes "p_state s = CR_LF" and "wf_header_key k" and "wf_header_value v"
    and at: "at buf (p_pos s) (header_text (k, v))"
    and "p_pos s + length (header_text (k, v)) \<le> sz"
  shows "goes buf sz s ((req s)\<lparr>
    m_mHeaders := map_insert (m_mHeaders (req s)) k v, m_eDecodeState := CR_LF,
    m_iNextPos := p_pos s + length (header_text (k, v))\<rparr>)"
proof -
  let ?p = "p_pos s" and ?q = "p_pos s + length k + 2"
  let ?s1 = "goto HEADER_AFTER_COLON (s\<lparr>l_headerKey := \<lparr>m_pBegin = Some ?p, m_pEnd = Some (?p + length k)\<rparr>,
    req := (req s)\<lparr>m_iNextPos := Suc (?p + length k)\<rparr>\<rparr>)"
  let ?s2 = "move 1 ?s1"
  let ?s3 = "goto WHEN_CR (?s2\<lparr>l_headerValue := \<lparr>m_pBegin = Some ?q, m_pEnd = Some (?q + length v)\<rparr>,
    req := (req ?s2)\<lparr>m_mHeaders := map_insert (m_mHeaders (req s)) k v,
      m_iNextPos := Suc (?q + length v)\<rparr>\<rparr>)"
  have ak: "at buf ?p (k @ [CHR '':''])" and ab: "at buf (Suc (?p + length k)) [CHR 0x20]"
    and av: "at buf ?q (v @ [CR])" and al: "at buf (Suc (?q + length v)) [LF]"
    using at by (simp_all add: header_text_def at_append at_Cons)
  have len: "?q + length v + 2 \<le> sz" using assms by (simp add: header_text_def)
  from assms(2) have k: "k \<noteq> []" "\<not> isblank (hd k)" "hd k \<noteq> CR"
      "\<forall>c \<in> set (tl k). stays buf sz HEADER_KEY c"
    by (auto simp: wf_header_key_def stays_simps)
  from assms(3) have v: "v \<noteq> []" "\<not> isblank (hd v)" "\<forall>c \<in> set (tl v). stays buf sz HEADER_VALUE c"
    by (auto simp: wf_header_value_def stays_simps)
  have "parse_loop buf sz s = parse_loop buf sz ?s1"
    using assms(1) ak len k
    by (intro parse_token_end [where w = k and b = "CHR '':''"])
      (auto simp: parse_switch_def on_CR_LF_def on_HEADER_KEY_def isblank_def)
  also have "\<dots> = parse_loop buf sz ?s2"
    using ab len parse_scan [of ?s1 buf "[CHR 0x20]" sz] by (simp add: stays_simps)
  also have "\<dots> = parse_loop buf sz ?s3"
    using av len v sb_string_token [OF av] sb_string_token' [OF ak]
    by (intro parse_token_end [where w = v and b = CR])
      (auto simp: parse_switch_def on_HEADER_AFTER_COLON_def on_HEADER_VALUE_def)
  also have "\<dots> = parse_loop buf sz (goto CR_LF (move 1 ?s3))"
    using al len by (intro parse_once) (auto simp: parse_switch_def on_WHEN_CR_def)
  finally show ?thesis by (intro goesI) (auto simp: header_text_def)
qed

lemma go_headers:
  assumes "p_state s = CR_LF" and "\<forall>(k, v) \<in> set hs. wf_header_key k \<and> wf_header_value v"
    and "at buf (p_pos s) (concat (map header_text hs))"
    and "p_pos s + length (concat (map header_text hs)) \<le> sz"
  shows "goes buf sz s ((req s)\<lparr>
    m_mHeaders := insert_all (m_mHeaders (req s)) hs, m_eDecodeState := CR_LF,
    m_iNextPos := p_pos s + length (concat (map header_text hs))\<rparr>)"
  using assms
proof (induction hs arbitrary: s)
  case Nil
  then have "(req s)\<lparr>m_mHeaders := insert_all (m_mHeaders (req s)) [], m_eDecodeState := CR_LF,
      m_iNextPos := p_pos s + length (concat (map header_text []))\<rparr> = req s"
    by (cases "req s") simp
  then show ?case by (metis goes_refl)
next
  case (Cons kv hs)
  obtain k v where kv: "kv = (k, v)" by (cases kv)
  let ?r = "(req s)\<lparr>m_mHeaders := map_insert (m_mHeaders (req s)) k v, m_eDecodeState := CR_LF,
    m_iNextPos := p_pos s + length (header_text (k, v))\<rparr>"
  show ?case
  proof (rule goes_trans)
    show "goes buf sz s ?r"
      using Cons.prems kv by (intro go_header) (auto simp: at_append)
    fix s' :: parse assume s': "req s' = ?r"
    have "goes buf sz s' ((req s')\<lparr>m_mHeaders := insert_all (m_mHeaders (req s')) hs,
        m_eDecodeState := CR_LF, m_iNextPos := p_pos s' + length (concat (map header_text hs))\<rparr>)"
      using Cons.prems kv s' by (intro Cons.IH) (auto simp: at_append)
    then show "goes buf sz s' ((req s)\<lparr>m_mHeaders := insert_all (m_mHeaders (req s)) (kv # hs),
        m_eDecodeState := CR_LF, m_iNextPos := p_pos s + length (concat (map header_text (kv # hs)))\<rparr>)"
      using s' kv by (simp add: add.assoc)
  qed
qed

text \<open>The object after the header of \<open>q\<close> has been read into \<open>r\<close>.\<close>

definition fields_of :: "http_msg \<Rightarrow> SHttpRequest \<Rightarrow> SHttpRequest" where
  "fields_of q r = r\<lparr>m_strMethod := q_method q, m_strUrl := q_url q,
     m_mRequestParams := map_of (q_params q), m_strProtocol := q_protocol q,
     m_strVersion := q_version q, m_mHeaders := map_of (q_headers q)\<rparr>"

lemma insert_all_empty: "insert_all Map.empty kvs = map_of kvs"
  by (simp add: insert_all_map_of)

lemma go_uri:
  assumes "p_state s = BEFORE_URI" and "wf_url (q_url q)"
    and ps: "\<forall>(k, v) \<in> set (q_params q). wf_key k \<and> wf_value v"
    and at: "at buf (p_pos s) (uri_text q @ [b])" and "isblank b"
    and "p_pos s + length (uri_text q) < sz"
  shows "goes buf sz s ((req s)\<lparr>m_strUrl := q_url q,
    m_mRequestParams := insert_all (m_mRequestParams (req s)) (q_params q),
    m_eDecodeState := BEFORE_PROTOCOL, m_iNextPos := Suc (p_pos s + length (uri_text q))\<rparr>)"
proof (cases "q_params q = []")
  case True
  then have "(req s)\<lparr>m_strUrl := q_url q,
    m_mRequestParams := insert_all (m_mRequestParams (req s)) (q_params q),
    m_eDecodeState := BEFORE_PROTOCOL, m_iNextPos := Suc (p_pos s + length (uri_text q))\<rparr> =
    (req s)\<lparr>m_strUrl := q_url q, m_eDecodeState := BEFORE_PROTOCOL,
      m_iNextPos := Suc (p_pos s + length (q_url q))\<rparr>"
    by (cases "req s") (simp add: uri_text_def)
  then show ?thesis using True assms by (auto intro!: go_url simp: uri_text_def url_end_def)
next
  case False
  let ?r = "(req s)\<lparr>m_strUrl := q_url q, m_eDecodeState := BEFORE_URI_PARAM_KEY,
    m_iNextPos := Suc (p_pos s + length (q_url q))\<rparr>"
  have au: "at buf (p_pos s) (q_url q @ [CHR ''?''])"
    and ap: "at buf (Suc (p_pos s + length (q_url q))) (params_text (q_params q) @ [b])"
    using at False by (simp_all add: uri_text_def at_append at_Cons add.assoc)
  show ?thesis
  proof (rule goes_trans)
    show "goes buf sz s ?r"
      using assms False au by (intro go_url) (auto simp: url_end_def uri_text_def)
    fix s' :: parse assume s': "req s' = ?r"
    have "goes buf sz s' ((req s')\<lparr>
      m_mRequestParams := insert_all (m_mRequestParams (req s')) (q_params q),
      m_eDecodeState := BEFORE_PROTOCOL,
      m_iNextPos := Suc (p_pos s' + length (params_text (q_params q)))\<rparr>)"
      using assms False ap s' by (intro go_params) (auto simp: uri_text_def)
    then show "goes buf sz s' ((req s)\<lparr>m_strUrl := q_url q,
      m_mRequestParams := insert_all (m_mRequestParams (req s)) (q_params q),
      m_eDecodeState := BEFORE_PROTOCOL, m_iNextPos := Suc (p_pos s + length (uri_text q))\<rparr>)"
      using s' False by (simp add: uri_text_def add.assoc)
  qed
qed

definition line_text :: "http_msg \<Rightarrow> string" where
  "line_text q = q_method q @ CHR 0x20 # uri_text q @ CHR 0x20 # q_protocol q @ CHR ''/'' #
     q_version q @ [CR, LF]"

lemma render_head_line:
  "render_head q = line_text q @ concat (map header_text (q_headers q)) @ [CR, LF]"
  by (simp add: render_head_def line_text_def)

lemma go_line:
  assumes "p_state s = START" and wf: "wf_msg q" and at: "at buf (p_pos s) (line_text q)"
    and len: "p_pos s + length (line_text q) \<le> sz"
  shows "goes buf sz s ((req s)\<lparr>m_strMethod := q_method q, m_strUrl := q_url q,
    m_mRequestParams := insert_all (m_mRequestParams (req s)) (q_params q),
    m_strProtocol := q_protocol q, m_strVersion := q_version q, m_eDecodeState := CR_LF,
    m_iNextPos := p_pos s + length (line_text q)\<rparr>)"
proof -
  let ?p1 = "Suc (p_pos s + length (q_method q))"
  let ?p2 = "Suc (?p1 + length (uri_text q))"
  let ?p3 = "Suc (?p2 + length (q_protocol q))"
  let ?p4 = "?p3 + length (q_version q) + 2"
  have am: "at buf (p_pos s) (q_method q @ [CHR 0x20])"
    and au: "at buf ?p1 (uri_text q @ [CHR 0x20])"
    and ap: "at buf ?p2 (q_protocol q @ [CHR ''/''])"
    and av: "at buf ?p3 (q_version q @ [CR, LF])"
    using at by (simp_all add: line_text_def at_append at_Cons add.assoc)
  have p4: "?p4 = p_pos s + length (line_text q)" by (simp add: line_text_def)
  note w = wf [unfolded wf_msg_def]
  have 1: "goes buf sz s ((req s)\<lparr>m_strMethod := q_method q, m_eDecodeState := BEFORE_URI,
      m_iNextPos := ?p1\<rparr>)"
    using assms(1) w am len p4 by (intro go_method) auto
  have 2: "goes buf sz s' ((req s')\<lparr>m_strUrl := q_url q,
      m_mRequestParams := insert_all (m_mRequestParams (req s')) (q_params q),
      m_eDecodeState := BEFORE_PROTOCOL, m_iNextPos := ?p2\<rparr>)"
    if "p_state s' = BEFORE_URI" "p_pos s' = ?p1" for s'
    using that w au len p4 go_uri [of s' q buf "CHR 0x20" sz] by auto
  have 3: "goes buf sz s' ((req s')\<lparr>m_strProtocol := q_protocol q,
      m_eDecodeState := BEFORE_VERSION, m_iNextPos := ?p3\<rparr>)"
    if "p_state s' = BEFORE_PROTOCOL" "p_pos s' = ?p2" for s'
    using that w ap len p4 go_protocol [of s' "q_protocol q" buf sz] by auto
  have 4: "goes buf sz s' ((req s')\<lparr>m_strVersion := q_version q, m_eDecodeState := CR_LF,
      m_iNextPos := ?p4\<rparr>)"
    if "p_state s' = BEFORE_VERSION" "p_pos s' = ?p3" for s'
    using that w av len p4 go_version [of s' "q_version q" buf sz] by auto
  have "goes buf sz s ((req s)\<lparr>m_strMethod := q_method q, m_strUrl := q_url q,
      m_mRequestParams := insert_all (m_mRequestParams (req s)) (q_params q),
      m_strProtocol := q_protocol q, m_strVersion := q_version q, m_eDecodeState := CR_LF,
      m_iNextPos := ?p4\<rparr>)"
    apply (rule goes_trans [OF 1])
    apply (rule goes_trans [OF 2], simp, simp)
    apply (rule goes_trans [OF 3], simp, simp)
    subgoal for s1 s2 s3 using 4 [of s3] by simp
    done
  then show ?thesis by (simp only: p4)
qed

lemma go_head:
  assumes "wf_msg q" and "at buf 0 (render_head q)" and "length (render_head q) \<le> sz"
  shows "goes buf sz (parse_locals (SHttpRequest_Init r)) ((fields_of q (SHttpRequest_Init r))\<lparr>
    m_eDecodeState := CR_LF_CR, m_iNextPos := length (render_head q) - 1\<rparr>)"
proof -
  let ?s = "parse_locals (SHttpRequest_Init r)" and ?hs = "concat (map header_text (q_headers q))"
  let ?p1 = "length (line_text q)" let ?p2 = "?p1 + length ?hs"
  have al: "at buf 0 (line_text q)" and ah: "at buf ?p1 ?hs" and ac: "at buf ?p2 [CR]"
    using assms(2) by (simp_all add: render_head_line at_append at_Cons)
  have len: "?p2 + 2 = length (render_head q)" by (simp add: render_head_line)
  have 1: "goes buf sz ?s ((req ?s)\<lparr>m_strMethod := q_method q, m_strUrl := q_url q,
      m_mRequestParams := map_of (q_params q), m_strProtocol := q_protocol q,
      m_strVersion := q_version q, m_eDecodeState := CR_LF, m_iNextPos := ?p1\<rparr>)"
    using go_line [of ?s q buf sz] assms al len
    by (simp add: parse_locals_def SHttpRequest_Init_def insert_all_empty)
  have 2: "goes buf sz s' ((req s')\<lparr>m_mHeaders := insert_all (m_mHeaders (req s')) (q_headers q),
      m_eDecodeState := CR_LF, m_iNextPos := ?p2\<rparr>)"
    if "p_state s' = CR_LF" "p_pos s' = ?p1" for s'
    using that assms ah len go_headers [of s' "q_headers q" buf sz] by (auto simp: wf_msg_def)
  have 3: "goes buf sz s' ((req s')\<lparr>m_eDecodeState := CR_LF_CR, m_iNextPos := Suc ?p2\<rparr>)"
    if "p_state s' = CR_LF" "p_pos s' = ?p2" for s'
  proof -
    have "parse_loop buf sz s' = parse_loop buf sz (goto CR_LF_CR (move 1 s'))"
      using that ac len assms by (intro parse_once) (auto simp: parse_switch_def on_CR_LF_def)
    then show ?thesis using that by (intro goesI) auto
  qed
  have "goes buf sz ?s ((fields_of q (SHttpRequest_Init r))\<lparr>
    m_eDecodeState := CR_LF_CR, m_iNextPos := Suc ?p2\<rparr>)"
    apply (rule goes_trans [OF 1])
    apply (rule goes_trans [OF 2], simp, simp)
    subgoal for s1 s2 using 3 [of s2]
      by (simp add: parse_locals_def SHttpRequest_Init_def insert_all_empty fields_of_def)
    done
  moreover have "Suc ?p2 = length (render_head q) - 1" using len by simp
  ultimately show ?thesis by (simp only:)
qed

end
