(* ===== verification/Http_Parse.thy ===== *)
theory Http_Parse
  imports Http_Grammar
begin

text \<open>
  What \<open>ParseInternal\<close> computes on a well-formed message, for each of its ways to end: the
  header alone, a body with \<open>Content-Length\<close>, and a body without.
\<close>

section \<open>The end of the header\<close>

lemma parse_message:
  assumes "wf_msg q" and "length (render_head q) \<le> sz"
  obtains s where "req s = (fields_of q (SHttpRequest_Init r))\<lparr>
      m_eDecodeState := CR_LF_CR, m_iNextPos := length (render_head q) - 1\<rparr>"
    and "ParseInternal (render_head q @ rest) sz (SHttpRequest_Init r) =
      bind_res (parse_loop (render_head q @ rest) sz s) (\<lambda>s. Inr (req s))"
proof -
  have "goes (render_head q @ rest) sz (parse_locals (SHttpRequest_Init r))
      ((fields_of q (SHttpRequest_Init r))\<lparr>
        m_eDecodeState := CR_LF_CR, m_iNextPos := length (render_head q) - 1\<rparr>)"
    using assms(1) at_0_self assms(2) by (rule go_head)
  then obtain s where s: "req s = (fields_of q (SHttpRequest_Init r))\<lparr>
      m_eDecodeState := CR_LF_CR, m_iNextPos := length (render_head q) - 1\<rparr>"
    and run: "parse_loop (render_head q @ rest) sz (parse_locals (SHttpRequest_Init r)) =
      parse_loop (render_head q @ rest) sz s"
    unfolding goes_def by blast
  show ?thesis by (rule that [OF s]) (simp only: ParseInternal_def run)
qed

lemma render_head_ends: "render_head q \<noteq> []" "render_head q ! (length (render_head q) - 1) = LF"
  by (simp_all add: render_head_line nth_append)

lemma head_length: "0 < length (render_head q)"
  using render_head_ends(1) by simp

lemma head_positions [simp]:
  "Suc (length (render_head q) - Suc 0) = length (render_head q)"
  "length (render_head q) \<le> sz \<Longrightarrow> length (render_head q) - Suc 0 < sz"
proof -
  show "Suc (length (render_head q) - Suc 0) = length (render_head q)"
    using head_length [of q] by linarith
  show "length (render_head q) \<le> sz \<Longrightarrow> length (render_head q) - Suc 0 < sz"
    using head_length [of q] by linarith
qed

text \<open>The last char of the header: one step of \<open>CR_LF_CR\<close>.\<close>

lemma head_last:
  assumes "req s = (fields_of q (SHttpRequest_Init r))\<lparr>
      m_eDecodeState := CR_LF_CR, m_iNextPos := length (render_head q) - 1\<rparr>"
    and "length (render_head q) \<le> sz"
    and "on_CR_LF_CR sz LF (length (render_head q) - 1) (move 1 s) = Inr s'"
  shows "parse_loop (render_head q @ rest) sz s = parse_loop (render_head q @ rest) sz s'"
proof (rule parse_once [where c = LF])
  have "length (render_head q) - 1 < length (render_head q)" using head_length by simp
  then show "at (render_head q @ rest) (p_pos s) [LF]"
    using assms(1) render_head_ends(2) [of q] by (simp add: at_Cons nth_append)
  show "p_pos s < sz" using assms(1,2) by simp
  show "parse_switch (render_head q @ rest) sz LF (p_pos s) (move 1 s) = Inr s'"
    using assms by (simp add: parse_switch_def)
qed (use assms in \<open>simp\<close>)

lemma fields_of_frame [simp]:
  "m_mHeaders (fields_of q r) = map_of (q_headers q)" "m_strBody (fields_of q r) = m_strBody r"
  by (simp_all add: fields_of_def)

lemma parse_head_no_length:
  assumes "wf_msg q" and "map_of (q_headers q) ''Content-Length'' = None"
    and "length (render_head q) \<le> sz"
  obtains s where "req s = (fields_of q (SHttpRequest_Init r))\<lparr>
      m_eDecodeState := BODY, m_iNextPos := length (render_head q)\<rparr>"
    and "l_bodyLength s = int sz - int (length (render_head q) - 1)"
    and "ParseInternal (render_head q @ rest) sz (SHttpRequest_Init r) =
      bind_res (parse_loop (render_head q @ rest) sz s) (\<lambda>s. Inr (req s))"
proof -
  obtain s where s: "req s = (fields_of q (SHttpRequest_Init r))\<lparr>
      m_eDecodeState := CR_LF_CR, m_iNextPos := length (render_head q) - 1\<rparr>"
    and run: "ParseInternal (render_head q @ rest) sz (SHttpRequest_Init r) =
      bind_res (parse_loop (render_head q @ rest) sz s) (\<lambda>s. Inr (req s))"
    using parse_message [OF assms(1,3)] by blast
  let ?s' = "goto BODY (move 1 s\<lparr>l_bodyLength := int sz - int (length (render_head q) - 1)\<rparr>)"
  have "parse_loop (render_head q @ rest) sz s = parse_loop (render_head q @ rest) sz ?s'"
    using assms s
    by (intro head_last [OF s assms(3)]) (simp add: on_CR_LF_CR_def)
  then show ?thesis using that [of ?s'] run s by simp
qed

lemma parse_head_length:
  assumes "wf_msg q" and "map_of (q_headers q) ''Content-Length'' = Some v" and "atoi v = Some n"
    and "length (render_head q) \<le> sz"
  obtains s where "req s = (fields_of q (SHttpRequest_Init r))\<lparr>
      m_eDecodeState := (if 0 < n then BODY else COMPLETE), m_iNextPos := length (render_head q)\<rparr>"
    and "l_bodyLength s = n"
    and "ParseInternal (render_head q @ rest) sz (SHttpRequest_Init r) =
      bind_res (parse_loop (render_head q @ rest) sz s) (\<lambda>s. Inr (req s))"
proof -
  obtain s where s: "req s = (fields_of q (SHttpRequest_Init r))\<lparr>
      m_eDecodeState := CR_LF_CR, m_iNextPos := length (render_head q) - 1\<rparr>"
    and run: "ParseInternal (render_head q @ rest) sz (SHttpRequest_Init r) =
      bind_res (parse_loop (render_head q @ rest) sz s) (\<lambda>s. Inr (req s))"
    using parse_message [OF assms(1,4)] by blast
  let ?s' = "goto (if 0 < n then BODY else COMPLETE) (move 1 s\<lparr>l_bodyLength := n\<rparr>)"
  have "parse_loop (render_head q @ rest) sz s = parse_loop (render_head q @ rest) sz ?s'"
    using assms s
    by (intro head_last [OF s assms(4)]) (simp add: on_CR_LF_CR_def)
  then show ?thesis using that [of ?s'] run s by simp
qed

text \<open>The one step of the state \<open>BODY\<close>, and its fault.\<close>

lemma body_step:
  assumes "p_state s = BODY" and "p_pos s < sz" and "p_pos s < length buf"
    and "0 \<le> l_bodyLength s" and "int (p_pos s) + l_bodyLength s \<le> int (length buf)"
  shows "parse_loop buf sz s = Inr (goto COMPLETE (move 1 s\<lparr>req := (req (move 1 s))\<lparr>m_strBody :=
    take (nat (l_bodyLength s)) (drop (p_pos s) buf)\<rparr>\<rparr>))"
proof -
  let ?s' = "goto COMPLETE (move 1 s\<lparr>req := (req (move 1 s))\<lparr>m_strBody :=
    take (nat (l_bodyLength s)) (drop (p_pos s) buf)\<rparr>\<rparr>)"
  have "parse_loop buf sz s = parse_loop buf sz ?s'"
    using assms by (intro parse_once) (auto simp: at_Cons parse_switch_def on_BODY_def)
  also have "\<dots> = Inr ?s'" by (rule pl.loop_stop) (simp add: parse_running_def)
  finally show ?thesis .
qed

lemma body_fault:
  assumes "p_state s = BODY" and "p_pos s < sz" and "p_pos s < length buf"
    and "int (length buf) < int (p_pos s) + l_bodyLength s"
  shows "parse_loop buf sz s = Inl OutOfBounds"
  using assms
  by (intro pl.loop_fault)
    (auto simp: parse_running_def parse_step_def Let_def parse_switch_def on_BODY_def)

section \<open>Properties\<close>

text \<open>
  C2: round trip. The text of any well-formed message without a \<open>Content-Length\<close> header,
  received alone, is parsed into exactly its method, path, parameters, protocol, version and
  headers (the first of two equal keys wins); the parser stops in \<open>BODY\<close> at the end of the data.
\<close>

theorem parse_roundtrip:
  assumes "wf_msg q" and "map_of (q_headers q) ''Content-Length'' = None"
  shows "ParseInternal (render_head q @ rest) (length (render_head q)) (SHttpRequest_Init r) =
    Inr ((fields_of q (SHttpRequest_Init r))\<lparr>
      m_eDecodeState := BODY, m_iNextPos := length (render_head q)\<rparr>)"
proof -
  let ?sz = "length (render_head q)"
  obtain s where s: "req s = (fields_of q (SHttpRequest_Init r))\<lparr>
      m_eDecodeState := BODY, m_iNextPos := ?sz\<rparr>"
    and run: "ParseInternal (render_head q @ rest) ?sz (SHttpRequest_Init r) =
      bind_res (parse_loop (render_head q @ rest) ?sz s) (\<lambda>s. Inr (req s))"
    using parse_head_no_length [OF assms order_refl] by metis
  have "parse_loop (render_head q @ rest) ?sz s = Inr s"
    using s by (intro pl.loop_stop) (simp add: parse_running_def)
  with s run show ?thesis by simp
qed

definition example_get :: http_msg where
  "example_get = \<lparr>q_method = ''GET'', q_url = ''/a'', q_params = [(''x'', ''1''), (''y'', ''2'')],
     q_protocol = ''HTTP'', q_version = ''1.1'', q_headers = [(''Host'', ''h'')]\<rparr>"

definition blank_request :: SHttpRequest where
  "blank_request = \<lparr>m_strMethod = [], m_strUrl = [], m_mRequestParams = Map.empty,
     m_strProtocol = [], m_strVersion = [], m_mHeaders = Map.empty, m_strBody = [],
     m_iNextPos = 0, m_bIsOpen = False, m_eDecodeState = START\<rparr>"

lemmas wf_defs = wf_msg_def wf_method_def wf_url_def wf_key_def wf_value_def wf_protocol_def
  wf_version_def wf_header_key_def wf_header_value_def isupper_def isblank_def isdigit_def

lemma example_get_wf: "wf_msg example_get"
  by (simp add: example_get_def wf_defs)

lemma parse_roundtrip_witness:
  "wf_msg example_get \<and> map_of (q_headers example_get) ''Content-Length'' = None \<and>
   ParseInternal (render_head example_get @ ''rest'') (length (render_head example_get))
     (SHttpRequest_Init blank_request) =
   Inr ((fields_of example_get (SHttpRequest_Init blank_request))\<lparr>
     m_eDecodeState := BODY, m_iNextPos := length (render_head example_get)\<rparr>)"
proof -
  have "map_of (q_headers example_get) ''Content-Length'' = None" by (simp add: example_get_def)
  then show ?thesis using example_get_wf parse_roundtrip [OF example_get_wf] by simp
qed

text \<open>
  C30: a body announced by \<open>Content-Length\<close>. With at least one char of it received the parser
  completes and the body is the announced number of chars of the receive buffer; only the first
  of them is counted in \<open>m_iNextPos\<close>. How many chars were received (\<open>k\<close>) does not matter.
\<close>

theorem parse_body_with_length:
  assumes "wf_msg q" and "map_of (q_headers q) ''Content-Length'' = Some v"
    and "atoi v = Some (int (length body))" and "body \<noteq> []" and "0 < k"
  shows "ParseInternal (render_head q @ body @ rest) (length (render_head q) + k) (SHttpRequest_Init r) =
    Inr ((fields_of q (SHttpRequest_Init r))\<lparr>m_strBody := body,
      m_eDecodeState := COMPLETE, m_iNextPos := Suc (length (render_head q))\<rparr>)"
proof -
  let ?sz = "length (render_head q) + k"
  obtain s where s: "req s = (fields_of q (SHttpRequest_Init r))\<lparr>
      m_eDecodeState := BODY, m_iNextPos := length (render_head q)\<rparr>"
    and len: "l_bodyLength s = int (length body)"
    and run: "ParseInternal (render_head q @ body @ rest) ?sz (SHttpRequest_Init r) =
      bind_res (parse_loop (render_head q @ body @ rest) ?sz s) (\<lambda>s. Inr (req s))"
    using parse_head_length [OF assms(1-3), of ?sz r "body @ rest"] assms(4) by auto
  then show ?thesis using assms(4,5) by (simp add: body_step)
qed

definition example_post :: http_msg where
  "example_post = \<lparr>q_method = ''POST'', q_url = ''/a'', q_params = [],
     q_protocol = ''HTTP'', q_version = ''1.1'', q_headers = [(''Content-Length'', ''3'')]\<rparr>"

lemma example_post_wf: "wf_msg example_post"
  by (simp add: example_post_def wf_defs)

lemma example_post_length:
  "map_of (q_headers example_post) ''Content-Length'' = Some ''3''" "atoi ''3'' = Some 3"
  by (simp add: example_post_def) code_simp

lemma parse_body_with_length_witness:
  "ParseInternal (render_head example_post @ ''abc'' @ ''rest'')
     (length (render_head example_post) + 1) (SHttpRequest_Init blank_request) =
   Inr ((fields_of example_post (SHttpRequest_Init blank_request))\<lparr>m_strBody := ''abc'',
      m_eDecodeState := COMPLETE, m_iNextPos := Suc (length (render_head example_post))\<rparr>)"
  by (rule parse_body_with_length [OF example_post_wf example_post_length(1)])
    (simp_all add: example_post_length(2))

text \<open>
  A \<open>Content-Length\<close> of zero or less completes the request at the end of the header, with an
  empty body, so that \<open>m_iNextPos\<close> is the end of the received header.
\<close>

theorem parse_zero_length:
  assumes "wf_msg q" and "map_of (q_headers q) ''Content-Length'' = Some v"
    and "atoi v = Some n" and "n \<le> 0"
  shows "ParseInternal (render_head q @ rest) (length (render_head q) + k) (SHttpRequest_Init r) =
    Inr ((fields_of q (SHttpRequest_Init r))\<lparr>
      m_eDecodeState := COMPLETE, m_iNextPos := length (render_head q)\<rparr>)"
proof -
  let ?sz = "length (render_head q) + k"
  obtain s where s: "req s = (fields_of q (SHttpRequest_Init r))\<lparr>
      m_eDecodeState := COMPLETE, m_iNextPos := length (render_head q)\<rparr>"
    and run: "ParseInternal (render_head q @ rest) ?sz (SHttpRequest_Init r) =
      bind_res (parse_loop (render_head q @ rest) ?sz s) (\<lambda>s. Inr (req s))"
    using parse_head_length [OF assms(1-3), of ?sz r rest] assms(4) by auto
  have "parse_loop (render_head q @ rest) ?sz s = Inr s"
    using s by (intro pl.loop_stop) (simp add: parse_running_def)
  with s run show ?thesis by simp
qed

definition example_zero :: http_msg where
  "example_zero = example_post\<lparr>q_headers := [(''Content-Length'', ''0'')]\<rparr>"

lemma example_zero_facts:
  "wf_msg example_zero" "map_of (q_headers example_zero) ''Content-Length'' = Some ''0''"
  "atoi ''0'' = Some 0"
  by (simp_all add: example_zero_def example_post_def wf_defs) code_simp

lemma parse_zero_length_witness:
  "ParseInternal (render_head example_zero @ ''x'') (length (render_head example_zero) + 0)
     (SHttpRequest_Init blank_request) =
   Inr ((fields_of example_zero (SHttpRequest_Init blank_request))\<lparr>
      m_eDecodeState := COMPLETE, m_iNextPos := length (render_head example_zero)\<rparr>)"
  by (rule parse_zero_length [OF example_zero_facts]) simp

text \<open>
  Without \<open>Content-Length\<close> the body is one char too long. The length is counted from the last
  char of the header, so after receiving the header and \<open>body\<close> the parser stores \<open>body\<close> and the
  char behind it in the array, which was never received.
\<close>

theorem parse_body_without_length:
  assumes "wf_msg q" and "map_of (q_headers q) ''Content-Length'' = None" and "body \<noteq> []"
  shows "ParseInternal (render_head q @ body @ x # rest) (length (render_head q) + length body)
      (SHttpRequest_Init r) =
    Inr ((fields_of q (SHttpRequest_Init r))\<lparr>m_strBody := body @ [x],
      m_eDecodeState := COMPLETE, m_iNextPos := Suc (length (render_head q))\<rparr>)"
proof -
  let ?sz = "length (render_head q) + length body"
  obtain s where s: "req s = (fields_of q (SHttpRequest_Init r))\<lparr>
      m_eDecodeState := BODY, m_iNextPos := length (render_head q)\<rparr>"
    and len: "l_bodyLength s = int ?sz - int (length (render_head q) - 1)"
    and run: "ParseInternal (render_head q @ body @ x # rest) ?sz (SHttpRequest_Init r) =
      bind_res (parse_loop (render_head q @ body @ x # rest) ?sz s) (\<lambda>s. Inr (req s))"
    using parse_head_no_length [OF assms(1,2), of ?sz r "body @ x # rest"] by auto
  from len have "l_bodyLength s = int (Suc (length body))"
    using head_length [of q] by linarith
  with s run assms(3) show ?thesis by (simp add: body_step nat_add_distrib)
qed

lemma parse_body_without_length_witness:
  "ParseInternal (render_head example_get @ ''ab'' @ NUL # [])
     (length (render_head example_get) + length ''ab'') (SHttpRequest_Init blank_request) =
   Inr ((fields_of example_get (SHttpRequest_Init blank_request))\<lparr>m_strBody := ''ab'' @ [NUL],
      m_eDecodeState := COMPLETE, m_iNextPos := Suc (length (render_head example_get))\<rparr>)"
  by (rule parse_body_without_length [OF example_get_wf]) (simp_all add: example_get_def)

text \<open>
  C40: an announced length beyond the end of the receive buffer makes \<open>assign\<close> read outside the
  array, as soon as one char of the body has been received.
\<close>

theorem parse_length_overrun:
  assumes "wf_msg q" and "map_of (q_headers q) ''Content-Length'' = Some v"
    and "atoi v = Some n" and "int (length rest) < n" and "0 < k" and "k \<le> length rest"
  shows "ParseInternal (render_head q @ rest) (length (render_head q) + k) (SHttpRequest_Init r) =
    Inl OutOfBounds"
proof -
  let ?sz = "length (render_head q) + k"
  obtain s where s: "req s = (fields_of q (SHttpRequest_Init r))\<lparr>
      m_eDecodeState := BODY, m_iNextPos := length (render_head q)\<rparr>"
    and len: "l_bodyLength s = n"
    and run: "ParseInternal (render_head q @ rest) ?sz (SHttpRequest_Init r) =
      bind_res (parse_loop (render_head q @ rest) ?sz s) (\<lambda>s. Inr (req s))"
    using parse_head_length [OF assms(1-3), of ?sz r rest] assms(4) by auto
  have "parse_loop (render_head q @ rest) ?sz s = Inl OutOfBounds"
    using s len assms by (intro body_fault) auto
  with run show ?thesis by simp
qed

lemma parse_length_overrun_witness:
  "ParseInternal (render_head example_post @ ''ab'') (length (render_head example_post) + 1)
     (SHttpRequest_Init blank_request) = Inl OutOfBounds"
  by (rule parse_length_overrun [OF example_post_wf example_post_length]) simp_all

end
