(* ===== verification/Http_Serve.thy ===== *)
theory Http_Serve
  imports Http_Reply Http_Parse
begin

text \<open>
  What a connection does with the data it has received: \<open>ParseRead\<close>, \<open>HttpParse\<close>, and the life
  of a connection as a step relation over its public operations.
\<close>

section \<open>Received requests\<close>

text \<open>A connection whose parser is fresh and whose buffer holds \<open>n\<close> chars of \<open>buf\<close>.\<close>

definition received :: "CHttp \<Rightarrow> string \<Rightarrow> nat \<Rightarrow> bool" where
  "received c buf n \<longleftrightarrow> m_aReadData c = buf \<and> m_iReadIdx c = n \<and>
     m_sHttpParse c = SHttpRequest_Init (m_sHttpParse c)"

lemma ParseRead_received:
  assumes "received c buf n"
    and "ParseInternal buf n (SHttpRequest_Init (m_sHttpParse c)) = Inr r"
  shows "ParseRead c = Inr (
    if m_iNextPos r = n then
      if m_eDecodeState r = BODY \<and> m_strMethod r = ''GET'' then COMPLETE
      else if \<not> invalid_state (m_eDecodeState r) then OPEN else m_eDecodeState r
    else m_eDecodeState r, c\<lparr>m_sHttpParse := r\<rparr>)"
  using assms by (auto simp: ParseRead_def received_def Let_def)

lemma parse_stops_at_body:
  assumes "wf_msg q" and "map_of (q_headers q) ''Content-Length'' = None"
  shows "ParseInternal (render_head q @ rest) (length (render_head q)) (SHttpRequest_Init r) =
    Inr ((fields_of q (SHttpRequest_Init r))\<lparr>
      m_eDecodeState := BODY, m_iNextPos := length (render_head q)\<rparr>)"
proof -
  let ?sz = "length (render_head q)"
  obtain s where s: "req s = (fields_of q (SHttpRequest_Init r))\<lparr>
      m_eDecodeState := BODY, m_iNextPos := ?sz\<rparr>"
    and run: "ParseInternal (render_head q @ rest) ?sz (SHttpRequest_Init r) =
      bind_res (parse_loop (render_head q @ rest) ?sz s) (\<lambda>s. Inr (req s))"
    using parse_head_no_length [OF assms order_refl] by metis
  have "parse_loop (render_head q @ rest) ?sz s = Inr s"
    using s by (intro pl.loop_stop) (simp add: parse_running_def)
  with s run show ?thesis by simp
qed

lemma parse_short_body:
  assumes "wf_msg q" and "map_of (q_headers q) ''Content-Length'' = Some v"
    and "atoi v = Some n" and "n \<le> 1" and "nat n \<le> length rest"
  shows "\<exists>r'. ParseInternal (render_head q @ rest) (length (render_head q) + nat n) (SHttpRequest_Init r) =
      Inr r' \<and> m_eDecodeState r' = COMPLETE \<and> m_iNextPos r' = length (render_head q) + nat n \<and>
      m_strBody r' = take (nat n) rest"
proof -
  let ?buf = "render_head q @ rest" and ?sz = "length (render_head q) + nat n"
  obtain s where s: "req s = (fields_of q (SHttpRequest_Init r))\<lparr>
      m_eDecodeState := (if 0 < n then BODY else COMPLETE), m_iNextPos := length (render_head q)\<rparr>"
    and len: "l_bodyLength s = n"
    and run: "ParseInternal ?buf ?sz (SHttpRequest_Init r) =
      bind_res (parse_loop ?buf ?sz s) (\<lambda>s. Inr (req s))"
    using parse_head_length [OF assms(1-3), of ?sz r rest] by auto
  show ?thesis
  proof (cases "0 < n")
    case True
    then have "n = 1" using assms(4) by simp
    with s len assms(5) have "parse_loop ?buf ?sz s = Inr (goto COMPLETE (move 1 s\<lparr>req :=
        (req (move 1 s))\<lparr>m_strBody := take (nat (l_bodyLength s)) (drop (p_pos s) ?buf)\<rparr>\<rparr>))"
      by (intro body_step) auto
    with run s len \<open>n = 1\<close> show ?thesis by simp
  next
    case False
    then have "parse_loop ?buf ?sz s = Inr s"
      using s by (intro pl.loop_stop) (simp add: parse_running_def)
    with run s False show ?thesis by (simp add: fields_of_def SHttpRequest_Init_def)
  qed
qed

text \<open>
  A \<open>GET\<close> request without \<open>Content-Length\<close>, received to its end, is complete.
\<close>

theorem get_complete:
  assumes "wf_msg q" and "map_of (q_headers q) ''Content-Length'' = None" and "q_method q = ''GET''"
    and "received c (render_head q @ rest) (length (render_head q))"
  shows "\<exists>r. ParseRead c = Inr (COMPLETE, c\<lparr>m_sHttpParse := r\<rparr>) \<and> m_strUrl r = q_url q \<and>
    m_mRequestParams r = map_of (q_params q) \<and> m_mHeaders r = map_of (q_headers q)"
  using ParseRead_received [OF assms(4) parse_stops_at_body [OF assms(1,2)]] assms(3)
  by (auto simp: fields_of_def)

definition with_input :: "string \<Rightarrow> nat \<Rightarrow> CHttp" where
  "with_input buf n = idle_conn\<lparr>m_aReadData := buf, m_iReadIdx := n\<rparr>"

lemma with_input_received: "received (with_input buf n) buf n"
  by (simp add: received_def with_input_def idle_conn_def SHttpRequest_Init_def)

lemma get_complete_witness:
  "\<exists>r. ParseRead (with_input (render_head example_get @ [NUL]) (length (render_head example_get))) =
     Inr (COMPLETE, with_input (render_head example_get @ [NUL]) (length (render_head example_get))
       \<lparr>m_sHttpParse := r\<rparr>) \<and> m_strUrl r = ''/a''"
  using get_complete [OF example_get_wf _ _ with_input_received, of "[NUL]"]
  by (auto simp: example_get_def)

text \<open>
  C37: a complete request that ends exactly where the received data ends is reported as \<open>OPEN\<close>
  when its announced body has at most one char: \<open>ParseRead\<close> tests the position before the state.
  The parser itself is in \<open>COMPLETE\<close>. The request is put back to wait for input and not answered.
\<close>

theorem short_body_left_open:
  assumes "wf_msg q" and "map_of (q_headers q) ''Content-Length'' = Some v"
    and "atoi v = Some n" and "n \<le> 1" and "nat n \<le> length rest"
    and "received c (render_head q @ rest) (length (render_head q) + nat n)"
  shows "\<exists>r. m_eDecodeState r = COMPLETE \<and> m_strBody r = take (nat n) rest \<and>
    ParseRead c = Inr (OPEN, c\<lparr>m_sHttpParse := r\<rparr>) \<and>
    HttpParse k c w = Inr (c\<lparr>m_sHttpParse := r\<rparr>,
      ModFd (m_iEpollFd w) (m_iSockFd c) EPOLLIN (m_iTriggerMode c) w)"
proof -
  obtain r where r: "ParseInternal (render_head q @ rest) (length (render_head q) + nat n)
      (SHttpRequest_Init (m_sHttpParse c)) = Inr r" "m_eDecodeState r = COMPLETE"
    "m_iNextPos r = length (render_head q) + nat n" "m_strBody r = take (nat n) rest"
    using parse_short_body [OF assms(1-5)] by blast
  with ParseRead_received [OF assms(6) r(1)] show ?thesis
    by (auto simp: HttpParse_def invalid_state_def)
qed

lemma short_body_left_open_witness:
  "\<exists>r. m_eDecodeState r = COMPLETE \<and>
    HttpParse demo_kernel (with_input (render_head example_zero) (length (render_head example_zero))) world0 =
      Inr (with_input (render_head example_zero) (length (render_head example_zero))\<lparr>m_sHttpParse := r\<rparr>,
        ModFd 3 7 EPOLLIN 0 world0)"
  using short_body_left_open [OF example_zero_facts(1,2), of 0 "[]"
      "with_input (render_head example_zero) (length (render_head example_zero))" demo_kernel world0]
  by (auto simp: example_zero_facts(3) with_input_received [of "render_head example_zero"])
    (auto simp: with_input_def idle_conn_def world0_def)

lemma demo_page:
  "k_stat demo_kernel ''./1.html'' = Some \<lparr>st_mode = 0x81A4, st_size = 3\<rparr>"
  "reply_error demo_kernel COMPLETE ''./1.html'' = None"
  by (simp_all add: demo_kernel_def reply_error_def invalid_state_def)

section \<open>What every operation keeps\<close>

text \<open>
  The shape of a connection: both arrays at their sizes, the indices inside them, and the reply
  always announcing \<open>close\<close>.
\<close>

definition conn_inv :: "CHttp \<Rightarrow> bool" where
  "conn_inv c \<longleftrightarrow> length (m_aReadData c) = MAX_READ_DATA_BUFF_SIZE \<and>
     m_iReadIdx c \<le> MAX_READ_DATA_BUFF_SIZE \<and> write_inv c \<and> \<not> m_bLinger c"

lemma reset_buffers_inv [simp]: "conn_inv (reset_buffers c) \<longleftrightarrow> \<not> m_bLinger c"
  by (simp add: conn_inv_def reset_buffers_def write_inv_def zeros_def MAX_WRITE_DATA_BUFF_SIZE_def)

text \<open>Documented behaviour of \<open>recv\<close>: at most the requested number of bytes.\<close>

definition recv_ok :: "receiver \<Rightarrow> bool" where
  "recv_ok recv \<longleftrightarrow> (\<forall>i n d. recv i n = Received d \<longrightarrow> length d \<le> n)"

lemma take_in_inv:
  assumes "conn_inv c" and "length d \<le> MAX_READ_DATA_BUFF_SIZE - m_iReadIdx c"
  shows "conn_inv (take_in d c)"
  using assms by (auto simp: conn_inv_def take_in_def store_at_length write_inv_def)

lemma take_in_twice:
  assumes "m_iReadIdx c + length d + length d' \<le> length (m_aReadData c)"
  shows "take_in d' (take_in d c) = take_in (d @ d') c"
  using assms by (cases c) (simp add: take_in_def store_at_def ac_simps)

lemma take_in_nil [simp]: "take_in [] c = c"
  by (cases c) (simp add: take_in_def store_at_def)

text \<open>The edge-triggered loop returns: every round but the last takes something in.\<close>

lemma read_et_total:
  assumes "recv_ok recv" and "conn_inv c"
  shows "\<exists>b d. read_et recv i c = Some (b, take_in d c) \<and>
    length d \<le> MAX_READ_DATA_BUFF_SIZE - m_iReadIdx c"
  using assms
proof (induction "MAX_READ_DATA_BUFF_SIZE - m_iReadIdx c" arbitrary: c i rule: less_induct)
  case less
  let ?room = "MAX_READ_DATA_BUFF_SIZE - m_iReadIdx c"
  show ?case
  proof (cases "recv i ?room")
    case (RecvErr e)
    then have "read_et recv i c = Some (e = EAGAIN, take_in [] c)"
      by (subst read_et.simps) simp
    then show ?thesis by (intro exI [of _ "e = EAGAIN"] exI [of _ "[]"]) simp
  next
    case (Received d)
    show ?thesis
    proof (cases "d = []")
      case True
      then have "read_et recv i c = Some (False, take_in [] c)"
        using Received by (subst read_et.simps) simp
      then show ?thesis by (intro exI [of _ False] exI [of _ "[]"]) simp
    next
      case False
      have fits: "length d \<le> ?room" using Received less.prems(1) by (auto simp: recv_ok_def)
      have "MAX_READ_DATA_BUFF_SIZE - m_iReadIdx (take_in d c) < ?room"
        using fits False by (cases d) (simp_all add: take_in_def)
      from less.hyps [OF this less.prems(1) take_in_inv [OF less.prems(2) fits], of "Suc i"]
      obtain b d' where step: "read_et recv (Suc i) (take_in d c) = Some (b, take_in d' (take_in d c))"
        "length d' \<le> MAX_READ_DATA_BUFF_SIZE - m_iReadIdx (take_in d c)" by blast
      have "read_et recv i c = read_et recv (Suc i) (take_in d c)"
        using Received False by (subst read_et.simps) simp
      moreover have "length (d @ d') \<le> ?room"
        using step(2) fits by (simp add: take_in_def)
      ultimately show ?thesis
        using step(1) less.prems(2) take_in_twice [of c d d']
        by (intro exI [of _ b] exI [of _ "d @ d'"]) (auto simp: conn_inv_def)
    qed
  qed
qed

lemma Read_total:
  assumes "recv_ok recv" and "conn_inv c"
  obtains b d where "CHttp_Read recv c = Some (b, take_in d c)"
    "length d \<le> MAX_READ_DATA_BUFF_SIZE - m_iReadIdx c"
proof -
  let ?room = "MAX_READ_DATA_BUFF_SIZE - m_iReadIdx c"
  consider "MAX_READ_DATA_BUFF_SIZE \<le> m_iReadIdx c" | "m_iReadIdx c < MAX_READ_DATA_BUFF_SIZE" "m_iTriggerMode c \<noteq> 0"
    | "m_iReadIdx c < MAX_READ_DATA_BUFF_SIZE" "m_iTriggerMode c = 0" by linarith
  then show ?thesis
  proof cases
    case 1
    then show ?thesis using that [of False "[]"] by (simp add: CHttp_Read_def)
  next
    case 2
    then show ?thesis using that read_et_total [OF assms, of 0] by (auto simp: CHttp_Read_def)
  next
    case 3
    show ?thesis
    proof (cases "recv 0 ?room")
      case (Received d)
      then have "length d \<le> ?room" using assms(1) by (auto simp: recv_ok_def)
      then show ?thesis
        using 3 Received that [of False "[]"] that [of True d] by (cases "d = []") (auto simp: CHttp_Read_def)
    next
      case (RecvErr e)
      then show ?thesis using 3 that [of False "[]"] by (simp add: CHttp_Read_def)
    qed
  qed
qed


text \<open>A peer whose data arrives in the given pieces, and has no more for now.\<close>

definition feed :: "string list \<Rightarrow> receiver" where
  "feed ds i n = (if i < length ds then Received (take n (ds ! i)) else RecvErr EAGAIN)"

lemma feed_ok: "recv_ok (feed ds)"
  by (auto simp: recv_ok_def feed_def split: if_splits)

lemma idle_conn_conn_inv: "conn_inv idle_conn"
  using idle_conn_inv(1) by (simp add: conn_inv_def idle_conn_def zeros_def)


lemma read_et_feed:
  assumes "\<forall>d \<in> set (drop i ds). d \<noteq> []" and "i \<le> length ds"
    and "m_iReadIdx c + length (concat (drop i ds)) \<le> MAX_READ_DATA_BUFF_SIZE"
    and "length (m_aReadData c) = MAX_READ_DATA_BUFF_SIZE"
  shows "read_et (feed ds) i c = Some (True, take_in (concat (drop i ds)) c)"
  using assms
proof (induction "length ds - i" arbitrary: i c)
  case 0
  then show ?case by (subst read_et.simps) (simp add: feed_def)
next
  case (Suc n)
  then have i: "i < length ds" by linarith
  then have parts: "drop i ds = ds ! i # drop (Suc i) ds" by (simp add: Cons_nth_drop_Suc)
  let ?c = "take_in (ds ! i) c"
  have fits: "m_iReadIdx c + length (ds ! i) + length (concat (drop (Suc i) ds)) \<le> MAX_READ_DATA_BUFF_SIZE"
    using Suc.prems(3) parts by simp
  have "read_et (feed ds) i c = read_et (feed ds) (Suc i) ?c"
    using i fits Suc.prems(1) parts by (subst read_et.simps) (simp add: feed_def)
  also have "\<dots> = Some (True, take_in (concat (drop (Suc i) ds)) ?c)"
    using Suc.hyps(2) Suc.prems i fits parts
    by (intro Suc.hyps(1)) (auto simp: take_in_def store_at_length)
  also have "\<dots> = Some (True, take_in (concat (drop i ds)) c)"
    using fits Suc.prems(4) parts by (simp add: take_in_twice)
  finally show ?case .
qed

text \<open>
  Edge-triggered input is drained. When the pieces that have arrived fit into the buffer they
  are all stored, in order, and \<open>Read\<close> succeeds once \<open>recv\<close> answers \<open>EAGAIN\<close>.
\<close>

theorem read_drains:
  assumes "\<forall>d \<in> set ds. d \<noteq> []" and "m_iTriggerMode c \<noteq> 0" and "m_iReadIdx c < MAX_READ_DATA_BUFF_SIZE"
    and "m_iReadIdx c + length (concat ds) \<le> MAX_READ_DATA_BUFF_SIZE"
    and "length (m_aReadData c) = MAX_READ_DATA_BUFF_SIZE"
  shows "CHttp_Read (feed ds) c = Some (True, take_in (concat ds) c)"
  using read_et_feed [of 0 ds c] assms by (simp add: CHttp_Read_def)

definition et_conn :: CHttp where
  "et_conn = idle_conn\<lparr>m_iTriggerMode := 1\<rparr>"

lemma et_conn_inv: "conn_inv et_conn" "m_iTriggerMode et_conn \<noteq> 0" "m_iReadIdx et_conn = 0"
    "length (m_aReadData et_conn) = MAX_READ_DATA_BUFF_SIZE"
  using idle_conn_inv(1)
  by (simp_all add: conn_inv_def idle_conn_def et_conn_def zeros_def write_inv_def)

lemma read_drains_witness:
  "CHttp_Read (feed [''ab'', ''c'']) et_conn = Some (True, take_in ''abc'' et_conn)"
  using read_drains [OF _ et_conn_inv(2), of "[''ab'', ''c'']"] et_conn_inv
  by (simp add: MAX_READ_DATA_BUFF_SIZE_def)

lemma read_et_flood:
  assumes "\<forall>i n. 0 < n \<longrightarrow> (\<exists>d. recv i n = Received d \<and> d \<noteq> [] \<and> length d \<le> n)"
    and "\<forall>i. recv i 0 = Received []" and "conn_inv c"
  shows "\<exists>c'. read_et recv i c = Some (False, c') \<and> conn_inv c' \<and> m_iReadIdx c' = MAX_READ_DATA_BUFF_SIZE"
  using assms(3)
proof (induction "MAX_READ_DATA_BUFF_SIZE - m_iReadIdx c" arbitrary: c i rule: less_induct)
  case less
  let ?room = "MAX_READ_DATA_BUFF_SIZE - m_iReadIdx c"
  show ?case
  proof (cases "?room = 0")
    case True
    then have "m_iReadIdx c = MAX_READ_DATA_BUFF_SIZE" using less.prems by (simp add: conn_inv_def)
    then show ?thesis using assms(2) less.prems by (subst read_et.simps) simp
  next
    case False
    then obtain d where d: "recv i ?room = Received d" "d \<noteq> []" "length d \<le> ?room"
      using assms(1) by blast
    then have "MAX_READ_DATA_BUFF_SIZE - m_iReadIdx (take_in d c) < ?room"
      by (cases d) (simp_all add: take_in_def)
    from less.hyps [OF this take_in_inv [OF less.prems d(3)], of "Suc i"] d
    show ?thesis by (subst read_et.simps) simp
  qed
qed

text \<open>
  A peer that sends more than the buffer holds is refused. The edge-triggered loop fills the
  buffer to its last cell, asks \<open>recv\<close> for zero bytes, takes the answer for an end of file and
  fails; it neither loops on nor overruns the array.
\<close>

theorem read_flood:
  assumes "\<forall>i n. 0 < n \<longrightarrow> (\<exists>d. recv i n = Received d \<and> d \<noteq> [] \<and> length d \<le> n)"
    and "\<forall>i. recv i 0 = Received []" and "conn_inv c" and "m_iTriggerMode c \<noteq> 0"
    and "m_iReadIdx c < MAX_READ_DATA_BUFF_SIZE"
  shows "\<exists>c'. CHttp_Read recv c = Some (False, c') \<and> conn_inv c' \<and>
    m_iReadIdx c' = MAX_READ_DATA_BUFF_SIZE"
  using read_et_flood [OF assms(1-3), of 0] assms(4,5) by (simp add: CHttp_Read_def)

lemma read_flood_witness:
  "\<exists>c'. CHttp_Read (\<lambda>i n. Received (replicate n CHR ''x'')) et_conn = Some (False, c') \<and>
    m_iReadIdx c' = MAX_READ_DATA_BUFF_SIZE"
  using read_flood [of "\<lambda>i n. Received (replicate n CHR ''x'')" et_conn] et_conn_inv
  by (auto simp: MAX_READ_DATA_BUFF_SIZE_def)

end
