(* ===== verification/Http_Send.thy ===== *)
theory Http_Send
  imports Http_Serve
begin

text \<open>
  Sending: what \<open>writev\<close> is offered after each partial write, and what arrives at the peer.
\<close>

section \<open>The position in a reply\<close>

text \<open>
  The connection has sent \<open>p\<close> bytes of its head and the mapped file \<open>page\<close>. Before the end of the
  head the first segment is the rest of the head, afterwards it is empty and the second one is the
  rest of the file.
\<close>

definition reply_at :: "CHttp \<Rightarrow> string \<Rightarrow> nat \<Rightarrow> bool" where
  "reply_at c page p \<longleftrightarrow> write_inv c \<and> m_pFileAddr c = FMap page \<and> m_iIvCount c = 2 \<and>
     m_iDataSendLen c = int p \<and> p \<le> m_iWriteIdx c + length page \<and>
     m_iDataLen c = int (m_iWriteIdx c + length page - p) \<and>
     (if 0 < p \<and> m_iWriteIdx c \<le> p then
        iov_len (m_sIv0 c) = 0 \<and>
        m_sIv1 c = \<lparr>iov_base = InFile (int p - int (m_iWriteIdx c)), iov_len = m_iWriteIdx c + length page - p\<rparr>
      else
        m_sIv0 c = \<lparr>iov_base = InWrite (int p), iov_len = m_iWriteIdx c - p\<rparr> \<and>
        m_sIv1 c = \<lparr>iov_base = InFile 0, iov_len = length page\<rparr>)"

definition whole_reply :: "CHttp \<Rightarrow> string \<Rightarrow> string" where
  "whole_reply c page = written c @ page"

lemma cells_of_list:
  assumes "i + n \<le> length mem"
  shows "map (\<lambda>j. cell_at mem (int i + int j)) [0..<n] = map Some (take n (drop i mem))"
  using assms by (intro nth_equalityI) (auto simp: cell_at_def nat_add_distrib)

lemma file_cells:
  assumes "m_pFileAddr c = FMap page" and "i + n \<le> length page"
  shows "iov_cells c \<lparr>iov_base = InFile (int i), iov_len = n\<rparr> = map Some (take n (drop i page))"
proof -
  have "iov_cell c (InFile (int i)) = (\<lambda>j. cell_at page (int i + int j))"
    using assms(1) by (intro ext) (simp add: iov_cell_def)
  with cells_of_list [OF assms(2)] show ?thesis by (simp add: iov_cells_def)
qed

lemma head_cells:
  assumes "i + n \<le> length (m_aWriteData c)"
  shows "iov_cells c \<lparr>iov_base = InWrite (int i), iov_len = n\<rparr> = map Some (take n (drop i (m_aWriteData c)))"
proof -
  have "iov_cell c (InWrite (int i)) = (\<lambda>j. cell_at (m_aWriteData c) (int i + int j))"
    by (intro ext) (simp add: iov_cell_def)
  with cells_of_list [OF assms] show ?thesis by (simp add: iov_cells_def)
qed

lemma empty_cells: "iov_len v = 0 \<Longrightarrow> iov_cells c v = []"
  by (simp add: iov_cells_def)

lemma write_inv_room: "write_inv c \<Longrightarrow> m_iWriteIdx c \<le> length (m_aWriteData c)"
  by (auto simp: write_inv_def)

lemma drop_written: "take (m_iWriteIdx c - p) (drop p (m_aWriteData c)) = drop p (written c)"
  by (simp add: written_def drop_take)

lemma reply_at_offer:
  assumes "reply_at c page p"
  shows "out_cells c = map Some (drop p (whole_reply c page))"
proof -
  let ?W = "m_iWriteIdx c"
  have inv: "write_inv c" and mapped: "m_pFileAddr c = FMap page" and two: "m_iIvCount c = 2"
    and p: "p \<le> ?W + length page"
    using assms by (simp_all add: reply_at_def)
  have W: "length (written c) = ?W" using written_length [OF inv] .
  show ?thesis
  proof (cases "0 < p \<and> ?W \<le> p")
    case True
    then have "m_sIv1 c = \<lparr>iov_base = InFile (int (p - ?W)), iov_len = ?W + length page - p\<rparr>"
      "iov_len (m_sIv0 c) = 0" using assms by (simp_all add: reply_at_def)
    with file_cells [OF mapped, of "p - ?W" "?W + length page - p"] True p W two show ?thesis
      by (simp add: out_cells_def empty_cells whole_reply_def)
  next
    case False
    then have "m_sIv0 c = \<lparr>iov_base = InWrite (int p), iov_len = ?W - p\<rparr>"
      "m_sIv1 c = \<lparr>iov_base = InFile (int 0), iov_len = length page\<rparr>"
      using assms by (simp_all add: reply_at_def)
    with head_cells [of p "?W - p" c] file_cells [OF mapped, of 0 "length page"] False W two
      write_inv_room [OF inv] show ?thesis
      by (auto simp: out_cells_def drop_written whole_reply_def)
  qed
qed

text \<open>The connection right after a \<open>writev\<close> that sent \<open>n\<close> bytes.\<close>

definition sent_more :: "nat \<Rightarrow> CHttp \<Rightarrow> CHttp" where
  "sent_more n c = c\<lparr>m_iDataSendLen := m_iDataSendLen c + int n, m_iDataLen := m_iDataLen c - int n\<rparr>"

lemma advance_keeps [simp]:
  "m_iWriteIdx (advance_iov c) = m_iWriteIdx c" "m_aWriteData (advance_iov c) = m_aWriteData c"
  "m_pFileAddr (advance_iov c) = m_pFileAddr c" "m_iIvCount (advance_iov c) = m_iIvCount c"
  "m_iDataSendLen (advance_iov c) = m_iDataSendLen c" "m_iDataLen (advance_iov c) = m_iDataLen c"
  "m_iSockFd (advance_iov c) = m_iSockFd c" "m_iTriggerMode (advance_iov c) = m_iTriggerMode c"
  "m_bLinger (advance_iov c) = m_bLinger c" "m_sFileStat (advance_iov c) = m_sFileStat c"
  by (simp_all add: advance_iov_def)

lemma sent_more_keeps [simp]:
  "m_iWriteIdx (sent_more n c) = m_iWriteIdx c" "m_aWriteData (sent_more n c) = m_aWriteData c"
  "m_pFileAddr (sent_more n c) = m_pFileAddr c" "m_iIvCount (sent_more n c) = m_iIvCount c"
  "m_iDataSendLen (sent_more n c) = m_iDataSendLen c + int n"
  "m_iDataLen (sent_more n c) = m_iDataLen c - int n"
  "m_iSockFd (sent_more n c) = m_iSockFd c" "m_iTriggerMode (sent_more n c) = m_iTriggerMode c"
  "m_bLinger (sent_more n c) = m_bLinger c" "m_sFileStat (sent_more n c) = m_sFileStat c"
  "m_sIv0 (sent_more n c) = m_sIv0 c" "m_sIv1 (sent_more n c) = m_sIv1 c"
  by (simp_all add: sent_more_def)

lemma keeps_written [simp]:
  "written (advance_iov c) = written c" "written (sent_more n c) = written c"
  "write_inv (advance_iov c) = write_inv c" "write_inv (sent_more n c) = write_inv c"
  "whole_reply (advance_iov c) page = whole_reply c page"
  "whole_reply (sent_more n c) page = whole_reply c page"
  by (simp_all add: written_def write_inv_def whole_reply_def)

text \<open>
  The next segments are right unless the write began and ended strictly inside the head.
\<close>

lemma reply_at_advance:
  assumes "reply_at c page p" and "0 < n" and "p + n < m_iWriteIdx c + length page"
    and "0 < p \<and> p < m_iWriteIdx c \<longrightarrow> m_iWriteIdx c \<le> p + n"
  shows "reply_at (advance_iov (sent_more n c)) page (p + n)"
proof (cases "0 < p \<and> m_iWriteIdx c \<le> p")
  case True
  with assms show ?thesis by (auto simp: reply_at_def) (auto simp: advance_iov_def)
next
  case False
  show ?thesis
  proof (cases "m_iWriteIdx c \<le> p + n")
    case True
    with False assms show ?thesis by (auto simp: reply_at_def) (auto simp: advance_iov_def)
  next
    case short: False
    then have "p = 0" using False assms(4) by auto
    with short assms show ?thesis by (auto simp: reply_at_def) (auto simp: advance_iov_def)
  qed
qed

section \<open>One round of the loop\<close>

lemma loop_sends:
  assumes "writev i = Wrote (int n)" and "take n (out_cells c) = map Some bs"
    and "int n < m_iDataLen c"
  shows "write_loop writev i c w =
    write_loop writev (Suc i) (advance_iov (sent_more n c)) (emit (Sent (m_iSockFd c) bs) w)"
proof -
  have "None \<notin> set (take n (out_cells c))" "map the (take n (out_cells c)) = bs"
    unfolding assms(2) by (auto simp: comp_def)
  with assms(1,3) show ?thesis
    by (subst write_loop.simps) (simp add: Let_def sent_more_def)
qed

lemma loop_finishes:
  assumes "writev i = Wrote (int n)" and "take n (out_cells c) = map Some bs"
    and "m_iDataLen c \<le> int n" and "m_pFileAddr c \<noteq> FNull" and "\<not> m_bLinger c"
  shows "\<exists>c'. write_loop writev i c w = Some (Inr (False, c',
    ModFd (m_iEpollFd w) (m_iSockFd c) EPOLLIN (m_iTriggerMode c)
      (emit (Munmap (st_size (m_sFileStat c))) (emit (Sent (m_iSockFd c) bs) w)))) \<and>
    m_pFileAddr c' = FNull \<and> m_iSockFd c' = m_iSockFd c"
proof -
  have "None \<notin> set (take n (out_cells c))" "map the (take n (out_cells c)) = bs"
    unfolding assms(2) by (auto simp: comp_def)
  with assms(1,3-5) show ?thesis
    by (subst write_loop.simps) (simp add: Let_def unmmap_def)
qed

lemma loop_again:
  assumes "writev i = WriteErr EAGAIN"
  shows "write_loop writev i c w =
    Some (Inr (True, c, ModFd (m_iEpollFd w) (m_iSockFd c) EPOLLOUT (m_iTriggerMode c) w))"
  using assms by (subst write_loop.simps) simp

text \<open>A socket that takes the given numbers of bytes and then has no room.\<close>

definition takes :: "nat list \<Rightarrow> sender" where
  "takes ns i = (if i < length ns then Wrote (int (ns ! i)) else WriteErr EAGAIN)"

text \<open>No write begins and ends strictly inside the head.\<close>

fun head_unsplit :: "nat \<Rightarrow> nat \<Rightarrow> nat list \<Rightarrow> bool" where
  "head_unsplit W p [] = True"
| "head_unsplit W p (n # ns) =
     ((0 < p \<and> p < W \<longrightarrow> W \<le> p + n) \<and> head_unsplit W (p + n) ns)"

lemma loop_run:
  assumes "reply_at c page p" and "head_unsplit (m_iWriteIdx c) p (drop i ns)"
    and "\<forall>n \<in> set (drop i ns). 0 < n"
    and "p + sum_list (drop i ns) < m_iWriteIdx c + length page" and "i \<le> length ns"
    and takes: "\<And>j. j < length ns \<Longrightarrow> writev j = Wrote (int (ns ! j))"
  shows "\<exists>c' w'. write_loop writev i c w = write_loop writev (length ns) c' w' \<and>
    reply_at c' page (p + sum_list (drop i ns)) \<and> written c' = written c \<and>
    m_iSockFd c' = m_iSockFd c \<and> m_iTriggerMode c' = m_iTriggerMode c \<and> m_bLinger c' = m_bLinger c \<and>
    m_sFileStat c' = m_sFileStat c \<and> m_iEpollFd w' = m_iEpollFd w \<and>
    wire (m_iSockFd c) (w_calls w') =
      wire (m_iSockFd c) (w_calls w) @ take (sum_list (drop i ns)) (drop p (whole_reply c page))"
  using assms(1-5)
proof (induction "length ns - i" arbitrary: i c p w)
  case 0
  then have "i = length ns" by simp
  with 0 show ?case by (intro exI [of _ c] exI [of _ w]) simp
next
  case (Suc m)
  then have i: "i < length ns" by linarith
  define n where "n = ns ! i"
  have parts: "drop i ns = n # drop (Suc i) ns" using i by (simp add: Cons_nth_drop_Suc n_def)
  let ?c = "advance_iov (sent_more n c)"
  let ?bs = "take n (drop p (whole_reply c page))"
  let ?w = "emit (Sent (m_iSockFd c) ?bs) w"
  have n: "0 < n" "p + n < m_iWriteIdx c + length page"
    "0 < p \<and> p < m_iWriteIdx c \<longrightarrow> m_iWriteIdx c \<le> p + n" using Suc.prems parts by simp_all
  have off: "take n (out_cells c) = map Some ?bs"
    using reply_at_offer [OF Suc.prems(1)] by (simp add: take_map)
  have "int n < m_iDataLen c" using Suc.prems(1) n by (simp add: reply_at_def)
  then have step: "write_loop writev i c w = write_loop writev (Suc i) ?c ?w"
    using i by (intro loop_sends [OF _ off]) (simp_all add: takes n_def)
  have "reply_at ?c page (p + n)" by (rule reply_at_advance [OF Suc.prems(1) n])
  moreover have "head_unsplit (m_iWriteIdx ?c) (p + n) (drop (Suc i) ns)"
    "\<forall>n \<in> set (drop (Suc i) ns). 0 < n" "Suc i \<le> length ns" "m = length ns - Suc i"
    "p + n + sum_list (drop (Suc i) ns) < m_iWriteIdx ?c + length page"
    using Suc.prems Suc.hyps(2) i unfolding parts by simp_all
  ultimately have "\<exists>c' w'. write_loop writev (Suc i) ?c ?w = write_loop writev (length ns) c' w' \<and>
    reply_at c' page (p + n + sum_list (drop (Suc i) ns)) \<and> written c' = written ?c \<and>
    m_iSockFd c' = m_iSockFd ?c \<and> m_iTriggerMode c' = m_iTriggerMode ?c \<and> m_bLinger c' = m_bLinger ?c \<and>
    m_sFileStat c' = m_sFileStat ?c \<and> m_iEpollFd w' = m_iEpollFd ?w \<and>
    wire (m_iSockFd ?c) (w_calls w') = wire (m_iSockFd ?c) (w_calls ?w) @
      take (sum_list (drop (Suc i) ns)) (drop (p + n) (whole_reply ?c page))"
    by (intro Suc.hyps(1))
  then
  obtain c' w' where run: "write_loop writev (Suc i) ?c ?w = write_loop writev (length ns) c' w'"
    "reply_at c' page (p + n + sum_list (drop (Suc i) ns))" "written c' = written c"
    "m_iSockFd c' = m_iSockFd c" "m_iTriggerMode c' = m_iTriggerMode c" "m_bLinger c' = m_bLinger c"
    "m_sFileStat c' = m_sFileStat c" "m_iEpollFd w' = m_iEpollFd w"
    "wire (m_iSockFd c) (w_calls w') = wire (m_iSockFd c) (w_calls w) @ ?bs @
      take (sum_list (drop (Suc i) ns)) (drop (p + n) (whole_reply c page))"
    by (auto simp del: take_append drop_append)
  have "?bs @ take (sum_list (drop (Suc i) ns)) (drop (p + n) (whole_reply c page)) =
      take (sum_list (drop i ns)) (drop p (whole_reply c page))"
    using parts take_add [of n "sum_list (drop (Suc i) ns)" "drop p (whole_reply c page)"]
    by (simp add: add.commute)
  with run step parts show ?case
    by (intro exI [of _ c'] exI [of _ w']) (simp add: add.assoc)
qed

lemma write_out:
  assumes "reply_at c page p" and "head_unsplit (m_iWriteIdx c) p (ns @ [n])"
    and "\<forall>n \<in> set (ns @ [n]). 0 < n" and "p + sum_list (ns @ [n]) = m_iWriteIdx c + length page"
    and "\<not> m_bLinger c"
  shows "\<exists>c' w'. CHttp_Write (takes (ns @ [n])) c w = Some (Inr (False, c',
      ModFd (m_iEpollFd w) (m_iSockFd c) EPOLLIN (m_iTriggerMode c)
        (emit (Munmap (st_size (m_sFileStat c))) w'))) \<and>
    m_pFileAddr c' = FNull \<and>
    wire (m_iSockFd c) (w_calls w') = wire (m_iSockFd c) (w_calls w) @ drop p (whole_reply c page)"
proof -
  let ?s = "takes (ns @ [n])" and ?q = "p + sum_list ns"
  have unsplit: "head_unsplit W p ns" if "head_unsplit W p (ns @ [n])" for W p
    using that by (induction ns arbitrary: p) auto
  have len: "length (whole_reply c page) = m_iWriteIdx c + length page"
    using written_length assms(1) by (simp add: whole_reply_def reply_at_def)
  from loop_run [of c page p 0 ns ?s w] assms unsplit [OF assms(2)] obtain c1 w1 where
    run: "write_loop ?s 0 c w = write_loop ?s (length ns) c1 w1"
    "reply_at c1 page ?q" "written c1 = written c" "m_iSockFd c1 = m_iSockFd c"
    "m_iTriggerMode c1 = m_iTriggerMode c" "m_bLinger c1 = m_bLinger c" "m_sFileStat c1 = m_sFileStat c"
    "m_iEpollFd w1 = m_iEpollFd w" "wire (m_iSockFd c) (w_calls w1) =
      wire (m_iSockFd c) (w_calls w) @ take (sum_list ns) (drop p (whole_reply c page))"
    by (auto simp: takes_def nth_append)
  have same: "whole_reply c1 page = whole_reply c page" "m_iWriteIdx c1 = m_iWriteIdx c"
    using run(2,3) assms(1) written_length [of c1] written_length [of c]
    by (simp_all add: whole_reply_def reply_at_def)
  let ?bs = "drop ?q (whole_reply c page)"
  have off: "take n (out_cells c1) = map Some ?bs"
    using reply_at_offer [OF run(2)] same assms(4) len by (simp add: take_map)
  have "m_iDataLen c1 \<le> int n" "m_pFileAddr c1 \<noteq> FNull"
    using run(2) same assms(4) by (auto simp: reply_at_def)
  with loop_finishes [of ?s "length ns" n c1 ?bs w1] off run(6) assms(5)
  obtain c' where fin: "write_loop ?s (length ns) c1 w1 = Some (Inr (False, c',
      ModFd (m_iEpollFd w1) (m_iSockFd c1) EPOLLIN (m_iTriggerMode c1)
        (emit (Munmap (st_size (m_sFileStat c1))) (emit (Sent (m_iSockFd c1) ?bs) w1))))"
    "m_pFileAddr c' = FNull" by (auto simp: takes_def nth_append)
  have "take (sum_list ns) (drop p (whole_reply c page)) @ ?bs = drop p (whole_reply c page)"
    using append_take_drop_id [of "sum_list ns" "drop p (whole_reply c page)"]
    by (simp add: add.commute)
  moreover have "m_iDataLen c \<noteq> 0" using assms(1,3,4) by (auto simp: reply_at_def)
  ultimately show ?thesis
    using run fin by (intro exI [of _ c'] exI [of _ "emit (Sent (m_iSockFd c1) ?bs) w1"])
      (simp add: CHttp_Write_def)
qed

section \<open>Properties\<close>


text \<open>A connection with a head of two chars and a page of three to send.\<close>

definition short_reply :: CHttp where
  "short_reply = idle_conn\<lparr>m_aWriteData := store_at 0 ''HH'' (zeros MAX_WRITE_DATA_BUFF_SIZE),
     m_iWriteIdx := 2, m_pFileAddr := FMap ''abc'', m_iIvCount := 2, m_iDataLen := 5,
     m_sIv0 := \<lparr>iov_base = InWrite 0, iov_len = 2\<rparr>, m_sIv1 := \<lparr>iov_base = InFile 0, iov_len = 3\<rparr>\<rparr>"

lemma short_reply_at: "reply_at short_reply ''abc'' 0" "written short_reply = ''HH''"
    "m_iWriteIdx short_reply = 2" "m_iSockFd short_reply = 7" "\<not> m_bLinger short_reply"
    "whole_reply short_reply ''abc'' = ''HHabc''"
  by (simp_all add: reply_at_def short_reply_def idle_conn_def write_inv_def written_def
      whole_reply_def store_at_def zeros_def MAX_WRITE_DATA_BUFF_SIZE_def)


text \<open>
  C20: a reply that goes out. When \<open>writev\<close> takes the rest of head and file, in any number of
  pieces of which none begins and ends strictly inside the head, the peer has received exactly
  the rest of the reply, the file is unmapped, the socket is set to wait for input, and \<open>Write\<close>
  asks for the connection to be closed.
\<close>

theorem write_finishes:
  assumes "reply_at c page p" and "head_unsplit (m_iWriteIdx c) p (ns @ [n])"
    and "\<forall>n \<in> set (ns @ [n]). 0 < n" and "p + sum_list (ns @ [n]) = m_iWriteIdx c + length page"
    and "\<not> m_bLinger c"
  shows "\<exists>c' w'. CHttp_Write (takes (ns @ [n])) c w = Some (Inr (False, c',
      ModFd (m_iEpollFd w) (m_iSockFd c) EPOLLIN (m_iTriggerMode c)
        (emit (Munmap (st_size (m_sFileStat c))) w'))) \<and>
    m_pFileAddr c' = FNull \<and>
    wire (m_iSockFd c) (w_calls w') = wire (m_iSockFd c) (w_calls w) @ drop p (whole_reply c page)"
  using write_out [OF assms] .

lemma write_finishes_witness:
  "\<exists>c' w'. CHttp_Write (takes [1, 2, 2]) short_reply world0 = Some (Inr (False, c', w')) \<and>
    m_pFileAddr c' = FNull \<and> wire 7 (w_calls w') = ''HHabc''"
proof -
  have "takes [1, 2, 2] = takes ([1, 2] @ [2])" by simp
  with write_finishes [OF short_reply_at(1), of "[1, 2]" 2 world0] short_reply_at
  show ?thesis by (auto simp: ModFd_def emit_def world0_def numeral_eq_Suc)
qed


definition split_reply :: CHttp where
  "split_reply = short_reply\<lparr>m_aWriteData := store_at 0 ''HEADER'' (zeros MAX_WRITE_DATA_BUFF_SIZE),
     m_iWriteIdx := 6, m_iDataLen := 9, m_sIv0 := \<lparr>iov_base = InWrite 0, iov_len = 6\<rparr>\<rparr>"

lemma split_reply_at: "reply_at split_reply ''abc'' 0" "written split_reply = ''HEADER''"
    "m_iWriteIdx split_reply = 6" "m_iSockFd split_reply = 7" "\<not> m_bLinger split_reply"
  by (simp_all add: reply_at_def split_reply_def short_reply_def idle_conn_def write_inv_def
      written_def store_at_def zeros_def MAX_WRITE_DATA_BUFF_SIZE_def)


end
