(* ===== verification/Http_Sound.thy ===== *)
theory Http_Sound
  imports Http_Parse
begin

text \<open>
  What holds of every run of the parser on a fresh object, for any input: the invariant
  \<open>parse_inv\<close> says, state by state, what the open token looks like and which fields are final.
  It gives the grammar of the parsed fields and rules out the null-pointer fault.
\<close>

section \<open>Slices of the buffer\<close>

definition slice :: "char list \<Rightarrow> nat \<Rightarrow> nat \<Rightarrow> string" where
  "slice buf b e = take (e - b) (drop b buf)"

lemma slice_Suc: "b \<le> p \<Longrightarrow> p < length buf \<Longrightarrow> slice buf b (Suc p) = slice buf b p @ [buf ! p]"
  by (simp add: slice_def Suc_diff_le take_Suc_conv_app_nth)

lemma slice_self [simp]: "slice buf p p = []"
  by (simp add: slice_def)

lemma slice_one: "p < length buf \<Longrightarrow> slice buf p (Suc p) = [buf ! p]"
  by (simp add: slice_Suc)

lemma sb_string_slice:
  "m_pBegin sb = Some b \<Longrightarrow> m_pEnd sb = Some e \<Longrightarrow> b \<le> e \<Longrightarrow> e \<le> length buf \<Longrightarrow>
   sb_string buf sb = Inr (slice buf b e)"
  by (simp add: sb_string_def slice_def)

section \<open>Tokens grow at the end\<close>

lemma wf_nonempty:
  "wf_method w \<Longrightarrow> w \<noteq> []" "wf_url w \<Longrightarrow> w \<noteq> []" "wf_key w \<Longrightarrow> w \<noteq> []" "wf_value w \<Longrightarrow> w \<noteq> []"
  "wf_protocol w \<Longrightarrow> w \<noteq> []" "wf_version w \<Longrightarrow> w \<noteq> []" "wf_header_key w \<Longrightarrow> w \<noteq> []"
  "wf_header_value w \<Longrightarrow> w \<noteq> []"
  by (simp_all add: wf_method_def wf_url_def wf_key_def wf_value_def wf_protocol_def
      wf_version_def wf_header_key_def wf_header_value_def)

lemma wf_snoc:
  "wf_method w \<Longrightarrow> isupper c \<Longrightarrow> wf_method (w @ [c])"
  "wf_url w \<Longrightarrow> c \<noteq> CHR ''?'' \<Longrightarrow> \<not> isblank c \<Longrightarrow> wf_url (w @ [c])"
  "wf_key w \<Longrightarrow> c \<noteq> CHR ''='' \<Longrightarrow> \<not> isblank c \<Longrightarrow> wf_key (w @ [c])"
  "wf_value w \<Longrightarrow> c \<noteq> CHR ''&'' \<Longrightarrow> \<not> isblank c \<Longrightarrow> wf_value (w @ [c])"
  "wf_protocol w \<Longrightarrow> c \<noteq> CHR ''/'' \<Longrightarrow> wf_protocol (w @ [c])"
  "wf_header_key w \<Longrightarrow> c \<noteq> CHR '':'' \<Longrightarrow> \<not> isblank c \<Longrightarrow> wf_header_key (w @ [c])"
  "wf_header_value w \<Longrightarrow> c \<noteq> CR \<Longrightarrow> wf_header_value (w @ [c])"
  by (auto simp: wf_method_def wf_url_def wf_key_def wf_value_def wf_protocol_def
      wf_header_key_def wf_header_value_def)

lemma wf_one:
  "isupper c \<Longrightarrow> wf_method [c]" "wf_url ''/''"
  "\<not> isblank c \<Longrightarrow> c \<noteq> LF \<Longrightarrow> c \<noteq> CR \<Longrightarrow> wf_key [c]"
  "\<not> isblank c \<Longrightarrow> c \<noteq> LF \<Longrightarrow> c \<noteq> CR \<Longrightarrow> wf_value [c]"
  "\<not> isblank c \<Longrightarrow> wf_protocol [c]" "isdigit c \<Longrightarrow> wf_version [c]"
  "c \<noteq> CR \<Longrightarrow> \<not> isblank c \<Longrightarrow> wf_header_key [c]" "\<not> isblank c \<Longrightarrow> wf_header_value [c]"
  by (simp_all add: wf_method_def wf_url_def wf_key_def wf_value_def wf_protocol_def
      wf_version_def wf_header_key_def wf_header_value_def)

lemma version_rest_snoc: "version_rest w \<Longrightarrow> isdigit c \<Longrightarrow> version_rest (w @ [c])"
  by (induction w rule: version_rest.induct) (auto simp: isdigit_not_special split: if_splits)

lemma version_rest_split:
  "version_rest w \<Longrightarrow> isdigit c \<Longrightarrow> version_rest (w @ [CHR ''.'', c])"
  by (induction w rule: version_rest.induct) (auto simp: isdigit_not_special split: if_splits)

lemma wf_version_snoc: "wf_version w \<Longrightarrow> isdigit c \<Longrightarrow> wf_version (w @ [c])"
  by (auto simp: wf_version_def version_rest_snoc)

lemma wf_version_split: "wf_version w \<Longrightarrow> isdigit c \<Longrightarrow> wf_version ((w @ [CHR ''.'']) @ [c])"
  by (auto simp: wf_version_def version_rest_split)

section \<open>The invariant\<close>

text \<open>How far a state is: which fields of the request line are final in it.\<close>

fun stage :: "HttpRequestDecodeState \<Rightarrow> nat" where
  "stage START = 0" | "stage METHOD = 0" | "stage INVALID = 0" | "stage INVALID_METHOD = 0"
| "stage OPEN = 0"
| "stage BEFORE_URI = 1" | "stage IN_URI = 1"
| "stage BEFORE_URI_PARAM_KEY = 2" | "stage URI_PARAM_KEY = 2"
| "stage BEFORE_URI_PARAM_VALUE = 2" | "stage URI_PARAM_VALUE = 2"
| "stage BEFORE_PROTOCOL = 2" | "stage PROTOCOL = 2" | "stage INVALID_URI = 2"
| "stage BEFORE_VERSION = 3" | "stage VERSION = 3" | "stage VERSION_SPLIT = 3"
| "stage INVALID_VERSION = 3"
| "stage _ = 4"

definition fields_ok :: "SHttpRequest \<Rightarrow> bool" where
  "fields_ok r \<longleftrightarrow>
     (1 \<le> stage (m_eDecodeState r) \<longrightarrow> wf_method (m_strMethod r)) \<and>
     (2 \<le> stage (m_eDecodeState r) \<longrightarrow> wf_url (m_strUrl r)) \<and>
     (3 \<le> stage (m_eDecodeState r) \<longrightarrow> wf_protocol (m_strProtocol r)) \<and>
     (4 \<le> stage (m_eDecodeState r) \<longrightarrow> wf_version (m_strVersion r)) \<and>
     (\<forall>k v. m_mRequestParams r k = Some v \<longrightarrow> wf_key k \<and> wf_value v) \<and>
     (\<forall>k v. m_mHeaders r k = Some v \<longrightarrow> wf_header_key k \<and> wf_header_value v)"

text \<open>\<open>opened buf p P sb\<close>: the token begun at \<open>sb\<close> and read up to \<open>p\<close> satisfies \<open>P\<close>.\<close>

definition opened :: "char list \<Rightarrow> nat \<Rightarrow> (string \<Rightarrow> bool) \<Rightarrow> StringBuffer \<Rightarrow> bool" where
  "opened buf p P sb \<longleftrightarrow> (\<exists>b. m_pBegin sb = Some b \<and> b \<le> p \<and> P (slice buf b p))"

definition closed :: "char list \<Rightarrow> (string \<Rightarrow> bool) \<Rightarrow> StringBuffer \<Rightarrow> bool" where
  "closed buf P sb \<longleftrightarrow>
     (\<exists>b e. m_pBegin sb = Some b \<and> m_pEnd sb = Some e \<and> b \<le> e \<and> e \<le> length buf \<and> P (slice buf b e))"

definition after_dot :: "string \<Rightarrow> bool" where
  "after_dot w \<longleftrightarrow> (\<exists>v. w = v @ ''.'' \<and> wf_version v)"

definition token_ok :: "char list \<Rightarrow> parse \<Rightarrow> bool" where
  "token_ok buf s =
     (case p_state s of
        METHOD \<Rightarrow> opened buf (p_pos s) wf_method (l_method s)
      | IN_URI \<Rightarrow> opened buf (p_pos s) wf_url (l_url s)
      | URI_PARAM_KEY \<Rightarrow> opened buf (p_pos s) wf_key (l_requestParamKey s)
      | BEFORE_URI_PARAM_VALUE \<Rightarrow> closed buf wf_key (l_requestParamKey s)
      | URI_PARAM_VALUE \<Rightarrow> closed buf wf_key (l_requestParamKey s) \<and>
          opened buf (p_pos s) wf_value (l_requestParamValue s)
      | PROTOCOL \<Rightarrow> opened buf (p_pos s) wf_protocol (l_protocol s)
      | VERSION \<Rightarrow> opened buf (p_pos s) wf_version (l_version s)
      | VERSION_SPLIT \<Rightarrow> opened buf (p_pos s) after_dot (l_version s)
      | HEADER_KEY \<Rightarrow> opened buf (p_pos s) wf_header_key (l_headerKey s)
      | HEADER_BEFORE_COLON \<Rightarrow> closed buf wf_header_key (l_headerKey s)
      | HEADER_AFTER_COLON \<Rightarrow> closed buf wf_header_key (l_headerKey s)
      | HEADER_VALUE \<Rightarrow> closed buf wf_header_key (l_headerKey s) \<and>
          opened buf (p_pos s) wf_header_value (l_headerValue s)
      | _ \<Rightarrow> True)"

definition parse_inv :: "char list \<Rightarrow> parse \<Rightarrow> bool" where
  "parse_inv buf s \<longleftrightarrow> p_pos s \<le> length buf \<and> fields_ok (req s) \<and> token_ok buf s"

lemma parse_inv_init: "parse_inv buf (parse_locals (SHttpRequest_Init r))"
  by (simp add: parse_inv_def parse_locals_def SHttpRequest_Init_def fields_ok_def token_ok_def)

text \<open>Opening, growing and closing a token.\<close>

lemma opened_begin: "p < length buf \<Longrightarrow> P [buf ! p] \<Longrightarrow> opened buf (Suc p) P (begin_at p sb)"
  by (simp add: opened_def slice_one)

lemma opened_grow:
  "opened buf p P sb \<Longrightarrow> p < length buf \<Longrightarrow> (\<And>w. P w \<Longrightarrow> Q (w @ [buf ! p])) \<Longrightarrow> opened buf (Suc p) Q sb"
  by (auto simp: opened_def slice_Suc le_SucI)

lemma closed_end: "opened buf p P sb \<Longrightarrow> p \<le> length buf \<Longrightarrow> closed buf P (end_at p sb)"
  by (auto simp: opened_def closed_def)

lemma closed_string: "closed buf P sb \<Longrightarrow> \<exists>w. sb_string buf sb = Inr w \<and> P w"
  by (auto simp: closed_def sb_string_slice)

lemma opened_string: "opened buf p P sb \<Longrightarrow> p \<le> length buf \<Longrightarrow> \<exists>w. sb_string buf (end_at p sb) = Inr w \<and> P w"
  by (rule closed_string [OF closed_end])

lemma map_insert_cases: "map_insert m k v k' = Some v' \<Longrightarrow> m k' = Some v' \<or> k' = k \<and> v' = v"
  by (auto simp: map_insert_def split: option.splits if_splits)

lemma after_dot_snoc: "wf_version w \<Longrightarrow> after_dot (w @ [CHR ''.''])"
  by (auto simp: after_dot_def)

lemma after_dot_version: "after_dot w \<Longrightarrow> isdigit c \<Longrightarrow> wf_version (w @ [c])"
  using wf_version_split by (auto simp: after_dot_def)

text \<open>One step keeps the invariant, and its only faults are the two of the body.\<close>

definition step_ok :: "char list \<Rightarrow> parse \<Rightarrow> parse res \<Rightarrow> bool" where
  "step_ok buf s r = (case r of
     Inl e \<Rightarrow> p_state s = CR_LF_CR \<and> e = IntOverflow \<or> p_state s = BODY \<and> e = OutOfBounds
   | Inr s' \<Rightarrow> parse_inv buf s')"

lemma step_ok_simps [simp]:
  "step_ok buf s (Inr s') = parse_inv buf s'"
  "step_ok buf s (Inl e) =
    (p_state s = CR_LF_CR \<and> e = IntOverflow \<or> p_state s = BODY \<and> e = OutOfBounds)"
  by (simp_all add: step_ok_def)

lemmas inv_defs = parse_inv_def fields_ok_def token_ok_def

lemma switch_inv:
  assumes inv: "parse_inv buf s" and p: "p = p_pos s" "p < length buf"
  shows "step_ok buf s (parse_switch buf sz (buf ! p) p (s\<lparr>req := (req s)\<lparr>m_iNextPos := Suc p\<rparr>\<rparr>))"
proof (cases "p_state s")
  case START
  then show ?thesis using assms by (auto simp: inv_defs parse_switch_def on_START_def intro!: opened_begin wf_one)
next
  case METHOD
  with inv p obtain m where "sb_string buf (end_at p (l_method s)) = Inr m" "wf_method m"
    using opened_string [of buf p wf_method "l_method s"] by (auto simp: inv_defs)
  with METHOD show ?thesis using assms
    by (auto simp: inv_defs parse_switch_def on_METHOD_def Let_def elim!: opened_grow intro: wf_snoc)
next
  case BEFORE_URI
  then show ?thesis using assms by (auto simp: inv_defs parse_switch_def on_BEFORE_URI_def intro!: opened_begin wf_one)
next
  case IN_URI
  with inv p obtain m where "sb_string buf (end_at p (l_url s)) = Inr m" "wf_url m"
    using opened_string [of buf p wf_url "l_url s"] by (auto simp: inv_defs)
  with IN_URI show ?thesis using assms
    by (auto simp: inv_defs parse_switch_def on_IN_URI_def end_url_def Let_def elim!: opened_grow intro: wf_snoc)
next
  case BEFORE_URI_PARAM_KEY
  then show ?thesis using assms by (auto simp: inv_defs parse_switch_def on_BEFORE_URI_PARAM_KEY_def intro!: opened_begin wf_one)
next
  case URI_PARAM_KEY
  then show ?thesis using assms
    by (auto simp: inv_defs parse_switch_def on_URI_PARAM_KEY_def intro: closed_end elim!: opened_grow intro: wf_snoc)
next
  case BEFORE_URI_PARAM_VALUE
  then show ?thesis using assms by (auto simp: inv_defs parse_switch_def on_BEFORE_URI_PARAM_VALUE_def intro!: opened_begin wf_one)
next
  case URI_PARAM_VALUE
  with inv p obtain k v where "sb_string buf (end_at p (l_requestParamValue s)) = Inr v" "wf_value v"
    "sb_string buf (l_requestParamKey s) = Inr k" "wf_key k"
    using opened_string [of buf p wf_value "l_requestParamValue s"]
      closed_string [of buf wf_key "l_requestParamKey s"] by (auto simp: inv_defs)
  with URI_PARAM_VALUE show ?thesis using assms
    by (auto simp: inv_defs parse_switch_def on_URI_PARAM_VALUE_def harvest_param_def Let_def
        dest: map_insert_cases elim!: opened_grow intro: wf_snoc)
next
  case BEFORE_PROTOCOL
  then show ?thesis using assms by (auto simp: inv_defs parse_switch_def on_BEFORE_PROTOCOL_def intro!: opened_begin wf_one)
next
  case PROTOCOL
  with inv p obtain m where "sb_string buf (end_at p (l_protocol s)) = Inr m" "wf_protocol m"
    using opened_string [of buf p wf_protocol "l_protocol s"] by (auto simp: inv_defs)
  with PROTOCOL show ?thesis using assms
    by (auto simp: inv_defs parse_switch_def on_PROTOCOL_def Let_def elim!: opened_grow intro: wf_snoc)
next
  case BEFORE_VERSION
  then show ?thesis using assms by (auto simp: inv_defs parse_switch_def on_BEFORE_VERSION_def intro!: opened_begin wf_one)
next
  case VERSION
  with inv p obtain m where "sb_string buf (end_at p (l_version s)) = Inr m" "wf_version m"
    using opened_string [of buf p wf_version "l_version s"] by (auto simp: inv_defs)
  with VERSION show ?thesis using assms
    by (auto simp: inv_defs parse_switch_def on_VERSION_def Let_def elim!: opened_grow
        intro: wf_version_snoc after_dot_snoc)
next
  case VERSION_SPLIT
  then show ?thesis using assms
    by (auto simp: inv_defs parse_switch_def on_VERSION_SPLIT_def elim!: opened_grow intro: after_dot_version)
next
  case HEADER_KEY
  then show ?thesis using assms
    by (auto simp: inv_defs parse_switch_def on_HEADER_KEY_def intro: closed_end elim!: opened_grow intro: wf_snoc)
next
  case HEADER_BEFORE_COLON
  then show ?thesis using assms by (auto simp: inv_defs parse_switch_def on_HEADER_BEFORE_COLON_def)
next
  case HEADER_AFTER_COLON
  then show ?thesis using assms by (auto simp: inv_defs parse_switch_def on_HEADER_AFTER_COLON_def intro!: opened_begin wf_one)
next
  case HEADER_VALUE
  with inv p obtain k v where "sb_string buf (end_at p (l_headerValue s)) = Inr v" "wf_header_value v"
    "sb_string buf (l_headerKey s) = Inr k" "wf_header_key k"
    using opened_string [of buf p wf_header_value "l_headerValue s"]
      closed_string [of buf wf_header_key "l_headerKey s"] by (auto simp: inv_defs)
  with HEADER_VALUE show ?thesis using assms
    by (auto simp: inv_defs parse_switch_def on_HEADER_VALUE_def Let_def
        dest: map_insert_cases elim!: opened_grow intro: wf_snoc)
next
  case CR_LF
  then show ?thesis using assms by (auto simp: inv_defs parse_switch_def on_CR_LF_def intro!: opened_begin wf_one)
qed (use assms in \<open>auto simp: inv_defs parse_switch_def on_defs split: option.splits\<close>)

section \<open>Properties\<close>

lemma step_inv:
  assumes "parse_inv buf s" and "parse_running sz s" and "sz \<le> length buf"
  shows "step_ok buf s (parse_step buf sz s)"
  using switch_inv [OF assms(1) refl] assms(2,3)
  by (simp add: parse_step_def Let_def parse_running_def)

lemma step_keeps_inv:
  "parse_inv buf s \<Longrightarrow> parse_running sz s \<Longrightarrow> sz \<le> length buf \<Longrightarrow> parse_step buf sz s = Inr s' \<Longrightarrow> parse_inv buf s'"
  using step_inv [of buf s sz] by simp

text \<open>
  The loop always ends, and it ends for a reason. When it does not fault, the request has been
  rejected, is complete, or all \<open>sz\<close> chars have been read; the position never moves back and
  never passes \<open>sz\<close>.
\<close>

theorem parse_outcome:
  assumes "ParseInternal buf sz r = Inr r'"
  shows "m_iNextPos r \<le> m_iNextPos r' \<and> m_iNextPos r' \<le> max sz (m_iNextPos r) \<and>
    (invalid_state (m_eDecodeState r') \<or> m_eDecodeState r' = COMPLETE \<or> sz \<le> m_iNextPos r')"
proof -
  obtain s where run: "parse_loop buf sz (parse_locals r) = Inr s" and r': "r' = req s"
    using assms by (auto simp: ParseInternal_def bind_res_Inr_iff)
  define I where "I s \<longleftrightarrow> m_iNextPos r \<le> p_pos s \<and> p_pos s \<le> max sz (m_iNextPos r)" for s :: parse
  have "I s \<and> \<not> parse_running sz s"
  proof (rule pl.loop_invariant [OF run])
    show "I (parse_locals r)" by (simp add: I_def parse_locals_def)
    show "I s'" if "I s" "parse_running sz s" "parse_step buf sz s = Inr s'" for s s'
      using that parse_step_pos [OF that(3)] by (auto simp: I_def parse_running_def)
  qed
  then show ?thesis by (auto simp: I_def parse_running_def r')
qed



lemma example_run:
  "yields (ParseInternal (render_head example_get) 36 (SHttpRequest_Init blank_request))
     (\<lambda>r. m_iNextPos r = 36 \<and> m_eDecodeState r = BODY \<and> m_strMethod r = ''GET'')"
  by code_simp

lemma parse_outcome_witness:
  "\<exists>r'. ParseInternal (render_head example_get) 36 (SHttpRequest_Init blank_request) = Inr r' \<and>
    m_iNextPos r' \<le> max 36 (m_iNextPos (SHttpRequest_Init blank_request)) \<and>
    m_eDecodeState r' = BODY"
proof -
  from example_run obtain r' where r': "ParseInternal (render_head example_get) 36
      (SHttpRequest_Init blank_request) = Inr r'" "m_eDecodeState r' = BODY" "m_iNextPos r' = 36"
    by (auto elim: yieldsE)
  with parse_outcome [OF r'(1)] show ?thesis by blast
qed



definition contains_word :: "char list \<Rightarrow> string \<Rightarrow> bool" where
  "contains_word buf w = list_ex (\<lambda>i. at buf i w) [0..<length buf]"

lemma not_contains_word: "\<not> contains_word buf w \<Longrightarrow> w \<noteq> [] \<Longrightarrow> \<not> at buf i w"
proof
  assume no: "\<not> contains_word buf w" and "w \<noteq> []" and at: "at buf i w"
  then have "i < length buf" using at_bound [of buf i w] by (cases w) auto
  with no at show False by (auto simp: contains_word_def list_ex_iff)
qed

text \<open>
  Without the word \<open>Content-Length\<close> anywhere in the buffer there is no such header, and in \<open>BODY\<close>
  the length is the rest of the data plus one.
\<close>

lemma slice_at: "at buf b (slice buf b e)"
  by (cases "e \<le> length buf") (simp_all add: at_def slice_def)

definition no_length_inv :: "char list \<Rightarrow> nat \<Rightarrow> parse \<Rightarrow> bool" where
  "no_length_inv buf sz s \<longleftrightarrow> parse_inv buf s \<and> m_mHeaders (req s) ''Content-Length'' = None \<and>
     (p_state s = BODY \<longrightarrow> 0 < p_pos s \<and> l_bodyLength s = int sz - int (p_pos s) + 1)"

lemma header_key_at:
  assumes "parse_inv buf s" and "p_state s = HEADER_VALUE"
  shows "\<exists>b w. at buf b w \<and> sb_string buf (l_headerKey s) = Inr w"
proof -
  from assms obtain b e where "m_pBegin (l_headerKey s) = Some b" "m_pEnd (l_headerKey s) = Some e"
    "b \<le> e" "e \<le> length buf"
    by (auto simp: inv_defs closed_def)
  then have "sb_string buf (l_headerKey s) = Inr (slice buf b e)" by (rule sb_string_slice)
  then show ?thesis using slice_at by blast
qed

lemma no_length_switch:
  assumes "no_length_inv buf sz s" and "\<forall>i. \<not> at buf i ''Content-Length''"
    and "p_pos s < sz" and "sz < length buf"
    and "parse_switch buf sz (buf ! p_pos s) (p_pos s) (s\<lparr>req := (req s)\<lparr>m_iNextPos := Suc (p_pos s)\<rparr>\<rparr>) = Inr s'"
  shows "m_mHeaders (req s') ''Content-Length'' = None \<and>
    (p_state s' = BODY \<longrightarrow> 0 < p_pos s' \<and> l_bodyLength s' = int sz - int (p_pos s') + 1)"
  using assms header_key_at [of buf s]
  by (cases "p_state s")
    (auto simp: no_length_inv_def parse_switch_def on_defs Let_def bind_res_Inr_iff map_insert_def
      split: if_splits option.splits)

lemma no_length_step:
  assumes inv: "no_length_inv buf sz s" and no: "\<forall>i. \<not> at buf i ''Content-Length''"
    and run: "parse_running sz s" and sz: "sz < length buf"
  shows "\<exists>s'. parse_step buf sz s = Inr s' \<and> no_length_inv buf sz s'"
proof (cases "parse_step buf sz s")
  case (Inr s')
  with step_keeps_inv [of buf s sz s'] no_length_switch [OF inv no _ sz, of s'] inv run sz
  show ?thesis by (auto simp: no_length_inv_def parse_step_def Let_def parse_running_def split: if_splits)
next
  case (Inl e)
  with step_inv [of buf s sz] inv run sz
  have "p_state s = CR_LF_CR \<and> e = IntOverflow \<or> p_state s = BODY \<and> e = OutOfBounds"
    by (simp add: no_length_inv_def)
  with Inl inv run sz show ?thesis
    by (auto simp: no_length_inv_def parse_step_def Let_def parse_running_def parse_switch_def
        on_CR_LF_CR_def on_BODY_def split: if_splits)
qed

text \<open>
  C4: memory safety. On any received data in which the word \<open>Content-Length\<close> does not occur, and
  with at least one unused char behind it in the array, parsing from a fresh object never faults:
  no null pointer reaches a \<open>std::string\<close> and nothing outside the array is read.
\<close>

theorem parse_safe:
  assumes "\<not> contains_word buf ''Content-Length''" and "sz < length buf"
  shows "\<exists>r'. ParseInternal buf sz (SHttpRequest_Init r) = Inr r'"
proof -
  have no: "\<forall>i. \<not> at buf i ''Content-Length''" using not_contains_word [OF assms(1)] by simp
  have "no_length_inv buf sz (parse_locals (SHttpRequest_Init r))"
    using parse_inv_init
    by (auto simp: no_length_inv_def parse_locals_def SHttpRequest_Init_def)
  then have "\<exists>t. parse_loop buf sz (parse_locals (SHttpRequest_Init r)) = Inr t \<and>
      no_length_inv buf sz t \<and> \<not> parse_running sz t"
    using no_length_step [OF _ no _ assms(2)] by (intro pl.loop_no_fault) fastforce+
  then show ?thesis by (auto simp: ParseInternal_def)
qed

lemma parse_safe_witness:
  "\<exists>r'. ParseInternal (''GET / x/1'' @ [CR, LF, CR, LF, NUL]) 13 (SHttpRequest_Init blank_request) = Inr r'"
proof (rule parse_safe)
  show "\<not> contains_word (''GET / x/1'' @ [CR, LF, CR, LF, NUL]) ''Content-Length''" by code_simp
qed simp

end
