(* ===== verification/Http_Resume.thy ===== *)
theory Http_Resume
  imports Http_Sound
begin

text \<open>
  A request that arrives in pieces is parsed by several calls of \<open>ParseInternal\<close>. The object keeps
  state and position between them, the local variables do not survive. This theory shows where
  that is harmless and what it does elsewhere.
\<close>

section \<open>Which local variables are live\<close>

definition same_live :: "parse \<Rightarrow> parse \<Rightarrow> bool" where
  "same_live s t \<longleftrightarrow> req s = req t \<and>
     (case p_state s of
        METHOD \<Rightarrow> m_pBegin (l_method s) = m_pBegin (l_method t)
      | IN_URI \<Rightarrow> m_pBegin (l_url s) = m_pBegin (l_url t)
      | URI_PARAM_KEY \<Rightarrow> m_pBegin (l_requestParamKey s) = m_pBegin (l_requestParamKey t)
      | BEFORE_URI_PARAM_VALUE \<Rightarrow> l_requestParamKey s = l_requestParamKey t
      | URI_PARAM_VALUE \<Rightarrow> l_requestParamKey s = l_requestParamKey t \<and>
          m_pBegin (l_requestParamValue s) = m_pBegin (l_requestParamValue t)
      | PROTOCOL \<Rightarrow> m_pBegin (l_protocol s) = m_pBegin (l_protocol t)
      | VERSION \<Rightarrow> m_pBegin (l_version s) = m_pBegin (l_version t)
      | VERSION_SPLIT \<Rightarrow> m_pBegin (l_version s) = m_pBegin (l_version t)
      | HEADER_KEY \<Rightarrow> m_pBegin (l_headerKey s) = m_pBegin (l_headerKey t)
      | HEADER_BEFORE_COLON \<Rightarrow> l_headerKey s = l_headerKey t
      | HEADER_AFTER_COLON \<Rightarrow> l_headerKey s = l_headerKey t
      | HEADER_VALUE \<Rightarrow> l_headerKey s = l_headerKey t \<and>
          m_pBegin (l_headerValue s) = m_pBegin (l_headerValue t)
      | BODY \<Rightarrow> l_bodyLength s = l_bodyLength t
      | _ \<Rightarrow> True)"

lemma end_at_cong: "m_pBegin a = m_pBegin b \<Longrightarrow> end_at p a = end_at p b"
  by (cases a; cases b) simp

lemma same_live_switch:
  assumes "same_live s t"
  shows "rel_sum (=) same_live (parse_switch buf sz ch p s) (parse_switch buf sz ch p t)"
  using assms
  by (cases "p_state s")
    (auto simp: same_live_def parse_switch_def on_defs Let_def bind_res_def
      split: if_splits option.splits sum.splits dest: end_at_cong [of _ _ p])

lemma same_live_step:
  assumes "same_live s t"
  shows "rel_sum (=) same_live (parse_step buf sz s) (parse_step buf sz t)"
proof -
  let ?m = "\<lambda>s. s\<lparr>req := (req s)\<lparr>m_iNextPos := Suc (p_pos s)\<rparr>\<rparr>"
  have "same_live (?m s) (?m t)" "p_pos s = p_pos t"
    using assms by (auto simp: same_live_def split: HttpRequestDecodeState.splits)
  then show ?thesis by (simp add: parse_step_def Let_def same_live_switch)
qed

lemma same_live_loop:
  "same_live s t \<Longrightarrow> rel_sum (=) same_live (parse_loop buf sz s) (parse_loop buf sz t)"
  by (rule pl.loop_simulate [of same_live])
    (auto simp: same_live_step same_live_def parse_running_def)

section \<open>Reading only what was received\<close>

text \<open>The ends of the two buffers that outlive the step that sets them.\<close>

definition ends_before :: "nat \<Rightarrow> parse \<Rightarrow> bool" where
  "ends_before n s \<longleftrightarrow> (\<forall>e. m_pEnd (l_requestParamKey s) = Some e \<longrightarrow> e \<le> n) \<and>
     (\<forall>e. m_pEnd (l_headerKey s) = Some e \<longrightarrow> e \<le> n)"

lemma sb_string_prefix:
  assumes "take n buf1 = take n buf2" and "n \<le> length buf1" and "n \<le> length buf2"
    and "\<forall>e. m_pEnd sb = Some e \<longrightarrow> e \<le> n"
  shows "sb_string buf1 sb = sb_string buf2 sb"
proof (cases "m_pBegin sb"; cases "m_pEnd sb")
  fix b e assume b: "m_pBegin sb = Some b" and e: "m_pEnd sb = Some e"
  have "e \<le> n" using assms(4) e by simp
  then have "take e buf1 = take e buf2" using assms(1) by (metis min.absorb1 take_take)
  then have "take (e - b) (drop b buf1) = take (e - b) (drop b buf2)"
    by (metis drop_take)
  then show ?thesis using assms b e by (simp add: sb_string_def)
qed (simp_all add: sb_string_def)

lemma prefix_switch:
  assumes eq: "take n buf1 = take n buf2" "n \<le> length buf1" "n \<le> length buf2" and "p < n"
    and ends: "ends_before p s"
    and step: "parse_switch buf1 n ch p s = Inr s'" and "p_state s' \<notin> {BODY, COMPLETE}"
  shows "parse_switch buf2 sz ch p s = Inr s' \<and> ends_before (Suc p) s'"
proof -
  have at_p: "sb_string buf1 (end_at p sb) = sb_string buf2 (end_at p sb)" for sb
    using assms(4) by (intro sb_string_prefix [OF eq]) simp
  have keys: "sb_string buf1 (l_requestParamKey s) = sb_string buf2 (l_requestParamKey s)"
    "sb_string buf1 (l_headerKey s) = sb_string buf2 (l_headerKey s)"
    using ends assms(4) by (auto simp: ends_before_def intro!: sb_string_prefix [OF eq] dest: spec)
  show ?thesis
    using ends step assms(7)
    by (cases "p_state s")
      (auto simp: parse_switch_def on_defs Let_def bind_res_Inr_iff at_p keys ends_before_def
        le_SucI split: if_splits option.splits)
qed

lemma prefix_step:
  assumes eq: "take n buf1 = take n buf2" "n \<le> length buf1" "n \<le> length buf2"
    and "parse_running n s" and ends: "ends_before (p_pos s) s"
    and step: "parse_step buf1 n s = Inr s'" and "p_state s' \<notin> {BODY, COMPLETE}"
  shows "parse_step buf2 sz s = Inr s' \<and> ends_before (p_pos s') s'"
proof -
  have p: "p_pos s < n" using assms(4) by (simp add: parse_running_def)
  then have "buf1 ! p_pos s = buf2 ! p_pos s" using eq(1) by (metis nth_take)
  moreover have "ends_before (p_pos s) (s\<lparr>req := (req s)\<lparr>m_iNextPos := Suc (p_pos s)\<rparr>\<rparr>)"
    using ends by (simp add: ends_before_def)
  ultimately show ?thesis
    using prefix_switch [OF eq p, of "s\<lparr>req := (req s)\<lparr>m_iNextPos := Suc (p_pos s)\<rparr>\<rparr>" _ s' sz]
      step assms(7) p eq parse_step_pos [OF step]
    by (auto simp: parse_step_def Let_def split: if_splits)
qed

text \<open>Once in \<open>BODY\<close> or \<open>COMPLETE\<close>, a run stays there.\<close>

lemma final_loop:
  assumes "parse_loop buf sz s = Inr t" and "p_state s \<in> {BODY, COMPLETE}"
  shows "p_state t \<in> {BODY, COMPLETE}"
proof -
  have keep: "p_state s' \<in> {BODY, COMPLETE}"
    if "p_state s \<in> {BODY, COMPLETE}" "parse_step buf sz s = Inr s'" for s s'
    using that by (auto simp: parse_step_def Let_def parse_switch_def on_BODY_def split: if_splits)
  have "p_state t \<in> {BODY, COMPLETE} \<and> \<not> parse_running sz t"
    using assms(1) by (rule pl.loop_invariant [where I = "\<lambda>s. p_state s \<in> {BODY, COMPLETE}"])
      (use assms(2) keep in blast)+
  then show ?thesis ..
qed

lemma prefix_loop:
  assumes eq: "take n buf1 = take n buf2" "n \<le> length buf1" "n \<le> length buf2" and "n \<le> sz"
    and "parse_loop buf1 n s = Inr t" and "ends_before (p_pos s) s"
    and "p_state t \<notin> {BODY, COMPLETE}"
  shows "parse_loop buf2 sz s = parse_loop buf2 sz t"
  using assms(5-7)
proof (induction "n - p_pos s" arbitrary: s rule: less_induct)
  case less
  show ?case
  proof (cases "parse_running n s")
    case False
    with less.prems show ?thesis by (simp add: pl.loop_stop)
  next
    case True
    then obtain s' where step: "parse_step buf1 n s = Inr s'" and rest: "parse_loop buf1 n s' = Inr t"
      using less.prems by (cases "parse_step buf1 n s") (simp_all add: pl.loop_fault pl.loop_step)
    have s': "p_state s' \<notin> {BODY, COMPLETE}" using final_loop [OF rest] less.prems by blast
    from prefix_step [OF eq True less.prems(2) step s', of sz]
    have "parse_step buf2 sz s = Inr s'" and ends: "ends_before (p_pos s') s'" by auto
    then have "parse_loop buf2 sz s = parse_loop buf2 sz s'"
      using True assms(4) by (intro pl.loop_step) (auto simp: parse_running_def)
    also have "\<dots> = parse_loop buf2 sz t"
    proof (rule less.hyps [OF _ rest ends less.prems(3)])
      show "n - p_pos s' < n - p_pos s"
        using True parse_step_pos [OF step] by (auto simp: parse_running_def)
    qed
    finally show ?thesis .
  qed
qed

section \<open>Properties\<close>

definition boundary :: "HttpRequestDecodeState \<Rightarrow> bool" where
  "boundary st \<longleftrightarrow> invalid_state st \<or>
     st \<in> {START, BEFORE_URI, BEFORE_URI_PARAM_KEY, BEFORE_PROTOCOL, BEFORE_VERSION,
       WHEN_CR, CR_LF, CR_LF_CR}"

text \<open>
  C29: incremental parsing. If the data received so far ends between two tokens, parsing it and
  later parsing the longer data with the same object gives what one call on all the data gives.
  The array may change behind the first \<open>n\<close> chars between the calls, as \<open>recv\<close> does.
\<close>

theorem resume_at_boundary:
  assumes "take n buf1 = take n buf2" and "n \<le> length buf1" and "n \<le> length buf2" and "n \<le> sz"
    and first: "ParseInternal buf1 n r = Inr r1" and "boundary (m_eDecodeState r1)"
  shows "ParseInternal buf2 sz r1 = ParseInternal buf2 sz r"
proof -
  obtain t where run: "parse_loop buf1 n (parse_locals r) = Inr t" and r1: "r1 = req t"
    using first by (auto simp: ParseInternal_def bind_res_Inr_iff)
  have st: "p_state t \<notin> {BODY, COMPLETE}" using assms(6) r1 by (auto simp: boundary_def invalid_state_def)
  have "ends_before (p_pos (parse_locals r)) (parse_locals r)"
    by (simp add: ends_before_def parse_locals_def null_buffer_def)
  then have all: "parse_loop buf2 sz (parse_locals r) = parse_loop buf2 sz t"
    using prefix_loop [OF assms(1-4) run] st by blast
  have "same_live (parse_locals r1) t"
    using assms(6) r1 by (auto simp: same_live_def boundary_def invalid_state_def parse_locals_def)
  then have "rel_sum (=) same_live (parse_loop buf2 sz (parse_locals r1)) (parse_loop buf2 sz t)"
    by (rule same_live_loop)
  then show ?thesis
    by (cases rule: rel_sum.cases) (simp_all add: ParseInternal_def all same_live_def)
qed

definition half_get :: "char list" where
  "half_get = ''GET / HTTP/1.1'' @ [CR]"

lemma resume_at_boundary_witness:
  "\<exists>r1. ParseInternal (half_get @ [NUL, NUL, NUL, NUL]) 15 (SHttpRequest_Init blank_request) = Inr r1 \<and>
    m_eDecodeState r1 = WHEN_CR \<and>
    ParseInternal (half_get @ [LF, CR, LF, NUL]) 18 r1 =
    ParseInternal (half_get @ [LF, CR, LF, NUL]) 18 (SHttpRequest_Init blank_request)"
proof -
  have "yields (ParseInternal (half_get @ [NUL, NUL, NUL, NUL]) 15 (SHttpRequest_Init blank_request))
      (\<lambda>r. m_eDecodeState r = WHEN_CR)"
    by code_simp
  then obtain r1 where r1: "ParseInternal (half_get @ [NUL, NUL, NUL, NUL]) 15
      (SHttpRequest_Init blank_request) = Inr r1" "m_eDecodeState r1 = WHEN_CR"
    by (auto elim: yieldsE)
  have "take 15 (half_get @ [NUL, NUL, NUL, NUL]) = take 15 (half_get @ [LF, CR, LF, NUL])"
    "15 \<le> length (half_get @ [NUL, NUL, NUL, NUL])" "15 \<le> length (half_get @ [LF, CR, LF, NUL])"
    by (simp_all add: half_get_def)
  from resume_at_boundary [OF this _ r1(1), of 18] r1 show ?thesis by (simp add: boundary_def)
qed

text \<open>
  The tokens whose text is copied when they end: the chars that continue one and the chars that
  close it.
\<close>

fun continues :: "HttpRequestDecodeState \<Rightarrow> char \<Rightarrow> bool" where
  "continues METHOD c = isupper c"
| "continues IN_URI c = (c \<noteq> CHR ''?'' \<and> \<not> isblank c)"
| "continues URI_PARAM_VALUE c = (c \<noteq> CHR ''&'' \<and> \<not> isblank c)"
| "continues PROTOCOL c = (c \<noteq> CHR ''/'')"
| "continues VERSION c = isdigit c"
| "continues HEADER_VALUE c = (c \<noteq> CR)"
| "continues _ c = False"

fun closes :: "HttpRequestDecodeState \<Rightarrow> char \<Rightarrow> bool" where
  "closes METHOD c = isblank c"
| "closes IN_URI c = (c = CHR ''?'' \<or> isblank c)"
| "closes URI_PARAM_VALUE c = (c = CHR ''&'' \<or> isblank c)"
| "closes PROTOCOL c = (c = CHR ''/'')"
| "closes VERSION c = (c = CR)"
| "closes HEADER_VALUE c = (c = CR)"
| "closes _ c = False"

lemma closes_live: "closes st c \<Longrightarrow> live st"
  by (cases st) simp_all

lemma continues_stays: "continues st c \<Longrightarrow> stays buf sz st c"
  by (cases st) (auto intro: stays_simps)

lemma closes_fresh_fault:
  assumes "closes (p_state s) c" and "req s' = (req s)\<lparr>m_iNextPos := q\<rparr>"
    and "s' = (parse_locals r)\<lparr>req := req s'\<rparr>"
  shows "parse_switch buf sz c p s' = Inl NullRange"
  using assms(1,2) isupper_not_blank
  by (subst assms(3), cases "p_state s")
    (auto simp: parse_switch_def on_defs Let_def sb_string_def parse_locals_def null_buffer_def)



text \<open>
  When the cut is between the colon of a header and its value, nothing faults, but the name
  of the header is lost: the value is stored under the empty name.
\<close>

theorem resume_loses_header_name:
  assumes "m_eDecodeState r = HEADER_AFTER_COLON" and "wf_header_value v"
    and at: "at buf (m_iNextPos r) (v @ [CR])"
  shows "ParseInternal buf (Suc (m_iNextPos r + length v)) r =
    Inr (r\<lparr>m_mHeaders := map_insert (m_mHeaders r) [] v, m_eDecodeState := WHEN_CR,
      m_iNextPos := Suc (m_iNextPos r + length v)\<rparr>)"
proof -
  let ?p = "m_iNextPos r"
  let ?q = "?p + length v"
  let ?s = "parse_locals r"
  let ?t = "?s\<lparr>l_headerValue := \<lparr>m_pBegin = Some ?p, m_pEnd = Some ?q\<rparr>,
    req := r\<lparr>m_iNextPos := Suc ?q, m_mHeaders := map_insert (m_mHeaders r) [] v,
      m_eDecodeState := WHEN_CR\<rparr>\<rparr>"
  have key: "sb_string buf null_buffer = Inr []"
    by (simp add: sb_string_def null_buffer_def)
  from assms(2) have v: "v \<noteq> []" "\<not> isblank (hd v)" "\<forall>c \<in> set (tl v). stays buf (Suc ?q) HEADER_VALUE c"
    by (auto simp: wf_header_value_def stays_simps)
  have "parse_loop buf (Suc ?q) ?s = parse_loop buf (Suc ?q) ?t"
    using v assms key sb_string_token' [OF at, of "\<lparr>m_pBegin = Some ?p, m_pEnd = Some ?q\<rparr>"]
    by (intro parse_token_end [where w = v and b = CR])
      (auto simp: parse_switch_def on_HEADER_AFTER_COLON_def on_HEADER_VALUE_def parse_locals_def
        null_buffer_def Let_def)
  also have "\<dots> = Inr ?t" by (rule pl.loop_stop) (simp add: parse_running_def)
  finally show ?thesis by (simp add: ParseInternal_def)
qed

lemma resume_loses_header_name_witness:
  "\<exists>r1. ParseInternal (''G /a P/1'' @ [CR, LF] @ ''Host:'' @ [NUL, NUL]) 15
      (SHttpRequest_Init blank_request) = Inr r1 \<and>
    ParseInternal (''G /a P/1'' @ [CR, LF] @ ''Host:h'' @ [CR]) 17 r1 =
      Inr (r1\<lparr>m_mHeaders := map_insert (m_mHeaders r1) [] ''h'', m_eDecodeState := WHEN_CR,
        m_iNextPos := 17\<rparr>)"
proof -
  have "yields (ParseInternal (''G /a P/1'' @ [CR, LF] @ ''Host:'' @ [NUL, NUL]) 15
      (SHttpRequest_Init blank_request))
      (\<lambda>r. m_eDecodeState r = HEADER_AFTER_COLON \<and> m_iNextPos r = 15)"
    by code_simp
  then obtain r1 where r1: "ParseInternal (''G /a P/1'' @ [CR, LF] @ ''Host:'' @ [NUL, NUL]) 15
      (SHttpRequest_Init blank_request) = Inr r1"
    "m_eDecodeState r1 = HEADER_AFTER_COLON" "m_iNextPos r1 = 15"
    by (auto elim: yieldsE)
  have "at (''G /a P/1'' @ [CR, LF] @ ''Host:h'' @ [CR]) (m_iNextPos r1) (''h'' @ [CR])"
    by (simp add: r1 at_def)
  from resume_loses_header_name [OF r1(2) _ this] r1 show ?thesis
    by (simp add: wf_header_value_def isblank_def)
qed

text \<open>
  When the cut is between header and body, the body is lost: the length computed at the end
  of the header was a local variable, so the next call completes with an empty body.
\<close>

theorem resume_loses_body:
  assumes "m_eDecodeState r = BODY" and "m_iNextPos r < sz" and "m_iNextPos r < length buf"
  shows "ParseInternal buf sz r = Inr (r\<lparr>m_strBody := [], m_eDecodeState := COMPLETE,
    m_iNextPos := Suc (m_iNextPos r)\<rparr>)"
proof -
  let ?t = "(parse_locals r)\<lparr>req := r\<lparr>m_strBody := [], m_eDecodeState := COMPLETE,
    m_iNextPos := Suc (m_iNextPos r)\<rparr>\<rparr>"
  have "parse_loop buf sz (parse_locals r) = parse_loop buf sz ?t"
    using assms
    by (intro parse_once [where c = "buf ! m_iNextPos r"])
      (auto simp: parse_locals_def at_Cons parse_switch_def on_BODY_def)
  also have "\<dots> = Inr ?t" by (rule pl.loop_stop) (simp add: parse_running_def)
  finally show ?thesis by (simp add: ParseInternal_def)
qed

lemma resume_loses_body_witness:
  "\<exists>r1. ParseInternal (render_head example_post @ [NUL, NUL, NUL]) 39
      (SHttpRequest_Init blank_request) = Inr r1 \<and>
    ParseInternal (render_head example_post @ ''abc'') 42 r1 =
      Inr (r1\<lparr>m_strBody := [], m_eDecodeState := COMPLETE, m_iNextPos := 40\<rparr>)"
proof -
  have "yields (ParseInternal (render_head example_post @ [NUL, NUL, NUL]) 39
      (SHttpRequest_Init blank_request)) (\<lambda>r. m_eDecodeState r = BODY \<and> m_iNextPos r = 39)"
    by code_simp
  then obtain r1 where r1: "ParseInternal (render_head example_post @ [NUL, NUL, NUL]) 39
      (SHttpRequest_Init blank_request) = Inr r1" "m_eDecodeState r1 = BODY" "m_iNextPos r1 = 39"
    by (auto elim: yieldsE)
  have len: "length (render_head example_post @ ''abc'') = 42" by code_simp
  from resume_loses_body [OF r1(2), of 42 "render_head example_post @ ''abc''"] r1 len
  show ?thesis by simp
qed

end
