(* ===== verification/Http_Life.thy ===== *)
theory Http_Life
  imports Http_Serve
begin

text \<open>
  The life of a connection: a step relation over the public operations of \<open>CHttp\<close>, and what holds
  in every reachable state.
\<close>

section \<open>What each operation changes\<close>

lemma add_part_frame:
  assumes "write_inv c"
  shows "write_inv (snd (AddStatusLine code title c)) \<and>
      rest_of (snd (AddStatusLine code title c)) = rest_of c"
    and "write_inv (snd (AddHeaders n c)) \<and> rest_of (snd (AddHeaders n c)) = rest_of c"
    and "write_inv (snd (AddContent form c)) \<and> rest_of (snd (AddContent form c)) = rest_of c"
  using wb.add_inv [OF assms] wb.add_frame [OF assms] wb.lines_prefix [OF assms]
  by (simp_all add: AddStatusLine_line AddHeaders_lines [OF assms] AddContent_def)

lemma error_reply_frame:
  assumes "write_inv c"
  shows "write_inv (snd (error_reply code title form c)) \<and>
    rest_of (snd (error_reply code title form c)) = rest_of c"
proof -
  note c1 = add_part_frame(1) [OF assms, of code title]
  note c2 = add_part_frame(2) [OF c1 [THEN conjunct1], of "int (length form)"]
  note c3 = add_part_frame(3) [OF c2 [THEN conjunct1], of form]
  show ?thesis unfolding error_reply_def Let_def
    using c3 c2 c1 by (metis (no_types))
qed

text \<open>The part of a connection that building a reply leaves alone.\<close>

definition input_of :: "CHttp \<Rightarrow> int \<times> int \<times> string \<times> nat \<times> bool \<times> int" where
  "input_of c = (m_iSockFd c, m_iTriggerMode c, m_aReadData c, m_iReadIdx c, m_bLinger c, m_iDataSendLen c)"

lemma rest_of_input:
  assumes "rest_of c' = rest_of c"
  shows "input_of c' = input_of c"
  unfolding input_of_def rest_of_fields [OF assms] ..

lemma error_reply_input:
  assumes "write_inv c" and "error_reply code title form c = (b, c')"
  shows "write_inv c' \<and> input_of c' = input_of c"
proof -
  have "write_inv c'" "rest_of c' = rest_of c"
    using error_reply_frame [OF assms(1), of code title form] unfolding assms(2) by simp_all
  then show ?thesis using rest_of_input by blast
qed

lemma file_reply_input:
  assumes "write_inv c" and "file_reply k c w = (b, c', w')"
  shows "write_inv c' \<and> input_of c' = input_of c \<and> w' = emit (CloseFd (k_open k (m_aFile c))) w"
proof -
  let ?c1 = "c\<lparr>m_pFileAddr := k_mmap k (st_size (m_sFileStat c)) (k_open k (m_aFile c))\<rparr>"
  let ?c2 = "snd (AddStatusLine 200 ok_200_title ?c1)"
  let ?c3 = "snd (AddHeaders (st_size (m_sFileStat c)) ?c2)"
  have c1: "write_inv ?c1" using assms(1) by (simp add: write_inv_def)
  have c2: "write_inv ?c2" "rest_of ?c2 = rest_of ?c1" using add_part_frame(1) [OF c1] by simp_all
  have c3: "write_inv ?c3" "rest_of ?c3 = rest_of ?c1" using add_part_frame(2) [OF c2(1)] c2(2) by simp_all
  show ?thesis
    using assms(2) c3(1) rest_of_input [OF c3(2)]
    by (auto simp: file_reply_def Let_def write_inv_def input_of_def)
qed

lemma ParseWrite_frame:
  assumes "write_inv c" and "ParseWrite k status c w = (b, c', w')"
  shows "write_inv c' \<and> input_of c' = input_of c \<and>
    (w' = w \<or> w' = emit (CloseFd (k_open k (m_aFile c))) w)"
proof -
  have stat: "write_inv (c\<lparr>m_sFileStat := st\<rparr>)" "input_of (c\<lparr>m_sFileStat := st\<rparr>) = input_of c" for st
    using assms(1) by (simp_all add: write_inv_def input_of_def)
  note f = file_reply_input [OF stat(1)]
  note e = error_reply_input [OF assms(1)] error_reply_input [OF stat(1)]
  show ?thesis
    using assms(2)
    by (auto simp: ParseWrite_def Let_def stat(2) split: if_splits option.splits prod.splits
        dest!: e f)
qed

lemma ParseRead_frame:
  assumes "ParseRead c = Inr (status, c')"
  shows "\<exists>r. c' = c\<lparr>m_sHttpParse := r\<rparr>"
  using assms by (auto simp: ParseRead_def Let_def bind_res_Inr_iff split: if_splits)

text \<open>The three ways \<open>HttpParse\<close> ends.\<close>

lemma HttpParse_cases:
  assumes "write_inv c" and "HttpParse k c w = Inr (c', w')"
  obtains (wait) c1 where "ParseRead c = Inr (OPEN, c1)" "c' = c1" "input_of c1 = input_of c" "write_inv c1"
      "w' = ModFd (m_iEpollFd w) (m_iSockFd c) EPOLLIN (m_iTriggerMode c) w"
  | (reply) status c1 w1 where "ParseRead c = Inr (status, c1)" "status \<noteq> OPEN"
      "input_of c' = input_of c" "write_inv c'"
      "w1 = w \<or> w1 = emit (CloseFd (k_open k (m_aFile c))) w"
      "w' = ModFd (m_iEpollFd w) (m_iSockFd c) EPOLLOUT (m_iTriggerMode c) w1"
  | (close) status c1 c2 w1 where "ParseRead c = Inr (status, c1)" "status \<noteq> OPEN"
      "input_of c2 = input_of c" "write_inv c2"
      "w1 = w \<or> w1 = emit (CloseFd (k_open k (m_aFile c))) w" "(c', w') = CloseHttp c2 w1"
proof -
  from assms(2) obtain status c1 where r: "ParseRead c = Inr (status, c1)"
    by (auto simp: HttpParse_def bind_res_Inr_iff)
  obtain p where c1: "c1 = c\<lparr>m_sHttpParse := p\<rparr>" using ParseRead_frame [OF r] by blast
  have inv1: "write_inv c1" "input_of c1 = input_of c" "m_aFile c1 = m_aFile c"
    using assms(1) c1 by (simp_all add: write_inv_def input_of_def)
  show ?thesis
  proof (cases "status = OPEN")
    case True
    with assms(2) r inv1 c1 show ?thesis by (intro wait [of c1]) (auto simp: HttpParse_def)
  next
    case False
    obtain ret c2 w2 where pw: "ParseWrite k status c1 w = (ret, c2, w2)"
      by (cases "ParseWrite k status c1 w") auto
    note f = ParseWrite_frame [OF inv1(1) pw]
    from f inv1 have same: "m_iSockFd c2 = m_iSockFd c" "m_iTriggerMode c2 = m_iTriggerMode c"
      "m_iEpollFd w2 = m_iEpollFd w" by (auto simp: input_of_def)
    show ?thesis
    proof (cases ret)
      case True
      with assms(2) r pw False have "c' = c2"
        "w' = ModFd (m_iEpollFd w2) (m_iSockFd c2) EPOLLOUT (m_iTriggerMode c2) w2"
        by (auto simp: HttpParse_def)
      then show ?thesis using reply [OF r False, of w2] f inv1 same by auto
    next
      case ret: False
      with assms(2) r pw False have "(c', w') = CloseHttp c2 w2"
        by (auto simp: HttpParse_def)
      then show ?thesis using close [OF r False, of c2 w2] f inv1 by auto
    qed
  qed
qed

text \<open>The calls a sending loop adds: data for the socket, then at most an unmapping and a re-arming.\<close>

definition sending_calls :: "int \<Rightarrow> sys_call list \<Rightarrow> bool" where
  "sending_calls fd cs \<longleftrightarrow> (\<forall>x \<in> set cs. (\<exists>bs. x = Sent fd bs) \<or> (\<exists>n. x = Munmap n))"

lemma sending_calls_simps [simp]:
  "sending_calls fd []" "sending_calls fd (cs @ ds) = (sending_calls fd cs \<and> sending_calls fd ds)"
  "sending_calls fd [Sent fd bs]" "sending_calls fd [Munmap n]"
  by (auto simp: sending_calls_def)

lemma sending_interest: "sending_calls fd cs \<Longrightarrow> interest cs m = m"
proof (induction cs)
  case (Cons x cs)
  then show ?case by (cases x) (auto simp: sending_calls_def)
qed simp

lemma unmmap_effect:
  assumes "unmmap c w = (c', w')"
  shows "c' = c\<lparr>m_pFileAddr := FNull\<rparr> \<and>
    (\<exists>cs. w' = w\<lparr>w_calls := w_calls w @ cs\<rparr> \<and> sending_calls fd cs)"
proof (cases "m_pFileAddr c = FNull")
  case True
  have "c\<lparr>m_pFileAddr := m_pFileAddr c\<rparr> = c" by simp
  with True assms show ?thesis by (auto simp: unmmap_def intro!: exI [of _ "[]"])
next
  case False
  with assms show ?thesis by (auto simp: unmmap_def emit_def intro!: exI [of _ "[Munmap (st_size (m_sFileStat c))]"])
qed

text \<open>What a sending loop leaves alone; the re-arming it ends with is \<open>ends\<close>.\<close>

definition stable_of :: "CHttp \<Rightarrow> int \<times> int \<times> string \<times> nat \<times> string \<times> nat \<times> bool" where
  "stable_of c = (m_iSockFd c, m_iTriggerMode c, m_aReadData c, m_iReadIdx c, m_aWriteData c,
     m_iWriteIdx c, m_bLinger c)"

lemma stable_conn_inv: "stable_of c' = stable_of c \<Longrightarrow> conn_inv c' = conn_inv c"
  by (simp add: stable_of_def conn_inv_def write_inv_def)

lemma advance_stable: "stable_of (advance_iov c) = stable_of c"
  by (simp add: stable_of_def advance_iov_def)

inductive loop_ends :: "int \<Rightarrow> bool \<Rightarrow> CHttp \<Rightarrow> world \<Rightarrow> CHttp \<Rightarrow> world \<Rightarrow> bool" for fd where
  again: "loop_ends fd True c w c' (w\<lparr>w_calls := w_calls w @ cs @
      [EpollMod (m_iEpollFd w) fd (mod_events EPOLLOUT (m_iTriggerMode c))]\<rparr>)"
    if "stable_of c' = stable_of c" "sending_calls fd cs"
| failed: "loop_ends fd False c w c' (w\<lparr>w_calls := w_calls w @ cs\<rparr>)"
    if "stable_of c' = stable_of c" "sending_calls fd cs"
| finished: "loop_ends fd False c w c' (w\<lparr>w_calls := w_calls w @ cs @
      [EpollMod (m_iEpollFd w) fd (mod_events EPOLLIN (m_iTriggerMode c))]\<rparr>)"
    if "stable_of c' = stable_of c" "sending_calls fd cs"

lemma loop_ends_later:
  assumes "loop_ends fd b c1 w1 c' w'" and "stable_of c1 = stable_of c"
    and "w1 = w\<lparr>w_calls := w_calls w @ ds\<rparr>" and "sending_calls fd ds"
  shows "loop_ends fd b c w c' w'"
  using assms(1)
proof cases
  case (again cs)
  then show ?thesis
    using loop_ends.again [of c' c fd "ds @ cs" w] assms(2-4) by (simp add: stable_of_def)
next
  case (failed cs)
  then show ?thesis using loop_ends.failed [of c' c fd "ds @ cs" w] assms(2-4) by simp
next
  case (finished cs)
  then show ?thesis
    using loop_ends.finished [of c' c fd "ds @ cs" w] assms(2-4) by (simp add: stable_of_def)
qed

lemma loop_ends_finish:
  assumes "unmmap c w = (c', w')" and "m_iSockFd c = fd"
  shows "loop_ends fd False c w c' w'"
    and "loop_ends fd False c w c' (ModFd (m_iEpollFd w') (m_iSockFd c') EPOLLIN (m_iTriggerMode c') w')"
proof -
  obtain cs where cs: "c' = c\<lparr>m_pFileAddr := FNull\<rparr>" "w' = w\<lparr>w_calls := w_calls w @ cs\<rparr>"
    "sending_calls fd cs" using unmmap_effect [OF assms(1)] by blast
  then have "stable_of c' = stable_of c" by (simp add: stable_of_def)
  with cs assms(2) show "loop_ends fd False c w c' w'"
    "loop_ends fd False c w c' (ModFd (m_iEpollFd w') (m_iSockFd c') EPOLLIN (m_iTriggerMode c') w')"
    using loop_ends.failed [of c' c fd cs w] loop_ends.finished [of c' c fd cs w]
    by (simp_all add: ModFd_def emit_def)
qed

lemma write_loop_ends:
  assumes "write_loop writev i c w = Some (Inr (b, c', w'))" and "m_iSockFd c = fd" and "\<not> m_bLinger c"
  shows "loop_ends fd b c w c' w'"
proof -
  have "case y of Inl e \<Rightarrow> True | Inr (b, c', w') \<Rightarrow>
      m_iSockFd c = fd \<longrightarrow> \<not> m_bLinger c \<longrightarrow> loop_ends fd b c w c' w'"
    if "write_loop writev i c w = Some y" for y
  proof (rule write_loop.raw_induct [OF _ that,
      where P = "\<lambda>writev i c w y. case y of Inl e \<Rightarrow> True | Inr (b, c', w') \<Rightarrow>
        m_iSockFd c = fd \<longrightarrow> \<not> m_bLinger c \<longrightarrow> loop_ends fd b c w c' w'"])
    fix loop :: "sender \<Rightarrow> nat \<Rightarrow> CHttp \<Rightarrow> world \<Rightarrow> (bool \<times> CHttp \<times> world) res option"
      and sendr :: sender and i c w y
    assume IH: "\<And>sendr i c w y. loop sendr i c w = Some y \<Longrightarrow>
      case y of Inl e \<Rightarrow> True | Inr (b, c', w') \<Rightarrow>
        m_iSockFd c = fd \<longrightarrow> \<not> m_bLinger c \<longrightarrow> loop_ends fd b c w c' w'"
    assume body: "(case sendr i of
        WriteErr e \<Rightarrow>
          if e = EAGAIN then
            Some (Inr (True, c, ModFd (m_iEpollFd w) (m_iSockFd c) EPOLLOUT (m_iTriggerMode c) w))
          else (case unmmap c w of (c', w') \<Rightarrow> Some (Inr (False, c', w')))
      | Wrote n \<Rightarrow>
          let bytes = take (nat n) (out_cells c) in
          if None \<in> set bytes then Some (Inl OutOfBounds)
          else
            let w1 = emit (Sent (m_iSockFd c) (map the bytes)) w;
                c1 = c\<lparr>m_iDataSendLen := m_iDataSendLen c + n, m_iDataLen := m_iDataLen c - n\<rparr>
            in if m_iDataLen c1 \<le> 0 then
                 (case unmmap c1 w1 of (c2, w2) \<Rightarrow>
                    let w3 = ModFd (m_iEpollFd w2) (m_iSockFd c2) EPOLLIN (m_iTriggerMode c2) w2 in
                    if m_bLinger c2 then Some (Inr (True, reset_buffers c2, w3))
                    else Some (Inr (False, c2, w3)))
               else loop sendr (Suc i) (advance_iov c1) w1) = Some y"
    show "case y of Inl e \<Rightarrow> True | Inr (b, c', w') \<Rightarrow>
        m_iSockFd c = fd \<longrightarrow> \<not> m_bLinger c \<longrightarrow> loop_ends fd b c w c' w'"
    proof (cases "sendr i")
      case (WriteErr e)
      with body show ?thesis
        using loop_ends.again [of c c fd "[]" w]
        by (auto simp: ModFd_def emit_def split: if_splits prod.splits intro: loop_ends_finish)
    next
      case (Wrote n)
      let ?bytes = "take (nat n) (out_cells c)"
      let ?w1 = "emit (Sent (m_iSockFd c) (map the ?bytes)) w"
      let ?c1 = "c\<lparr>m_iDataSendLen := m_iDataSendLen c + n, m_iDataLen := m_iDataLen c - n\<rparr>"
      have st: "stable_of ?c1 = stable_of c" "stable_of (advance_iov ?c1) = stable_of c"
        by (simp_all add: advance_stable) (simp_all add: stable_of_def)
      have w1: "?w1 = w\<lparr>w_calls := w_calls w @ [Sent (m_iSockFd c) (map the ?bytes)]\<rparr>"
        by (simp add: emit_def)
      have later: "loop_ends fd b c w c' w'"
        if "loop_ends fd b c2 ?w1 c' w'" "stable_of c2 = stable_of c" "m_iSockFd c = fd" for b c2 c' w'
        using loop_ends_later [OF that(1,2) w1] that(3) by simp
      consider "None \<in> set ?bytes" | "None \<notin> set ?bytes" "m_iDataLen ?c1 \<le> 0"
        | "None \<notin> set ?bytes" "0 < m_iDataLen ?c1" by linarith
      then show ?thesis
      proof cases
        case 1
        with \<open>sendr i = Wrote n\<close> show ?thesis using body by auto
      next
        case 2
        obtain c2 w2 where u: "unmmap ?c1 ?w1 = (c2, w2)" by (cases "unmmap ?c1 ?w1")
        have "m_bLinger c2 = m_bLinger c" using unmmap_effect [OF u] by auto
        moreover have "loop_ends fd False c w c2
            (ModFd (m_iEpollFd w2) (m_iSockFd c2) EPOLLIN (m_iTriggerMode c2) w2)" if "m_iSockFd c = fd"
          using later [OF loop_ends_finish(2) [OF u] st(1) that] that by simp
        ultimately show ?thesis using 2 u \<open>sendr i = Wrote n\<close> body by (auto simp: Let_def)
      next
        case 3
        with \<open>sendr i = Wrote n\<close> body have "loop sendr (Suc i) (advance_iov ?c1) ?w1 = Some y"
          by (simp add: Let_def)
        note IH' = IH [OF this]
        show ?thesis
        proof (cases y)
          case (Inr r)
          obtain b' c2 w2 where r: "r = (b', c2, w2)" by (cases r)
          have "m_iSockFd (advance_iov ?c1) = m_iSockFd c" "m_bLinger (advance_iov ?c1) = m_bLinger c"
            using st(2) by (simp_all only: stable_of_def prod.inject)
          with IH' Inr r show ?thesis using later [OF _ st(2)] by auto
        qed simp
      qed
    qed
  qed
  from this [OF assms(1)] assms(2,3) show ?thesis by simp
qed

section \<open>The step relation\<close>

text \<open>
  One operation on a connection, with any answers of the kernel that its contract allows. The
  registration of the descriptor \<open>fd\<close> is what the epoll calls issued so far amount to.
\<close>

inductive conn_step :: "kernel \<Rightarrow> CHttp \<times> world \<Rightarrow> CHttp \<times> world \<Rightarrow> bool" for k where
  reads: "conn_step k (c, w) (c', w)" if "recv_ok recv" "CHttp_Read recv c = Some (b, c')"
| parses: "conn_step k (c, w) (c', w')" if "HttpParse k c w = Inr (c', w')"
| sends: "conn_step k (c, w) (c', w')" if "CHttp_Write writev c w = Some (Inr (b, c', w'))"
| closes: "conn_step k (c, w) (c', w')" if "CloseHttp c w = (c', w')"

inductive conn_reaches :: "kernel \<Rightarrow> CHttp \<times> world \<Rightarrow> CHttp \<times> world \<Rightarrow> bool" for k x where
  here: "conn_reaches k x x"
| more: "conn_reaches k x z" if "conn_reaches k x y" "conn_step k y z"

abbreviation registered :: "int \<Rightarrow> world \<Rightarrow> 32 word option" where
  "registered fd w \<equiv> interest (w_calls w) Map.empty fd"

abbreviation armed :: "32 word \<Rightarrow> bool" where
  "armed ev \<equiv> ev AND EPOLLONESHOT \<noteq> 0 \<and> ev AND EPOLLRDHUP \<noteq> 0"

definition conn_good :: "int \<Rightarrow> int \<Rightarrow> CHttp \<times> world \<Rightarrow> bool" where
  "conn_good fd n x \<longleftrightarrow> (case x of (c, w) \<Rightarrow> conn_inv c \<and>
     (if m_iSockFd c = -1 then m_iHttpCnt w = n \<and> registered fd w = None
      else m_iSockFd c = fd \<and> m_iHttpCnt w = n + 1 \<and>
        (\<exists>ev. registered fd w = Some ev \<and> armed ev)))"

lemma mod_events_armed: "armed (mod_events EPOLLIN t)" "armed (mod_events EPOLLOUT t)"
  by (simp_all add: mod_events_def)

lemma modified_at [simp]:
  "(case m fd' of None \<Rightarrow> m | Some x \<Rightarrow> m(fd' \<mapsto> ev)) fd =
    (if fd' = fd \<and> m fd \<noteq> None then Some ev else m fd)"
  by (cases "m fd'") auto

lemma ModFd_good:
  assumes "conn_good fd n (c, w)" and "fd \<noteq> -1" and "ev = EPOLLIN \<or> ev = EPOLLOUT"
  shows "conn_good fd n (c, ModFd (m_iEpollFd w) (m_iSockFd c) ev t w)"
  using assms mod_events_armed by (auto simp: conn_good_def split: if_splits)

lemma CloseHttp_good:
  assumes "conn_good fd n (c, w)" and "CloseHttp c w = (c', w')"
  shows "conn_good fd n (c', w')"
  using assms
  by (auto simp: conn_good_def CloseHttp_def conn_inv_def write_inv_def split: if_splits)

lemma Init_good:
  assumes "fd \<noteq> -1" and "m_iHttpCnt w = n" and "CHttp_Init k fd addr t c w = (c', w')"
  shows "conn_good fd n (c', w')"
  using assms
  by (auto simp: conn_good_def CHttp_Init_def Let_def AddFd_def SetNonBlocking_def add_events_def)
    (auto simp: reset_buffers_def)

lemma input_good:
  assumes "conn_good fd n (c, w)" and "input_of c' = input_of c" and "write_inv c'"
    and "w' = w \<or> w' = emit (CloseFd j) w" and "j \<noteq> fd"
  shows "conn_good fd n (c', w')"
  using assms by (auto simp: conn_good_def input_of_def conn_inv_def)

lemma loop_ends_good:
  assumes "loop_ends (m_iSockFd c) b c w c' w'" and "conn_good fd n (c, w)" and "fd \<noteq> -1"
  shows "conn_good fd n (c', w')"
  using assms(1)
proof cases
  case (again cs)
  with assms(2,3) mod_events_armed stable_conn_inv [OF again(3)] show ?thesis
    by (auto simp: conn_good_def stable_of_def sending_interest split: if_splits)
next
  case (failed cs)
  with assms(2,3) stable_conn_inv [OF failed(3)] show ?thesis
    by (auto simp: conn_good_def stable_of_def sending_interest split: if_splits)
next
  case (finished cs)
  with assms(2,3) mod_events_armed stable_conn_inv [OF finished(3)] show ?thesis
    by (auto simp: conn_good_def stable_of_def sending_interest split: if_splits)
qed

lemma Write_good:
  assumes "conn_good fd n (c, w)" and "fd \<noteq> -1"
    and "CHttp_Write writev c w = Some (Inr (b, c', w'))"
  shows "conn_good fd n (c', w')"
proof (cases "m_iDataLen c = 0")
  case True
  then have eq: "c' = reset_buffers c" "w' = ModFd (m_iEpollFd w) (m_iSockFd c) EPOLLIN (m_iTriggerMode c) w"
    using assms(3) by (simp_all add: CHttp_Write_def)
  have "conn_good fd n (c, w')" unfolding eq by (rule ModFd_good [OF assms(1,2)]) simp
  moreover have "m_iSockFd c' = m_iSockFd c" "\<not> m_bLinger c'" "conn_inv c \<Longrightarrow> conn_inv c'"
    using assms(1) by (simp_all add: eq conn_good_def reset_buffers_def conn_inv_def write_inv_def
        zeros_def MAX_WRITE_DATA_BUFF_SIZE_def)
  ultimately show ?thesis by (auto simp: conn_good_def)
next
  case False
  then have "loop_ends (m_iSockFd c) b c w c' w'"
    using assms by (intro write_loop_ends) (auto simp: CHttp_Write_def conn_good_def conn_inv_def)
  then show ?thesis using assms(1,2) by (rule loop_ends_good)
qed

lemma Parse_good:
  assumes good: "conn_good fd n (c, w)" and fd: "fd \<noteq> -1" and "\<forall>f. k_open k f \<noteq> fd"
    and "HttpParse k c w = Inr (c', w')"
  shows "conn_good fd n (c', w')"
proof -
  have "write_inv c" using good by (simp add: conn_good_def conn_inv_def)
  from this assms(4) show ?thesis
  proof (cases rule: HttpParse_cases)
    case (wait c1)
    then have "conn_good fd n (c1, w)" using input_good [OF good, of c1 w "fd + 1"] by simp
    with wait show ?thesis
      using ModFd_good [of fd n c1 w EPOLLIN] fd by (auto simp: input_of_def)
  next
    case (reply status c1 w1)
    then have "conn_good fd n (c', w1)" using input_good [OF good] assms(3) by blast
    with reply show ?thesis
      using ModFd_good [of fd n c' w1 EPOLLOUT] fd by (auto simp: input_of_def)
  next
    case (close status c1 c2 w1)
    then have "conn_good fd n (c2, w1)" using input_good [OF good] assms(3) by blast
    with close show ?thesis by (metis CloseHttp_good)
  qed
qed

lemma step_good:
  assumes "conn_step k (c, w) (c', w')" and "conn_good fd n (c, w)" and "fd \<noteq> -1"
    and "\<forall>f. k_open k f \<noteq> fd"
  shows "conn_good fd n (c', w')"
  using assms(1)
proof cases
  case (reads recv b)
  have inv: "conn_inv c" using assms(2) by (simp add: conn_good_def)
  obtain d where "c' = take_in d c" "length d \<le> MAX_READ_DATA_BUFF_SIZE - m_iReadIdx c"
    using Read_total [OF reads(2) inv] reads(3) by auto
  with take_in_inv [OF inv this(2)] assms(2) reads(1) show ?thesis
    by (auto simp: conn_good_def take_in_def)
next
  case parses
  then show ?thesis by (rule Parse_good [OF assms(2-4)])
next
  case (sends writev b)
  then show ?thesis by (rule Write_good [OF assms(2,3)])
next
  case closes
  then show ?thesis by (rule CloseHttp_good [OF assms(2)])
qed

section \<open>Properties\<close>

text \<open>
  C10: a connection, from \<open>Init\<close> on and through any sequence of reads, parses, writes and closes.
  Its indices stay inside its arrays and it never offers to keep alive. While it is open the
  descriptor is registered for one event and for the peer's hang-up, and it is counted once; when
  it is closed the descriptor is unregistered and no longer counted. \<open>open\<close> never returns a
  descriptor in use.
\<close>

theorem connection_life:
  assumes "fd \<noteq> -1" and "\<forall>f. k_open k f \<noteq> fd"
    and "conn_reaches k (CHttp_Init k fd addr t c w) (c', w')"
  shows "m_iReadIdx c' \<le> length (m_aReadData c') \<and> m_iWriteIdx c' < length (m_aWriteData c') \<and>
    \<not> m_bLinger c' \<and>
    (if m_iSockFd c' = -1 then m_iHttpCnt w' = m_iHttpCnt w \<and> registered fd w' = None
     else m_iSockFd c' = fd \<and> m_iHttpCnt w' = m_iHttpCnt w + 1 \<and>
       (\<exists>ev. registered fd w' = Some ev \<and> armed ev))"
proof -
  have "conn_good fd (m_iHttpCnt w) y" if "conn_reaches k (CHttp_Init k fd addr t c w) y" for y
    using that
  proof induction
    case here
    then show ?case using Init_good [OF assms(1) refl] by (metis prod.collapse)
  next
    case (more y z)
    then show ?case using step_good [OF _ _ assms(1,2)] by (metis prod.collapse)
  qed
  from this [OF assms(3)] show ?thesis
    by (auto simp: conn_good_def conn_inv_def write_inv_def)
qed

lemma connection_life_witness:
  "\<exists>c' w'. conn_reaches demo_kernel (CHttp_Init demo_kernel 7 \<lparr>sin_addr = 0, sin_port = 0\<rparr> 1 idle_conn world0)
     (c', w') \<and> m_iSockFd c' = -1 \<and> m_iHttpCnt w' = m_iHttpCnt world0 \<and> registered 7 w' = None"
proof -
  let ?x = "CHttp_Init demo_kernel 7 \<lparr>sin_addr = 0, sin_port = 0\<rparr> 1 idle_conn world0"
  obtain c w where x: "?x = (c, w)" by (cases ?x)
  then have open7: "m_iSockFd c = 7" by (auto simp: CHttp_Init_def reset_buffers_def Let_def)
  obtain c' w' where y: "CloseHttp c w = (c', w')" by (cases "CloseHttp c w")
  with open7 have closed: "m_iSockFd c' = -1" by (auto simp: CloseHttp_def Let_def)
  have reach: "conn_reaches demo_kernel ?x (c', w')"
    unfolding x by (rule conn_reaches.more [OF conn_reaches.here conn_step.closes [OF y]])
  from connection_life [OF _ _ reach] closed show ?thesis
    by (intro exI [of _ c'] exI [of _ w'] conjI reach) (auto simp: demo_kernel_def)
qed

text \<open>
  C28: \<open>HttpParse\<close> leaves exactly one of three registrations: for input when the request is not
  finished, for output when a reply has been built, and none, with the connection closed and
  counted out, when the reply did not fit.
\<close>

theorem parse_rearms:
  assumes "conn_inv c" and "m_iSockFd c \<noteq> -1" and "registered (m_iSockFd c) w \<noteq> None"
    and "\<forall>f. k_open k f \<noteq> m_iSockFd c" and "HttpParse k c w = Inr (c', w')"
  shows "\<exists>status c1. ParseRead c = Inr (status, c1) \<and>
    (if m_iSockFd c' = -1 then
       status \<noteq> OPEN \<and> registered (m_iSockFd c) w' = None \<and> m_iHttpCnt w' = m_iHttpCnt w - 1
     else m_iSockFd c' = m_iSockFd c \<and> m_iHttpCnt w' = m_iHttpCnt w \<and>
       registered (m_iSockFd c) w' = Some (mod_events
         (if status = OPEN then EPOLLIN else EPOLLOUT) (m_iTriggerMode c)))"
proof -
  have fresh: "k_open k (m_aFile c) \<noteq> m_iSockFd c" using assms(4) by blast
  have "write_inv c" using assms(1) by (simp add: conn_inv_def)
  from this assms(5) show ?thesis
  proof (cases rule: HttpParse_cases)
    case wait
    with assms(2,3) show ?thesis by (auto simp: input_of_def)
  next
    case (reply status c1 w1)
    with assms(2,3) fresh show ?thesis by (auto simp: input_of_def)
  next
    case (close status c1 c2 w1)
    with assms(2,3) fresh show ?thesis by (auto simp: input_of_def CloseHttp_def Let_def)
  qed
qed

lemma parse_rearms_witness:
  "\<exists>c' w'. HttpParse demo_kernel idle_conn (emit (EpollAdd 3 7 1) world0) = Inr (c', w') \<and>
    m_iSockFd c' = 7 \<and> registered 7 w' = Some (mod_events EPOLLIN 0)"
proof -
  let ?w = "emit (EpollAdd 3 7 1) world0"
  have run: "ParseRead idle_conn = Inr (OPEN, idle_conn)"
    by (simp add: ParseRead_def idle_conn_def ParseInternal_def pl.loop_stop parse_running_def
        parse_locals_def invalid_state_def)
  then have "HttpParse demo_kernel idle_conn ?w = Inr (idle_conn, ModFd 3 7 EPOLLIN 0 ?w)"
    by (simp add: HttpParse_def) (simp add: idle_conn_def world0_def)
  from parse_rearms [OF idle_conn_conn_inv _ _ _ this] run this show ?thesis
    by (auto simp: demo_kernel_def) (auto simp: idle_conn_def)
qed

end
