(* ===== verification/Heap_Array.thy ===== *)
theory Heap_Array
  imports Base "HOL-Library.Multiset"
begin

text \<open>
  Binary heaps in a list: the order, the two repairs (one entry too large, one entry too small)
  and what they keep. The heap of \<open>http/timer.cpp\<close> is related to these in \<open>Timer_Heap\<close>.
\<close>

section \<open>Order\<close>

abbreviation up :: "nat \<Rightarrow> nat" where
  "up i \<equiv> (i - Suc 0) div 2"

definition swap :: "nat \<Rightarrow> nat \<Rightarrow> 'a list \<Rightarrow> 'a list" where
  "swap i j xs = xs[i := xs ! j, j := xs ! i]"

lemma swap_length [simp]: "length (swap i j xs) = length xs"
  by (simp add: swap_def)

lemma swap_nth:
  assumes "i < length xs" "j < length xs" "k < length xs"
  shows "swap i j xs ! k = (if k = j then xs ! i else if k = i then xs ! j else xs ! k)"
  using assms by (simp add: swap_def nth_list_update)

lemma swap_mset [simp]: "i < length xs \<Longrightarrow> j < length xs \<Longrightarrow> mset (swap i j xs) = mset xs"
  by (simp add: swap_def mset_swap)

definition heap_at :: "('a \<Rightarrow> int) \<Rightarrow> 'a list \<Rightarrow> nat \<Rightarrow> bool" where
  "heap_at f xs i \<longleftrightarrow> f (xs ! up i) \<le> f (xs ! i)"

definition is_heap :: "('a \<Rightarrow> int) \<Rightarrow> 'a list \<Rightarrow> bool" where
  "is_heap f xs \<longleftrightarrow> (\<forall>i < length xs. 0 < i \<longrightarrow> heap_at f xs i)"

text \<open>A heap but for the entry \<open>j\<close>, which may be larger than its children.\<close>

definition heap_below :: "('a \<Rightarrow> int) \<Rightarrow> 'a list \<Rightarrow> nat \<Rightarrow> bool" where
  "heap_below f xs j \<longleftrightarrow> (\<forall>i < length xs. 0 < i \<longrightarrow>
     (if up i = j then 0 < j \<longrightarrow> f (xs ! up j) \<le> f (xs ! i) else heap_at f xs i))"

text \<open>A heap but for the entry \<open>j\<close>, which may be smaller than its parent.\<close>

definition heap_above :: "('a \<Rightarrow> int) \<Rightarrow> 'a list \<Rightarrow> nat \<Rightarrow> bool" where
  "heap_above f xs j \<longleftrightarrow> (\<forall>i < length xs. 0 < i \<longrightarrow> i \<noteq> j \<longrightarrow> heap_at f xs i) \<and>
     (\<forall>i < length xs. 0 < i \<longrightarrow> up i = j \<longrightarrow> 0 < j \<longrightarrow> f (xs ! up j) \<le> f (xs ! i))"

lemma heap_min:
  assumes "is_heap f xs" and "i < length xs"
  shows "f (xs ! 0) \<le> f (xs ! i)"
  using assms(2)
proof (induction i rule: less_induct)
  case (less i)
  show ?case
  proof (cases "i = 0")
    case False
    then have "f (xs ! 0) \<le> f (xs ! up i)" using less by simp
    also have "\<dots> \<le> f (xs ! i)" using assms(1) less.prems False by (auto simp: is_heap_def heap_at_def)
    finally show ?thesis .
  qed simp
qed

lemma is_heap_below: "is_heap f xs \<Longrightarrow> heap_below f xs j"
proof -
  assume h: "is_heap f xs"
  have "f (xs ! up j) \<le> f (xs ! i)" if "i < length xs" "0 < i" "up i = j" "0 < j" for i
  proof -
    have "f (xs ! up j) \<le> f (xs ! j)" "f (xs ! j) \<le> f (xs ! i)"
      using h that by (auto simp: is_heap_def heap_at_def)
    then show ?thesis by simp
  qed
  with h show ?thesis by (auto simp: heap_below_def is_heap_def)
qed

text \<open>Raising the key of one entry, and putting another entry at the root.\<close>

lemma heap_below_raise:
  assumes "is_heap f xs" and "distinct xs" and "j < length xs"
    and "\<And>i. i < length xs \<Longrightarrow> i \<noteq> j \<Longrightarrow> g (xs ! i) = f (xs ! i)" and "f (xs ! j) \<le> g (xs ! j)"
  shows "heap_below g xs j"
  unfolding heap_below_def
proof (intro allI impI)
  fix i assume i: "i < length xs" "0 < i"
  have h: "f (xs ! up k) \<le> f (xs ! k)" if "k < length xs" "0 < k" for k
    using assms(1) that by (simp add: is_heap_def heap_at_def)
  show "if up i = j then 0 < j \<longrightarrow> g (xs ! up j) \<le> g (xs ! i) else heap_at g xs i"
  proof (cases "up i = j")
    case True
    have "0 < j \<Longrightarrow> f (xs ! up j) \<le> f (xs ! i)" using h [of j] h [OF i] True assms(3) by simp
    with True i assms(3,4) show ?thesis by auto
  next
    case False
    then have "g (xs ! up i) = f (xs ! up i)" using assms(4) i by simp
    moreover have "f (xs ! i) \<le> g (xs ! i)" using assms(4) [OF i(1)] assms(5) by (cases "i = j") simp_all
    ultimately show ?thesis using h [OF i] False by (simp add: heap_at_def)
  qed
qed

lemma heap_below_root:
  assumes "is_heap f xs" and "n \<le> length xs"
  shows "heap_below f ((take n xs)[0 := y]) 0"
  unfolding heap_below_def
proof (intro allI impI)
  fix i assume "i < length ((take n xs)[0 := y])" and i: "0 < i"
  then have "i < n" using assms(2) by simp
  then show "if up i = 0 then 0 < (0::nat) \<longrightarrow> f ((take n xs)[0 := y] ! up 0) \<le> f ((take n xs)[0 := y] ! i)
      else heap_at f ((take n xs)[0 := y]) i"
    using assms i by (simp add: heap_at_def is_heap_def)
qed

lemma heap_above_snoc:
  assumes "is_heap f xs"
  shows "heap_above f (xs @ [y]) (length xs)"
  using assms by (auto simp: heap_above_def is_heap_def heap_at_def nth_append)

section \<open>Repairs\<close>

definition min_child :: "('a \<Rightarrow> int) \<Rightarrow> 'a list \<Rightarrow> nat \<Rightarrow> nat" where
  "min_child f xs i = (let c = 2 * i + 1 in
     if c + 1 < length xs \<and> f (xs ! (c + 1)) < f (xs ! c) then c + 1 else c)"

lemma min_child_bounds:
  assumes "2 * i + 1 < length xs"
  shows "i < min_child f xs i" "min_child f xs i < length xs" "up (min_child f xs i) = i"
  using assms by (auto simp: min_child_def Let_def)

lemma min_child_least:
  assumes "k < length xs" and "0 < k" and "up k = i"
  shows "f (xs ! min_child f xs i) \<le> f (xs ! k)"
proof -
  from assms(2,3) have "k = 2 * i + 1 \<or> k = 2 * i + 1 + 1" by linarith
  with assms(1) show ?thesis by (auto simp: min_child_def Let_def)
qed

text \<open>One step down: exchanging with the smaller child moves the defect there.\<close>

lemma heap_below_swap:
  assumes "heap_below f xs j" and "2 * j + 1 < length xs" and "f (xs ! min_child f xs j) < f (xs ! j)"
  defines "c \<equiv> min_child f xs j"
  shows "heap_below f (swap j c xs) c"
  unfolding heap_below_def
proof (intro allI impI)
  note c = min_child_bounds [OF assms(2), of f, folded c_def]
  have j: "j < length xs" using assms(2) by simp
  note nth = swap_nth [OF j c(2)]
  fix i assume "i < length (swap j c xs)" and i0: "0 < i"
  then have i: "i < length xs" by simp
  then have ui: "up i < length xs" "up c < length xs" using j c(3) by simp_all
  have old: "if up i = j then 0 < j \<longrightarrow> f (xs ! up j) \<le> f (xs ! i) else f (xs ! up i) \<le> f (xs ! i)"
    if "i < length xs" "0 < i" for i
    using assms(1) that unfolding heap_below_def heap_at_def by blast
  show "if up i = c then 0 < c \<longrightarrow> f (swap j c xs ! up c) \<le> f (swap j c xs ! i) else heap_at f (swap j c xs) i"
  proof (cases "up i = c")
    case True
    then have "i \<noteq> c" "i \<noteq> j" using i0 c(1) by linarith+
    with True i old [OF i i0] c j show ?thesis by (simp add: nth)
  next
    case uc: False
    show ?thesis
    proof (cases "up i = j")
      case True
      then have "i \<noteq> j" using i0 by linarith
      have "f (xs ! c) \<le> f (xs ! i)" using min_child_least [OF i i0 True, of f] by (simp add: c_def)
      with True uc i j \<open>i \<noteq> j\<close> assms(3) c show ?thesis
        by (simp add: heap_at_def nth [OF i] nth [OF j] c_def [symmetric])
    next
      case False
      then have "i \<noteq> c" using c(3) by auto
      show ?thesis
      proof (cases "i = j")
        case True
        then have "f (xs ! up j) \<le> f (xs ! c)" using old [OF c(2)] c i0 by simp
        with True uc False i \<open>i \<noteq> c\<close> ui show ?thesis by (simp add: heap_at_def nth)
      next
        case ij: False
        with old [OF i i0] False uc i \<open>i \<noteq> c\<close> ui show ?thesis by (simp add: heap_at_def nth)
      qed
    qed
  qed
qed

lemma heap_below_done:
  assumes "heap_below f xs j" and "2 * j + 1 < length xs \<longrightarrow> f (xs ! j) \<le> f (xs ! min_child f xs j)"
  shows "is_heap f xs"
  unfolding is_heap_def
proof (intro allI impI)
  fix i assume i: "i < length xs" "0 < i"
  show "heap_at f xs i"
  proof (cases "up i = j")
    case True
    then have "2 * j + 1 < length xs" using i by linarith
    with assms(2) min_child_least [OF i True, of f] True show ?thesis by (simp add: heap_at_def)
  next
    case False
    with assms(1) i show ?thesis by (simp add: heap_below_def)
  qed
qed

text \<open>One step up: exchanging with the parent moves the defect there.\<close>

lemma heap_above_swap:
  assumes "heap_above f xs j" and "j < length xs" and "0 < j" and "f (xs ! j) < f (xs ! up j)"
  shows "heap_above f (swap j (up j) xs) (up j)"
  unfolding heap_above_def
proof (intro conjI allI impI)
  let ?p = "up j"
  have p: "?p < length xs" "?p < j" using assms(2,3) by linarith+
  note nth = swap_nth [OF assms(2) p(1)]
  have old: "f (xs ! up i) \<le> f (xs ! i)" if "i < length xs" "0 < i" "i \<noteq> j" for i
    using assms(1) that by (simp add: heap_above_def heap_at_def)
  have old_child: "f (xs ! ?p) \<le> f (xs ! i)" if "i < length xs" "0 < i" "up i = j" for i
    using assms(1,3) that by (simp add: heap_above_def)
  {
    fix i assume "i < length (swap j ?p xs)" and i0: "0 < i" and ip: "i \<noteq> ?p"
    then have i: "i < length xs" "up i < length xs" by simp_all
    show "heap_at f (swap j ?p xs) i"
    proof (cases "i = j")
      case True
      then show ?thesis using i p assms(4) by (simp add: heap_at_def nth)
    next
      case False
      consider "up i = j" | "up i = ?p" "up i \<noteq> j" | "up i \<noteq> j" "up i \<noteq> ?p" by blast
      then show ?thesis
      proof cases
        case 1
        then show ?thesis using i ip False p old_child [OF i(1) i0] by (simp add: heap_at_def nth)
      next
        case 2
        then show ?thesis
          using i ip False p assms(4) old [OF i(1) i0 False] by (simp add: heap_at_def nth)
      next
        case 3
        then show ?thesis using i ip False old [OF i(1) i0 False] by (simp add: heap_at_def nth)
      qed
    qed
  next
    fix i assume "i < length (swap j ?p xs)" and i0: "0 < i" and ip: "up i = ?p" and p0: "0 < ?p"
    then have i: "i < length xs" "up ?p < length xs" "up ?p \<noteq> ?p" "up ?p \<noteq> j" "i \<noteq> ?p"
      using p by (simp, linarith, linarith, linarith, linarith)
    have "f (xs ! up ?p) \<le> f (xs ! ?p)" using old [of ?p] p p0 by simp
    moreover have "i \<noteq> j \<Longrightarrow> f (xs ! ?p) \<le> f (xs ! i)" using old [OF i(1) i0] ip by simp
    ultimately show "f (swap j ?p xs ! up ?p) \<le> f (swap j ?p xs ! i)"
      using i by (cases "i = j") (simp_all add: nth)
  }
qed

lemma heap_above_done:
  assumes "heap_above f xs j" and "j = 0 \<or> f (xs ! up j) \<le> f (xs ! j)"
  shows "is_heap f xs"
  using assms by (auto simp: is_heap_def heap_above_def heap_at_def)

end
