(* ===== verification/Timer_Heap.thy ===== *)
theory Timer_Heap
  imports Heap_Array CLib
begin

text \<open>
  The timer heap of \<open>http/timer.cpp\<close>: an array of pointers to timer objects. The objects are in
  \<open>m_timers\<close>, a map from addresses; \<open>None\<close> in the array is the null pointer.
\<close>

section \<open>Data\<close>

type_synonym address = nat

record CHeapTimer =
  callback_func :: "address option"
  m_iExpireTime :: int
  m_sClientData :: address
  m_iPos :: nat

record CTimerHeap =
  m_iCapacity :: nat
  m_iCurNum :: nat
  m_aTimers :: "address option list"
  m_timers :: "address \<rightharpoonup> CHeapTimer"

section \<open>Array and object access\<close>

definition ptr_at :: "CTimerHeap \<Rightarrow> nat \<Rightarrow> address option res" where
  "ptr_at h i = (if i < length (m_aTimers h) then Inr (m_aTimers h ! i) else Inl OutOfBounds)"

definition deref :: "CTimerHeap \<Rightarrow> address option \<Rightarrow> CHeapTimer res" where
  "deref h p = (case p of None \<Rightarrow> Inl NullDeref
     | Some a \<Rightarrow> (case m_timers h a of None \<Rightarrow> Inl UseAfterFree | Some t \<Rightarrow> Inr t))"

text \<open>\<open>m_aTimers[i]->m_iExpireTime\<close>.\<close>

definition expire_at :: "CTimerHeap \<Rightarrow> nat \<Rightarrow> int res" where
  "expire_at h i = bind_res (ptr_at h i) (\<lambda>p. bind_res (deref h p) (\<lambda>t. Inr (m_iExpireTime t)))"

text \<open>\<open>m_aTimers[i] = p; m_aTimers[i]->m_iPos = i\<close>.\<close>

definition place :: "nat \<Rightarrow> address option \<Rightarrow> CTimerHeap \<Rightarrow> CTimerHeap res" where
  "place i p h =
     (if i < length (m_aTimers h) then
        bind_res (deref h p) (\<lambda>t.
          Inr (h\<lparr>m_aTimers := (m_aTimers h)[i := p], m_timers := (m_timers h)(the p \<mapsto> t\<lparr>m_iPos := i\<rparr>)\<rparr>))
      else Inl OutOfBounds)"

lemma place_num: "place i p h = Inr h' \<Longrightarrow> m_iCurNum h' = m_iCurNum h"
  by (auto simp: place_def bind_res_Inr_iff split: if_splits)

section \<open>Construction and destruction\<close>

definition CHeapTimer_new :: "int \<Rightarrow> int \<Rightarrow> address option \<Rightarrow> address \<Rightarrow> CHeapTimer" where
  "CHeapTimer_new now delay cb client =
     \<lparr>callback_func = cb, m_iExpireTime = now + delay, m_sClientData = client, m_iPos = 0\<rparr>"

definition CTimerHeap_new :: "nat \<Rightarrow> (address \<rightharpoonup> CHeapTimer) \<Rightarrow> CTimerHeap" where
  "CTimerHeap_new capacity objects =
     \<lparr>m_iCapacity = capacity, m_iCurNum = 0, m_aTimers = replicate capacity None, m_timers = objects\<rparr>"

text \<open>The destructor frees the array first and then stores null pointers into it.\<close>

definition CTimerHeap_destroy :: "CTimerHeap \<Rightarrow> unit res" where
  "CTimerHeap_destroy h = (if 0 < m_iCurNum h then Inl UseAfterFree else Inr ())"

section \<open>Operations\<close>

text \<open>The smaller of the two children, the first of which is \<open>child\<close>.\<close>

definition pick_child :: "CTimerHeap \<Rightarrow> nat \<Rightarrow> nat res" where
  "pick_child h child =
     (if child + 1 < m_iCurNum h then
        bind_res (expire_at h (child + 1)) (\<lambda>e1. bind_res (expire_at h child) (\<lambda>e0.
          Inr (if e1 < e0 then child + 1 else child)))
      else Inr child)"

lemma pick_child_ge: "pick_child h c = Inr d \<Longrightarrow> c \<le> d"
  by (auto simp: pick_child_def bind_res_Inr_iff split: if_splits)

function down_loop :: "address option \<Rightarrow> nat \<Rightarrow> CTimerHeap \<Rightarrow> (nat \<times> CTimerHeap) res" where
  "down_loop tmp node h =
     (if node * 2 + 1 < m_iCurNum h then
        bind_res (pick_child h (node * 2 + 1)) (\<lambda>child.
        bind_res (deref h tmp) (\<lambda>t.
        bind_res (expire_at h child) (\<lambda>e.
          if m_iExpireTime t > e then
            bind_res (ptr_at h child) (\<lambda>p.
            bind_res (place node p h) (\<lambda>h'. down_loop tmp child h'))
          else Inr (node, h))))
      else Inr (node, h))"
  by pat_completeness auto

termination
  by (relation "measure (\<lambda>(tmp, node, h). m_iCurNum h - node)")
    (auto dest!: place_num pick_child_ge)

declare down_loop.simps [simp del]

definition HeapDown :: "nat \<Rightarrow> CTimerHeap \<Rightarrow> CTimerHeap res" where
  "HeapDown heap_node h =
     bind_res (ptr_at h heap_node) (\<lambda>tmp.
     bind_res (down_loop tmp heap_node h) (\<lambda>(node, h'). place node tmp h'))"

definition Resize :: "CTimerHeap \<Rightarrow> CTimerHeap res" where
  "Resize h =
     (if int (m_iCapacity h) * 2 > INT_MAX then Inl IntOverflow
      else if m_iCurNum h > length (m_aTimers h) \<or> m_iCurNum h > m_iCapacity h * 2 then Inl OutOfBounds
      else Inr (h\<lparr>m_aTimers := take (m_iCurNum h) (m_aTimers h) @
             replicate (m_iCapacity h * 2 - m_iCurNum h) None,
           m_iCapacity := m_iCapacity h * 2\<rparr>))"

function up_loop :: "address option \<Rightarrow> nat \<Rightarrow> CTimerHeap \<Rightarrow> (nat \<times> CTimerHeap) res" where
  "up_loop new node h =
     (if 0 < node then
        bind_res (expire_at h ((node - 1) div 2)) (\<lambda>e.
        bind_res (deref h new) (\<lambda>t.
          if e > m_iExpireTime t then
            bind_res (ptr_at h ((node - 1) div 2)) (\<lambda>p.
            bind_res (place node p h) (\<lambda>h'. up_loop new ((node - 1) div 2) h'))
          else Inr (node, h)))
      else Inr (node, h))"
  by pat_completeness auto

termination
  by (relation "measure (\<lambda>(new, node, h). node)") auto

declare up_loop.simps [simp del]

definition AddTimer :: "address option \<Rightarrow> CTimerHeap \<Rightarrow> CTimerHeap res" where
  "AddTimer add_timer h =
     (if add_timer = None then Inr h
      else bind_res (if m_iCapacity h \<le> m_iCurNum h then Resize h else Inr h) (\<lambda>h1.
        bind_res (up_loop add_timer (m_iCurNum h1) (h1\<lparr>m_iCurNum := m_iCurNum h1 + 1\<rparr>)) (\<lambda>(node, h2).
          place node add_timer h2)))"

definition Adjust :: "address option \<Rightarrow> CTimerHeap \<Rightarrow> CTimerHeap res" where
  "Adjust tnode h = bind_res (deref h tnode) (\<lambda>t. HeapDown (m_iPos t) h)"

definition DelTimer :: "address option \<Rightarrow> CTimerHeap \<Rightarrow> CTimerHeap res" where
  "DelTimer del_timer h =
     (if del_timer = None then Inr h
      else bind_res (deref h del_timer) (\<lambda>t.
        Inr (h\<lparr>m_timers := (m_timers h)(the del_timer \<mapsto> t\<lparr>callback_func := None\<rparr>)\<rparr>)))"

definition PopTimer :: "CTimerHeap \<Rightarrow> CTimerHeap res" where
  "PopTimer h =
     (if m_iCurNum h = 0 then Inr h
      else bind_res (ptr_at h 0) (\<lambda>p.
        if p = None then Inr h
        else bind_res (ptr_at h (m_iCurNum h - 1)) (\<lambda>last.
          HeapDown 0 (h\<lparr>m_iCurNum := m_iCurNum h - 1, m_aTimers := (m_aTimers h)[0 := last]\<rparr>))))"

definition GetTop :: "CTimerHeap \<Rightarrow> address option res" where
  "GetTop h = (if m_iCurNum h \<noteq> 0 then ptr_at h 0 else Inr None)"

text \<open>What moving timers in the array leaves alone.\<close>

definition same_store :: "CTimerHeap \<Rightarrow> CTimerHeap \<Rightarrow> bool" where
  "same_store h h' \<longleftrightarrow> m_iCapacity h' = m_iCapacity h \<and> m_iCurNum h' = m_iCurNum h \<and>
     dom (m_timers h') = dom (m_timers h)"

lemma same_store_refl [simp]: "same_store h h"
  by (simp add: same_store_def)

lemma same_store_trans: "same_store h1 h2 \<Longrightarrow> same_store h2 h3 \<Longrightarrow> same_store h1 h3"
  by (simp add: same_store_def)

lemma place_store: "place i p h = Inr h' \<Longrightarrow> same_store h h'"
  by (auto simp: place_def deref_def bind_res_Inr_iff same_store_def split: if_splits option.splits)

lemma down_loop_store: "down_loop tmp node h = Inr (n, h') \<Longrightarrow> same_store h h'"
proof (induction tmp node h rule: down_loop.induct)
  case (1 tmp node h)
  show ?case
  proof (cases "h' = h")
    case False
    with 1(2) obtain child t e p h1 where c: "node * 2 + 1 < m_iCurNum h" "pick_child h (node * 2 + 1) = Inr child"
      "deref h tmp = Inr t" "expire_at h child = Inr e" "m_iExpireTime t > e" "ptr_at h child = Inr p"
      "place node p h = Inr h1" "down_loop tmp child h1 = Inr (n, h')"
      unfolding down_loop.simps [of tmp node h] by (auto simp: bind_res_Inr_iff split: if_splits)
    from 1(1) [OF c] place_store [OF c(7)] same_store_trans show ?thesis by blast
  qed simp
qed

lemma up_loop_store: "up_loop new node h = Inr (n, h') \<Longrightarrow> same_store h h'"
proof (induction new node h rule: up_loop.induct)
  case (1 new node h)
  show ?case
  proof (cases "h' = h")
    case False
    with 1(2) obtain e t p h1 where c: "0 < node" "expire_at h ((node - 1) div 2) = Inr e" "deref h new = Inr t"
      "e > m_iExpireTime t" "ptr_at h ((node - 1) div 2) = Inr p" "place node p h = Inr h1"
      "up_loop new ((node - 1) div 2) h1 = Inr (n, h')"
      unfolding up_loop.simps [of new node h] by (auto simp: bind_res_Inr_iff split: if_splits)
    from 1(1) [OF c] place_store [OF c(6)] same_store_trans show ?thesis by blast
  qed simp
qed

lemma Adjust_store: "Adjust p h = Inr h' \<Longrightarrow> same_store h h'"
  by (auto simp: Adjust_def HeapDown_def bind_res_Inr_iff intro: same_store_trans dest!: down_loop_store place_store)

lemma AddTimer_store:
  assumes "AddTimer (Some a) h = Inr h'" and "m_iCurNum h < m_iCapacity h"
  shows "same_store (h\<lparr>m_iCurNum := m_iCurNum h + 1\<rparr>) h'"
  using assms by (auto simp: AddTimer_def bind_res_Inr_iff intro: same_store_trans dest!: up_loop_store place_store)

lemma HeapDown_num: "HeapDown i h = Inr h' \<Longrightarrow> m_iCurNum h' = m_iCurNum h"
  by (auto simp: HeapDown_def bind_res_Inr_iff same_store_def dest!: down_loop_store place_num)

lemma PopTimer_num:
  assumes "PopTimer h = Inr h'" and "ptr_at h 0 = Inr (Some a)" and "m_iCurNum h \<noteq> 0"
  shows "m_iCurNum h' = m_iCurNum h - 1"
  using assms by (auto simp: PopTimer_def bind_res_Inr_iff dest!: HeapDown_num)

text \<open>
  The loop of \<open>Tick\<close>. \<open>call f d\<close> is the effect of calling the function at \<open>f\<close> with the client at
  \<open>d\<close> on the rest of the program's state; the functions stored in timers do not touch the heap.
\<close>

function tick_loop ::
  "(address \<Rightarrow> address \<Rightarrow> 'w \<Rightarrow> 'w) \<Rightarrow> int \<Rightarrow> CTimerHeap \<Rightarrow> 'w \<Rightarrow> (CTimerHeap \<times> 'w) res" where
  "tick_loop call now h w =
     bind_res (ptr_at h 0) (\<lambda>tmp.
       if m_iCurNum h = 0 \<or> tmp = None then Inr (h, w)
       else bind_res (deref h tmp) (\<lambda>t.
         if m_iExpireTime t > now then Inr (h, w)
         else bind_res (PopTimer h) (\<lambda>h'.
           tick_loop call now h'
             (case callback_func t of None \<Rightarrow> w | Some f \<Rightarrow> call f (m_sClientData t) w))))"
  by pat_completeness auto

termination
  by (relation "measure (\<lambda>(call, now, h, w). m_iCurNum h)") (auto dest!: PopTimer_num)

declare tick_loop.simps [simp del]

definition Tick :: "(address \<Rightarrow> address \<Rightarrow> 'w \<Rightarrow> 'w) \<Rightarrow> int \<Rightarrow> CTimerHeap \<Rightarrow> 'w \<Rightarrow> (CTimerHeap \<times> 'w) res" where
  "Tick call now h w = tick_loop call now h w"

end
