(* ===== verification/Timer_Queue.thy ===== *)
theory Timer_Queue
  imports Timer_Heap
begin

text \<open>
  The timer heap against an abstract timer queue: representation, what each operation does to the
  queued timers, and the loop of \<open>Tick\<close> over any queue with the same contract.
\<close>

section \<open>Representation\<close>

text \<open>The objects up to their positions, and the key of a timer.\<close>

definition objects :: "CTimerHeap \<Rightarrow> address \<Rightarrow> CHeapTimer option" where
  "objects h a = map_option (m_iPos_update (\<lambda>_. 0)) (m_timers h a)"

definition expiry :: "CTimerHeap \<Rightarrow> address \<Rightarrow> int" where
  "expiry h a = (case objects h a of None \<Rightarrow> 0 | Some t \<Rightarrow> m_iExpireTime t)"

lemma expiry_objects: "objects h' = objects h \<Longrightarrow> expiry h' = expiry h"
  by (intro ext) (simp add: expiry_def)

lemma expiry_timer: "m_timers h a = Some t \<Longrightarrow> expiry h a = m_iExpireTime t"
  by (simp add: expiry_def objects_def)

text \<open>
  \<open>rep h xs\<close>: the array holds the timers \<open>xs\<close>, each of which knows its index. \<open>hole\<close> leaves out the
  slot that the loops have yet to fill and the position of the timer that belongs there.
\<close>

definition shape :: "CTimerHeap \<Rightarrow> address list \<Rightarrow> bool" where
  "shape h xs \<longleftrightarrow> m_iCurNum h = length xs \<and> m_iCapacity h = length (m_aTimers h) \<and>
     length xs \<le> m_iCapacity h \<and> 0 < m_iCapacity h \<and> distinct xs \<and> (\<forall>a \<in> set xs. m_timers h a \<noteq> None)"

lemma shape_same:
  assumes "shape h xs" and "m_iCurNum h' = m_iCurNum h" and "m_iCapacity h' = m_iCapacity h"
    and "length (m_aTimers h') = length (m_aTimers h)" and "objects h' = objects h" and "mset ys = mset xs"
  shows "shape h' ys"
proof -
  have "m_timers h' a = None \<longleftrightarrow> m_timers h a = None" for a
    using fun_cong [OF assms(5), of a] by (auto simp: objects_def)
  moreover have "set ys = set xs" "length ys = length xs" "distinct ys = distinct xs"
    using assms(6) by (metis set_mset_mset, metis size_mset, metis mset_eq_imp_distinct_iff)
  ultimately show ?thesis using assms(1-4) unfolding shape_def by auto
qed

definition in_slot :: "CTimerHeap \<Rightarrow> address list \<Rightarrow> nat \<Rightarrow> bool" where
  "in_slot h xs i \<longleftrightarrow> m_aTimers h ! i = Some (xs ! i) \<and> (\<forall>t. m_timers h (xs ! i) = Some t \<longrightarrow> m_iPos t = i)"

definition rep :: "CTimerHeap \<Rightarrow> address list \<Rightarrow> bool" where
  "rep h xs \<longleftrightarrow> shape h xs \<and> (\<forall>i < length xs. in_slot h xs i)"

definition hole :: "CTimerHeap \<Rightarrow> address list \<Rightarrow> nat \<Rightarrow> bool" where
  "hole h xs j \<longleftrightarrow> shape h xs \<and> j < length xs \<and> (\<forall>i < length xs. i \<noteq> j \<longrightarrow> in_slot h xs i)"

lemma rep_hole: "rep h xs \<Longrightarrow> j < length xs \<Longrightarrow> hole h xs j"
  by (simp add: rep_def hole_def)

lemma shape_timer:
  assumes "shape h xs" and "i < length xs"
  obtains t where "m_timers h (xs ! i) = Some t" "m_iExpireTime t = expiry h (xs ! i)"
    "deref h (Some (xs ! i)) = Inr t"
proof -
  have "m_timers h (xs ! i) \<noteq> None" using assms by (simp add: shape_def)
  then show ?thesis using that expiry_timer by (auto simp: deref_def)
qed

lemma hole_read:
  assumes "hole h xs j" and "i < length xs" and "i \<noteq> j"
  shows "ptr_at h i = Inr (Some (xs ! i))" "expire_at h i = Inr (expiry h (xs ! i))"
proof -
  have s: "shape h xs" and "m_aTimers h ! i = Some (xs ! i)" "i < length (m_aTimers h)"
    using assms by (auto simp: hole_def in_slot_def shape_def)
  then show p: "ptr_at h i = Inr (Some (xs ! i))" by (simp add: ptr_at_def)
  from s assms(2) show "expire_at h i = Inr (expiry h (xs ! i))"
    by (rule shape_timer) (simp add: expire_at_def p)
qed

lemma place_effect:
  assumes "shape h xs" and "i < length xs" and "c < length xs"
  obtains h' where "place i (Some (xs ! c)) h = Inr h'" "objects h' = objects h"
    "m_iCurNum h' = m_iCurNum h" "m_iCapacity h' = m_iCapacity h"
    "m_aTimers h' = (m_aTimers h)[i := Some (xs ! c)]"
    "\<And>a. a \<noteq> xs ! c \<Longrightarrow> m_timers h' a = m_timers h a"
    "\<exists>t. m_timers h' (xs ! c) = Some t \<and> m_iPos t = i"
proof -
  obtain t where t: "m_timers h (xs ! c) = Some t" "deref h (Some (xs ! c)) = Inr t"
    by (rule shape_timer [OF assms(1,3)])
  have "i < length (m_aTimers h)" using assms by (simp add: shape_def)
  with t show ?thesis
    by (intro that [of "h\<lparr>m_aTimers := (m_aTimers h)[i := Some (xs ! c)],
        m_timers := (m_timers h)(xs ! c \<mapsto> t\<lparr>m_iPos := i\<rparr>)\<rparr>"])
      (auto simp: place_def objects_def)
qed

text \<open>Filling the hole, and moving it.\<close>

lemma hole_fill:
  assumes "hole h xs j"
  shows "\<exists>h'. place j (Some (xs ! j)) h = Inr h' \<and> rep h' xs \<and> objects h' = objects h"
proof -
  have s: "shape h xs" and j: "j < length xs" and slots: "\<And>i. i < length xs \<Longrightarrow> i \<noteq> j \<Longrightarrow> in_slot h xs i"
    using assms by (simp_all add: hole_def)
  obtain h' where h': "place j (Some (xs ! j)) h = Inr h'" "objects h' = objects h"
    "m_iCurNum h' = m_iCurNum h" "m_iCapacity h' = m_iCapacity h"
    "m_aTimers h' = (m_aTimers h)[j := Some (xs ! j)]"
    "\<And>a. a \<noteq> xs ! j \<Longrightarrow> m_timers h' a = m_timers h a"
    "\<exists>t. m_timers h' (xs ! j) = Some t \<and> m_iPos t = j"
    by (rule place_effect [OF s j j]) blast
  have len: "length xs \<le> length (m_aTimers h)" and dist: "distinct xs" using s by (simp_all add: shape_def)
  have "shape h' xs" using h' by (intro shape_same [OF s]) simp_all
  moreover have "in_slot h' xs i" if "i < length xs" for i
  proof (cases "i = j")
    case True
    then show ?thesis using h'(5,7) j len by (auto simp: in_slot_def)
  next
    case False
    then have "xs ! i \<noteq> xs ! j" using that j dist by (simp add: nth_eq_iff_index_eq)
    with False slots [OF that] h'(5,6) that len show ?thesis by (simp add: in_slot_def)
  qed
  ultimately show ?thesis using h'(1,2) by (auto simp: rep_def)
qed

lemma hole_move:
  assumes "hole h xs j" and "c < length xs" and "c \<noteq> j"
  shows "\<exists>h'. place j (Some (xs ! c)) h = Inr h' \<and> hole h' (swap j c xs) c \<and> objects h' = objects h"
proof -
  have s: "shape h xs" and j: "j < length xs" and slots: "\<And>i. i < length xs \<Longrightarrow> i \<noteq> j \<Longrightarrow> in_slot h xs i"
    using assms by (simp_all add: hole_def)
  obtain h' where h': "place j (Some (xs ! c)) h = Inr h'" "objects h' = objects h"
    "m_iCurNum h' = m_iCurNum h" "m_iCapacity h' = m_iCapacity h"
    "m_aTimers h' = (m_aTimers h)[j := Some (xs ! c)]"
    "\<And>a. a \<noteq> xs ! c \<Longrightarrow> m_timers h' a = m_timers h a"
    "\<exists>t. m_timers h' (xs ! c) = Some t \<and> m_iPos t = j"
    by (rule place_effect [OF s j assms(2)]) blast
  have len: "length xs \<le> length (m_aTimers h)" and dist: "distinct xs" using s by (simp_all add: shape_def)
  note nth = swap_nth [OF j assms(2)]
  have "shape h' (swap j c xs)" using h' j assms(2) by (intro shape_same [OF s]) simp_all
  moreover have "in_slot h' (swap j c xs) i" if "i < length xs" "i \<noteq> c" for i
  proof (cases "i = j")
    case True
    then show ?thesis using h'(5,7) j len that by (auto simp: in_slot_def nth)
  next
    case False
    then have "xs ! i \<noteq> xs ! c" using that assms(2) dist by (simp add: nth_eq_iff_index_eq)
    with False slots [OF that(1)] h'(5,6) that len show ?thesis by (simp add: in_slot_def nth)
  qed
  ultimately show ?thesis using h'(1,2) assms(2) by (auto simp: hole_def)
qed

section \<open>The two loops\<close>

lemma down_loop_heap:
  assumes "hole h xs j" and "heap_below (expiry h) xs j"
  shows "\<exists>h' n ys. down_loop (Some (xs ! j)) j h = Inr (n, h') \<and> hole h' ys n \<and> ys ! n = xs ! j \<and>
    mset ys = mset xs \<and> is_heap (expiry h) ys \<and> objects h' = objects h"
  using assms
proof (induction "length xs - j" arbitrary: h xs j rule: less_induct)
  case less
  let ?e = "expiry h" and ?c = "min_child (expiry h) xs j"
  have s: "shape h xs" and j: "j < length xs" and num: "m_iCurNum h = length xs"
    using less.prems(1) by (auto simp: hole_def shape_def)
  obtain t where t: "deref h (Some (xs ! j)) = Inr t" "m_iExpireTime t = ?e (xs ! j)"
    by (rule shape_timer [OF s j])
  show ?case
  proof (cases "2 * j + 1 < length xs")
    case False
    then have "down_loop (Some (xs ! j)) j h = Inr (j, h)"
      by (subst down_loop.simps) (simp add: num mult.commute)
    moreover have "is_heap ?e xs" using heap_below_done [OF less.prems(2)] False by simp
    ultimately show ?thesis using less.prems(1) by blast
  next
    case True
    note c = min_child_bounds [OF True, of ?e]
    have "pick_child h (j * 2 + 1) = Inr ?c"
      using hole_read [OF less.prems(1), of "2 * j + 1"] hole_read [OF less.prems(1), of "2 * j + 2"] True num
      by (auto simp: pick_child_def min_child_def Let_def mult.commute)
    then have step: "down_loop (Some (xs ! j)) j h = (if ?e (xs ! ?c) < ?e (xs ! j) then
        bind_res (place j (Some (xs ! ?c)) h) (down_loop (Some (xs ! j)) ?c) else Inr (j, h))"
      using True num t hole_read [OF less.prems(1) c(2)] c(1)
      by (subst down_loop.simps) (simp add: mult.commute)
    show ?thesis
    proof (cases "?e (xs ! ?c) < ?e (xs ! j)")
      case False
      then have "is_heap ?e xs" using heap_below_done [OF less.prems(2)] False by simp
      with False step less.prems(1) show ?thesis by auto
    next
      case gt: True
      obtain h1 where h1: "place j (Some (xs ! ?c)) h = Inr h1" "hole h1 (swap j ?c xs) ?c"
        "objects h1 = objects h" using hole_move [OF less.prems(1) c(2)] c(1) by auto
      have at_c: "swap j ?c xs ! ?c = xs ! j" using j c(1,2) by (simp add: swap_nth)
      have "heap_below ?e (swap j ?c xs) ?c" by (rule heap_below_swap [OF less.prems(2) True gt])
      then have below: "heap_below (expiry h1) (swap j ?c xs) ?c" by (simp only: expiry_objects [OF h1(3)])
      have "length (swap j ?c xs) - ?c < length xs - j" using c by simp
      from less.hyps [OF this h1(2) below] at_c h1(3) obtain h2 n ys where
        "down_loop (Some (xs ! j)) ?c h1 = Inr (n, h2)" "hole h2 ys n" "ys ! n = xs ! j"
        "mset ys = mset xs" "is_heap ?e ys" "objects h2 = objects h"
        using j c(2) expiry_objects [OF h1(3)] by auto
      with step gt h1(1) show ?thesis by auto
    qed
  qed
qed

lemma HeapDown_heap:
  assumes "hole h xs j" and "m_aTimers h ! j = Some (xs ! j)" and "heap_below (expiry h) xs j"
  shows "\<exists>h' ys. HeapDown j h = Inr h' \<and> rep h' ys \<and> mset ys = mset xs \<and> is_heap (expiry h) ys \<and>
    objects h' = objects h"
proof -
  have "j < length (m_aTimers h)" using assms(1) by (simp add: hole_def shape_def)
  then have p: "ptr_at h j = Inr (Some (xs ! j))" using assms(2) by (simp add: ptr_at_def)
  obtain h1 n ys where 1: "down_loop (Some (xs ! j)) j h = Inr (n, h1)" "hole h1 ys n" "ys ! n = xs ! j"
    "mset ys = mset xs" "is_heap (expiry h) ys" "objects h1 = objects h"
    using down_loop_heap [OF assms(1,3)] by blast
  obtain h2 where "place n (Some (ys ! n)) h1 = Inr h2" "rep h2 ys" "objects h2 = objects h1"
    using hole_fill [OF 1(2)] by blast
  with 1 p show ?thesis by (auto simp: HeapDown_def)
qed

lemma up_loop_heap:
  assumes "hole h xs j" and "heap_above (expiry h) xs j"
  shows "\<exists>h' n ys. up_loop (Some (xs ! j)) j h = Inr (n, h') \<and> hole h' ys n \<and> ys ! n = xs ! j \<and>
    mset ys = mset xs \<and> is_heap (expiry h) ys \<and> objects h' = objects h"
  using assms
proof (induction j arbitrary: h xs rule: less_induct)
  case (less j)
  let ?e = "expiry h" and ?p = "up j"
  have s: "shape h xs" and j: "j < length xs" using less.prems(1) by (simp_all add: hole_def)
  obtain t where t: "deref h (Some (xs ! j)) = Inr t" "m_iExpireTime t = ?e (xs ! j)"
    by (rule shape_timer [OF s j])
  show ?case
  proof (cases "0 < j")
    case False
    then have "up_loop (Some (xs ! j)) j h = Inr (j, h)" by (subst up_loop.simps) simp
    moreover have "is_heap ?e xs" using heap_above_done [OF less.prems(2)] False by simp
    ultimately show ?thesis using less.prems(1) by blast
  next
    case True
    then have p: "?p < length xs" "?p < j" using j by linarith+
    have step: "up_loop (Some (xs ! j)) j h = (if ?e (xs ! j) < ?e (xs ! ?p) then
        bind_res (place j (Some (xs ! ?p)) h) (up_loop (Some (xs ! j)) ?p) else Inr (j, h))"
      using True t hole_read [OF less.prems(1) p(1)] p(2) by (subst up_loop.simps) simp
    show ?thesis
    proof (cases "?e (xs ! j) < ?e (xs ! ?p)")
      case False
      then have "is_heap ?e xs" using heap_above_done [OF less.prems(2)] False by simp
      with False step less.prems(1) show ?thesis by auto
    next
      case lt: True
      obtain h1 where h1: "place j (Some (xs ! ?p)) h = Inr h1" "hole h1 (swap j ?p xs) ?p"
        "objects h1 = objects h" using hole_move [OF less.prems(1) p(1)] p(2) by auto
      have at_p: "swap j ?p xs ! ?p = xs ! j" using j p by (simp add: swap_nth)
      have "heap_above ?e (swap j ?p xs) ?p" by (rule heap_above_swap [OF less.prems(2) j True lt])
      then have above: "heap_above (expiry h1) (swap j ?p xs) ?p" by (simp only: expiry_objects [OF h1(3)])
      from less.IH [OF p(2) h1(2) above] at_p h1(3) obtain h2 n ys where
        "up_loop (Some (xs ! j)) ?p h1 = Inr (n, h2)" "hole h2 ys n" "ys ! n = xs ! j"
        "mset ys = mset xs" "is_heap ?e ys" "objects h2 = objects h"
        using j p(1) expiry_objects [OF h1(3)] by auto
      with step lt h1(1) show ?thesis by auto
    qed
  qed
qed

section \<open>Operations\<close>

definition timer_inv :: "CTimerHeap \<Rightarrow> bool" where
  "timer_inv h \<longleftrightarrow> (\<exists>xs. rep h xs \<and> is_heap (expiry h) xs)"

definition queued :: "CTimerHeap \<Rightarrow> address multiset" where
  "queued h = mset (map the (take (m_iCurNum h) (m_aTimers h)))"

definition first_timer :: "CTimerHeap \<Rightarrow> address" where
  "first_timer h = the (m_aTimers h ! 0)"

lemma rep_array:
  assumes "rep h xs"
  shows "take (m_iCurNum h) (m_aTimers h) = map Some xs" "queued h = mset xs"
    "m_iCurNum h = length xs" "xs \<noteq> [] \<Longrightarrow> first_timer h = xs ! 0"
proof -
  have len: "m_iCurNum h = length xs" "length xs \<le> length (m_aTimers h)"
    and slots: "\<forall>i < length xs. m_aTimers h ! i = Some (xs ! i)"
    using assms by (auto simp: rep_def shape_def in_slot_def)
  then show array: "take (m_iCurNum h) (m_aTimers h) = map Some xs"
    by (intro nth_equalityI) simp_all
  show "queued h = mset xs" by (simp add: queued_def array comp_def)
  show "m_iCurNum h = length xs" by (fact len)
  show "first_timer h = xs ! 0" if "xs \<noteq> []" using slots that by (simp add: first_timer_def)
qed

lemma timer_invE:
  assumes "timer_inv h"
  obtains xs where "rep h xs" "is_heap (expiry h) xs" "queued h = mset xs" "m_iCurNum h = length xs"
  using assms rep_array by (auto simp: timer_inv_def)

lemma timer_invI:
  assumes "rep h' ys" and "is_heap (expiry h) ys" and "objects h' = objects h"
  shows "timer_inv h'" "queued h' = mset ys"
  using assms rep_array(2) [OF assms(1)] expiry_objects [OF assms(3)] by (auto simp: timer_inv_def)

lemma new_inv: "0 < capacity \<Longrightarrow> timer_inv (CTimerHeap_new capacity objs)"
  by (auto simp: timer_inv_def rep_def shape_def is_heap_def CTimerHeap_new_def intro!: exI [of _ "[]"])

lemma first_least:
  assumes "timer_inv h" and "queued h \<noteq> {#}"
  shows "ptr_at h 0 = Inr (Some (first_timer h)) \<and> first_timer h \<in># queued h \<and>
    (\<forall>a \<in># queued h. expiry h (first_timer h) \<le> expiry h a)"
proof -
  obtain xs where xs: "rep h xs" "is_heap (expiry h) xs" "queued h = mset xs"
    by (rule timer_invE [OF assms(1)])
  then have ne: "xs \<noteq> []" using assms(2) by auto
  then have "ptr_at h 0 = Inr (Some (xs ! 0))"
    using hole_read(1) [of h xs 1 0] xs(1) by (auto simp: ptr_at_def rep_def shape_def in_slot_def)
  moreover have "expiry h (xs ! 0) \<le> expiry h a" if "a \<in> set xs" for a
    using heap_min [OF xs(2)] that by (auto simp: in_set_conv_nth)
  ultimately show ?thesis using xs(3) ne rep_array(4) [OF xs(1)] by simp
qed

lemma objects_None: "m_timers h a = None \<longleftrightarrow> objects h a = None"
  by (simp add: objects_def)

lemma rep_weaken:
  assumes "rep h xs" and "m_iCurNum h' = m_iCurNum h" and "m_iCapacity h' = length (m_aTimers h')"
    and "length xs \<le> m_iCapacity h'" "0 < m_iCapacity h'" and "m_timers h' = m_timers h"
    and "take (length xs) (m_aTimers h') = take (length xs) (m_aTimers h)"
  shows "rep h' xs"
proof -
  have "m_aTimers h' ! i = m_aTimers h ! i" if "i < length xs" for i
    using arg_cong [OF assms(7), of "\<lambda>l. l ! i"] that by simp
  with assms(1-6) show ?thesis by (auto simp: rep_def shape_def in_slot_def)
qed

lemma AddTimer_spec:
  assumes "timer_inv h" and "m_timers h a \<noteq> None" and "a \<notin># queued h"
    and "m_iCurNum h < m_iCapacity h \<or> int (m_iCapacity h) * 2 \<le> INT_MAX"
  shows "\<exists>h'. AddTimer (Some a) h = Inr h' \<and> timer_inv h' \<and> queued h' = add_mset a (queued h) \<and>
    objects h' = objects h"
proof -
  obtain xs where xs: "rep h xs" "is_heap (expiry h) xs" "queued h = mset xs" "m_iCurNum h = length xs"
    by (rule timer_invE [OF assms(1)])
  define h1 where "h1 = (if m_iCapacity h \<le> m_iCurNum h then
    h\<lparr>m_aTimers := take (m_iCurNum h) (m_aTimers h) @ replicate (m_iCapacity h * 2 - m_iCurNum h) None,
      m_iCapacity := m_iCapacity h * 2\<rparr> else h)"
  have cap: "m_iCapacity h = length (m_aTimers h)" "length xs \<le> m_iCapacity h" "0 < m_iCapacity h"
    using xs(1) by (auto simp: rep_def shape_def)
  have room: "(if m_iCapacity h \<le> m_iCurNum h then Resize h else Inr h) = Inr h1"
    using assms(4) cap xs(4) by (auto simp: h1_def Resize_def)
  have rep1: "rep h1 xs" and less: "length xs < m_iCapacity h1"
    and same1: "m_timers h1 = m_timers h" "m_iCurNum h1 = length xs"
    using cap xs(4) by (auto simp: h1_def intro!: rep_weaken [OF xs(1)])
  let ?h2 = "h1\<lparr>m_iCurNum := m_iCurNum h1 + 1\<rparr>" and ?xs = "xs @ [a]" and ?n = "length xs"
  have objs: "objects ?h2 = objects h" using same1 by (simp add: objects_def fun_eq_iff)
  have hole2: "hole ?h2 ?xs ?n"
    using rep1 less same1 assms(2,3) xs(3)
    by (auto simp: hole_def rep_def shape_def in_slot_def nth_append)
  have "heap_above (expiry ?h2) ?xs ?n"
    using heap_above_snoc [OF xs(2)] by (simp only: expiry_objects [OF objs])
  from up_loop_heap [OF hole2 this] obtain h3 n ys where
    h3: "up_loop (Some a) ?n ?h2 = Inr (n, h3)" "hole h3 ys n" "ys ! n = a" "mset ys = mset ?xs"
      "is_heap (expiry h) ys" "objects h3 = objects h" using objs expiry_objects [OF objs] by auto
  from hole_fill [OF h3(2)] h3(3,6) obtain h4 where
    h4: "place n (Some a) h3 = Inr h4" "rep h4 ys" "objects h4 = objects h" by auto
  from timer_invI [OF h4(2) h3(5) h4(3)] have "timer_inv h4" "queued h4 = add_mset a (queued h)"
    using h3(4) xs(3) by simp_all
  moreover have "AddTimer (Some a) h = Inr h4"
    using room h3(1) h4(1) same1 by (simp add: AddTimer_def)
  ultimately show ?thesis using h4(3) by blast
qed

lemma PopTimer_spec:
  assumes "timer_inv h" and "queued h \<noteq> {#}"
  shows "\<exists>h'. PopTimer h = Inr h' \<and> timer_inv h' \<and> queued h' = queued h - {#first_timer h#} \<and>
    objects h' = objects h"
proof -
  obtain xs where xs: "rep h xs" "is_heap (expiry h) xs" "queued h = mset xs" "m_iCurNum h = length xs"
    by (rule timer_invE [OF assms(1)])
  from xs(3) assms(2) have ne: "xs \<noteq> []" by auto
  define n where "n = length xs - 1"
  have n: "length xs = Suc n" using ne by (simp add: n_def)
  have s: "shape h xs" and slots: "\<And>i. i < length xs \<Longrightarrow> in_slot h xs i" using xs(1) by (simp_all add: rep_def)
  have len: "length xs \<le> length (m_aTimers h)" using s by (simp add: shape_def)
  let ?h1 = "h\<lparr>m_iCurNum := m_iCurNum h - 1, m_aTimers := (m_aTimers h)[0 := Some (xs ! n)]\<rparr>"
  have first: "ptr_at h 0 = Inr (Some (xs ! 0))" "first_timer h = xs ! 0"
    using first_least [OF assms] rep_array(4) [OF xs(1) ne] by simp_all
  have "ptr_at h n = Inr (Some (xs ! n))" using slots [of n] n len by (simp add: ptr_at_def in_slot_def)
  then have pop: "PopTimer h = HeapDown 0 ?h1" using xs(4) n first by (simp add: PopTimer_def)
  have objs1: "objects ?h1 = objects h" by (simp add: objects_def fun_eq_iff)
  show ?thesis
  proof (cases "n = 0")
    case True
    then have x0: "xs = [xs ! 0]" using n by (cases xs) simp_all
    have "xs ! 0 \<in> set xs" using ne by simp
    then obtain t where t: "m_timers h (xs ! 0) = Some t" using s unfolding shape_def by blast
    let ?h2 = "?h1\<lparr>m_timers := (m_timers h)(xs ! 0 \<mapsto> t\<lparr>m_iPos := 0\<rparr>)\<rparr>"
    have "m_aTimers h \<noteq> []" using len n by auto
    then have "HeapDown 0 ?h1 = Inr ?h2"
      using True xs(4) n t
      by (simp add: HeapDown_def ptr_at_def down_loop.simps place_def deref_def)
    moreover have "rep ?h2 []" using s len n True xs(4) by (auto simp: rep_def shape_def)
    moreover have "objects ?h2 = objects h" using t by (auto simp: objects_def fun_eq_iff)
    moreover have "queued h - {#first_timer h#} = {#}" using xs(3) first(2) arg_cong [OF x0, of mset] by simp
    ultimately show ?thesis
      using pop rep_array(2) [of ?h2 "[]"] by (auto simp: timer_inv_def is_heap_def intro!: exI [of _ "[]"])
  next
    case False
    let ?ys = "(take n xs)[0 := xs ! n]"
    have ms: "mset ?ys = mset xs - {#xs ! 0#}"
    proof -
      obtain x zs where "xs = x # zs" using ne by (cases xs) simp
      then have "take n xs = x # take (n - 1) zs" "xs ! n = zs ! (n - 1)" "zs = take (n - 1) zs @ [zs ! (n - 1)]"
        using n False by (cases n; simp add: take_Suc_conv_app_nth [symmetric])+
      with \<open>xs = x # zs\<close> show ?thesis
        by (metis add_mset_remove_trivial list_update_code(2) mset.simps(2) mset_append nth_Cons_0
            union_mset_add_mset_right add.right_neutral mset.simps(1))
    qed
    have dist: "distinct ?ys" using s ms
      by (metis distinct_count_atmost_1 shape_def mset_remove1 distinct_remove1 mset_eq_imp_distinct_iff)
    have "set ?ys \<subseteq> set xs" using ms by (metis in_diffD set_mset_mset subsetI)
    then have "shape ?h1 ?ys" using s dist n xs(4) by (auto simp: shape_def)
    moreover have "in_slot ?h1 ?ys i" if "i < length ?ys" "i \<noteq> 0" for i
      using slots [of i] that n by (simp add: in_slot_def)
    ultimately have hole1: "hole ?h1 ?ys 0" using n False by (simp add: hole_def)
    have "m_aTimers h \<noteq> []" using len n by auto
    then have "m_aTimers ?h1 ! 0 = Some (?ys ! 0)" using n False by simp
    moreover have "heap_below (expiry ?h1) ?ys 0"
      using heap_below_root [OF xs(2)] n by (simp only: expiry_objects [OF objs1])
    ultimately obtain h2 ys where "HeapDown 0 ?h1 = Inr h2" "rep h2 ys" "mset ys = mset ?ys"
      "is_heap (expiry h) ys" "objects h2 = objects h"
      using HeapDown_heap [OF hole1] objs1 expiry_objects [OF objs1] by auto
    then show ?thesis using pop timer_invI [of h2 ys h] ms xs(3) first(2) by auto
  qed
qed

section \<open>Draining a queue\<close>

text \<open>Take out entries in order of their keys, as long as the key is at most \<open>now\<close>.\<close>

fun drain :: "('q \<Rightarrow> 'a multiset) \<Rightarrow> ('q \<Rightarrow> 'a \<Rightarrow> int) \<Rightarrow> ('q \<Rightarrow> 'a) \<Rightarrow> ('q \<Rightarrow> 'q res) \<Rightarrow> int \<Rightarrow>
    nat \<Rightarrow> 'q \<Rightarrow> ('a list \<times> 'q) res" where
  "drain elems key first pop now 0 q = Inr ([], q)"
| "drain elems key first pop now (Suc n) q =
     (if elems q = {#} \<or> now < key q (first q) then Inr ([], q)
      else bind_res (pop q) (\<lambda>q'. bind_res (drain elems key first pop now n q') (\<lambda>(as, q'').
        Inr (first q # as, q''))))"

locale timer_queue =
  fixes inv :: "'q \<Rightarrow> bool"
    and elems :: "'q \<Rightarrow> 'a multiset"
    and key :: "'q \<Rightarrow> 'a \<Rightarrow> int"
    and first :: "'q \<Rightarrow> 'a"
    and pop :: "'q \<Rightarrow> 'q res"
  assumes first_min: "inv q \<Longrightarrow> elems q \<noteq> {#} \<Longrightarrow>
      first q \<in># elems q \<and> (\<forall>a \<in># elems q. key q (first q) \<le> key q a)"
    and pop_first: "inv q \<Longrightarrow> elems q \<noteq> {#} \<Longrightarrow>
      \<exists>q'. pop q = Inr q' \<and> inv q' \<and> elems q' = elems q - {#first q#} \<and> key q' = key q"
begin

lemma drain_spec:
  assumes "inv q" and "size (elems q) \<le> n"
  shows "\<exists>as q'. drain elems key first pop now n q = Inr (as, q') \<and> inv q' \<and> key q' = key q \<and>
    mset as = {#a \<in># elems q. key q a \<le> now#} \<and> elems q' = {#a \<in># elems q. now < key q a#} \<and>
    sorted (map (key q) as)"
  using assms
proof (induction n arbitrary: q)
  case 0
  then show ?case by simp
next
  case (Suc n)
  show ?case
  proof (cases "elems q = {#} \<or> now < key q (first q)")
    case True
    have "now < key q a" if "a \<in># elems q" for a
      using first_min [OF Suc.prems(1)] True that by fastforce
    then have "{#a \<in># elems q. key q a \<le> now#} = {#}" "{#a \<in># elems q. now < key q a#} = elems q"
      using filter_mset_cong [of "elems q" "elems q" "\<lambda>a. now < key q a" "\<lambda>a. True"]
      by (fastforce, simp)
    with True Suc.prems(1) show ?thesis by auto
  next
    case False
    then have ne: "elems q \<noteq> {#}" and due: "key q (first q) \<le> now" by auto
    note f = first_min [OF Suc.prems(1) ne]
    obtain q1 where q1: "pop q = Inr q1" "inv q1" "elems q1 = elems q - {#first q#}" "key q1 = key q"
      using pop_first [OF Suc.prems(1) ne] by blast
    have split: "elems q = add_mset (first q) (elems q1)" using q1(3) f by simp
    then have "size (elems q1) \<le> n" using Suc.prems(2) by simp
    from Suc.IH [OF q1(2) this] q1(4) obtain as q' where
      r: "drain elems key first pop now n q1 = Inr (as, q')" "inv q'" "key q' = key q"
        "mset as = {#a \<in># elems q1. key q a \<le> now#}" "elems q' = {#a \<in># elems q1. now < key q a#}"
        "sorted (map (key q) as)" by auto
    have "key q (first q) \<le> key q a" if "a \<in> set as" for a
    proof -
      have "a \<in># mset as" using that by simp
      then have "a \<in># elems q1" unfolding r(4) by simp
      then show ?thesis using f split by simp
    qed
    with r False due q1(1) split show ?thesis by auto
  qed
qed

lemma drain_rest_later:
  assumes "inv q" and "size (elems q) \<le> n" and "drain elems key first pop now n q = Inr (as, q')"
  shows "\<forall>a \<in># elems q'. \<forall>b \<in> set as. key q b < key q a"
proof -
  have "mset as = {#a \<in># elems q. key q a \<le> now#}" "elems q' = {#a \<in># elems q. now < key q a#}"
    using drain_spec [OF assms(1,2), of now] assms(3) by auto
  then have "\<forall>b \<in># mset as. key q b \<le> now" "\<forall>a \<in># elems q'. now < key q a" by simp_all
  then show ?thesis by fastforce
qed

end

interpretation th: timer_queue timer_inv queued expiry first_timer PopTimer
proof unfold_locales
  fix h assume h: "timer_inv h" "queued h \<noteq> {#}"
  show "first_timer h \<in># queued h \<and> (\<forall>a \<in># queued h. expiry h (first_timer h) \<le> expiry h a)"
    using first_least [OF h] by simp
  show "\<exists>h'. PopTimer h = Inr h' \<and> timer_inv h' \<and> queued h' = queued h - {#first_timer h#} \<and> expiry h' = expiry h"
    using PopTimer_spec [OF h] expiry_objects by blast
qed

section \<open>The loop of Tick\<close>

definition fire :: "(address \<Rightarrow> address \<Rightarrow> 'w \<Rightarrow> 'w) \<Rightarrow> CTimerHeap \<Rightarrow> address \<Rightarrow> 'w \<Rightarrow> 'w" where
  "fire call h a w =
     (case objects h a of None \<Rightarrow> w | Some t \<Rightarrow>
        (case callback_func t of None \<Rightarrow> w | Some f \<Rightarrow> call f (m_sClientData t) w))"

lemma fire_objects: "objects h' = objects h \<Longrightarrow> fire call h' = fire call h"
  by (simp add: fire_def fun_eq_iff)

lemma tick_loop_drain:
  assumes "timer_inv h" and "size (queued h) \<le> n"
  shows "\<exists>as h'. tick_loop call now h w = Inr (h', fold (fire call h) as w) \<and> objects h' = objects h \<and>
    drain queued expiry first_timer PopTimer now n h = Inr (as, h')"
  using assms
proof (induction n arbitrary: h w)
  case 0
  obtain xs where xs: "rep h xs" "queued h = mset xs" "m_iCurNum h = length xs"
    by (rule timer_invE [OF 0(1)])
  then have "0 < length (m_aTimers h)" by (auto simp: rep_def shape_def)
  then have "tick_loop call now h w = Inr (h, w)"
    using 0 xs by (subst tick_loop.simps) (simp add: ptr_at_def)
  then show ?case by simp
next
  case (Suc n)
  obtain xs where xs: "rep h xs" "queued h = mset xs" "m_iCurNum h = length xs"
    by (rule timer_invE [OF Suc.prems(1)])
  show ?case
  proof (cases "xs = []")
    case True
    have "0 < length (m_aTimers h)" using xs by (auto simp: rep_def shape_def)
    then have "tick_loop call now h w = Inr (h, w)"
      using True xs by (subst tick_loop.simps) (simp add: ptr_at_def)
    then show ?thesis using True xs(2) by simp
  next
    case False
    then have ne: "queued h \<noteq> {#}" using xs(2) by simp
    note first = first_least [OF Suc.prems(1) ne]
    let ?a = "first_timer h"
    have "shape h xs" "?a \<in> set xs" using xs(1,2) first by (simp_all add: rep_def)
    then obtain t where t: "m_timers h ?a = Some t" by (auto simp: shape_def)
    then have dt: "deref h (Some ?a) = Inr t" "m_iExpireTime t = expiry h ?a"
      by (simp_all add: deref_def expiry_timer)
    obtain h1 where h1: "PopTimer h = Inr h1" "timer_inv h1" "queued h1 = queued h - {#?a#}"
      "objects h1 = objects h" using PopTimer_spec [OF Suc.prems(1) ne] by blast
    have fired: "(case callback_func t of None \<Rightarrow> w | Some f \<Rightarrow> call f (m_sClientData t) w) = fire call h ?a w"
      by (simp add: fire_def objects_def t split: option.split)
    have step: "tick_loop call now h w =
        (if now < expiry h ?a then Inr (h, w) else tick_loop call now h1 (fire call h ?a w))"
      using False xs(3) first dt h1(1) fired by (subst tick_loop.simps) simp
    have "size (queued h1) \<le> n" using h1(3) Suc.prems(2) first by (simp add: size_Diff_singleton)
    from Suc.IH [OF h1(2) this, of "fire call h ?a w"] obtain as h' where
      "tick_loop call now h1 (fire call h ?a w) = Inr (h', fold (fire call h) as (fire call h ?a w))"
      "objects h' = objects h" "drain queued expiry first_timer PopTimer now n h1 = Inr (as, h')"
      using fire_objects [OF h1(4), of call] h1(4) by auto
    then show ?thesis using step h1(1) ne by (cases "now < expiry h ?a") auto
  qed
qed

lemma Tick_spec:
  assumes "timer_inv h"
  shows "\<exists>as h'. Tick call now h w = Inr (h', fold (fire call h) as w) \<and> timer_inv h' \<and>
    mset as = {#a \<in># queued h. expiry h a \<le> now#} \<and> sorted (map (expiry h) as) \<and>
    queued h' = {#a \<in># queued h. now < expiry h a#} \<and> objects h' = objects h"
proof -
  obtain as h' where t: "Tick call now h w = Inr (h', fold (fire call h) as w)" "objects h' = objects h"
    "drain queued expiry first_timer PopTimer now (size (queued h)) h = Inr (as, h')"
    using tick_loop_drain [OF assms order_refl, of call now w] unfolding Tick_def by blast
  with th.drain_spec [OF assms order_refl, of now] show ?thesis by auto
qed

section \<open>Properties\<close>

text \<open>
  C21: \<open>Tick\<close> returns without a fault, calls the functions of exactly the timers that have expired,
  earliest first, and keeps the others queued in a heap.
\<close>

theorem tick_fires:
  assumes "timer_inv h"
  shows "\<exists>as h'. Tick call now h w = Inr (h', fold (fire call h) as w) \<and> timer_inv h' \<and>
    mset as = {#a \<in># queued h. expiry h a \<le> now#} \<and> sorted (map (expiry h) as) \<and>
    queued h' = {#a \<in># queued h. now < expiry h a#} \<and> objects h' = objects h"
  using Tick_spec [OF assms] .

text \<open>Two timers, the second of which expires first; and a world that records the calls.\<close>

definition two_timers :: CTimerHeap where
  "two_timers = \<lparr>m_iCapacity = 2, m_iCurNum = 2, m_aTimers = [Some 1, Some 0],
     m_timers = [0 \<mapsto> CHeapTimer_new 100 15 (Some 9) 40 \<lparr>m_iPos := 1\<rparr>,
       1 \<mapsto> CHeapTimer_new 90 15 (Some 9) 41]\<rparr>"

lemma two_timers_rep: "rep two_timers [1, 0]" "expiry two_timers 0 = 115" "expiry two_timers 1 = 105"
  by (auto simp: rep_def shape_def in_slot_def two_timers_def CHeapTimer_new_def expiry_def
      objects_def less_Suc_eq numeral_2_eq_2)

lemma two_timers_inv: "timer_inv two_timers" "queued two_timers = {#1, 0#}"
proof -
  have "is_heap (expiry two_timers) [1, 0]"
    using two_timers_rep by (auto simp: is_heap_def heap_at_def less_Suc_eq)
  then show "timer_inv two_timers" using two_timers_rep(1) by (auto simp: timer_inv_def)
  show "queued two_timers = {#1, 0#}" using rep_array(2) [OF two_timers_rep(1)] by simp
qed

lemma tick_fires_witness:
  "\<exists>h'. Tick (\<lambda>f d w. w @ [(f, d)]) 110 two_timers [] = Inr (h', [(9, 41)]) \<and> timer_inv h' \<and>
    queued h' = {#0#}"
proof -
  obtain as h' where t: "Tick (\<lambda>f d w. w @ [(f, d)]) 110 two_timers [] =
      Inr (h', fold (fire (\<lambda>f d w. w @ [(f, d)]) two_timers) as [])"
    "timer_inv h'" "mset as = {#a \<in># queued two_timers. expiry two_timers a \<le> 110#}"
    "queued h' = {#a \<in># queued two_timers. 110 < expiry two_timers a#}"
    using tick_fires [OF two_timers_inv(1), of "\<lambda>f d w. w @ [(f, d)]" 110 "[]"] by auto
  from t(3) have "as = [1]" using two_timers_rep two_timers_inv(2) by simp
  moreover have "queued h' = {#0#}" using t(4) two_timers_rep two_timers_inv(2) by simp
  ultimately show ?thesis
    using t(1,2) by (simp add: fire_def objects_def two_timers_def CHeapTimer_new_def)
qed

text \<open>
  C22: \<open>AddTimer\<close> queues a new timer in a heap with the others, growing the array when it is full;
  no other timer changes but in its position.
\<close>

theorem add_timer_queues:
  assumes "timer_inv h" and "m_timers h a \<noteq> None" and "a \<notin># queued h"
    and "m_iCurNum h < m_iCapacity h \<or> int (m_iCapacity h) * 2 \<le> INT_MAX"
  shows "\<exists>h'. AddTimer (Some a) h = Inr h' \<and> timer_inv h' \<and> queued h' = add_mset a (queued h) \<and>
    objects h' = objects h"
  using AddTimer_spec [OF assms] .

definition three_objects :: CTimerHeap where
  "three_objects = two_timers\<lparr>m_timers := (m_timers two_timers)(2 \<mapsto> CHeapTimer_new 80 15 (Some 9) 42)\<rparr>"

lemma three_objects_inv: "timer_inv three_objects" "queued three_objects = {#1, 0#}"
proof -
  have rep: "rep three_objects [1, 0]"
    using two_timers_rep(1)
    by (auto simp: three_objects_def rep_def shape_def in_slot_def less_Suc_eq)
  have "expiry three_objects 0 = 115" "expiry three_objects 1 = 105"
    using two_timers_rep by (simp_all add: three_objects_def expiry_def objects_def)
  then have "is_heap (expiry three_objects) [1, 0]" by (auto simp: is_heap_def heap_at_def less_Suc_eq)
  with rep show "timer_inv three_objects" by (auto simp: timer_inv_def)
  show "queued three_objects = {#1, 0#}" using rep_array(2) [OF rep] by simp
qed

lemma add_timer_queues_witness:
  "\<exists>h'. AddTimer (Some 2) three_objects = Inr h' \<and> timer_inv h' \<and> queued h' = {#2, 1, 0#}"
proof -
  have "m_timers three_objects 2 \<noteq> None" "2 \<notin># queued three_objects"
    "int (m_iCapacity three_objects) * 2 \<le> INT_MAX"
    by (simp_all add: three_objects_inv(2)) (simp_all add: three_objects_def two_timers_def INT_MAX_def)
  from add_timer_queues [OF three_objects_inv(1) this(1,2) disjI2 [OF this(3)]] three_objects_inv(2)
  show ?thesis by auto
qed

text \<open>
  The top of the heap. \<open>GetTop\<close> returns a queued timer that no other expires before, and
  \<open>PopTimer\<close> takes out just that one; on an empty heap the one is the null pointer and the other
  does nothing.
\<close>

theorem top_and_pop:
  assumes "timer_inv h"
  shows "if queued h = {#} then GetTop h = Inr None \<and> PopTimer h = Inr h
    else (\<exists>a h'. GetTop h = Inr (Some a) \<and> a \<in># queued h \<and> (\<forall>b \<in># queued h. expiry h a \<le> expiry h b) \<and>
      PopTimer h = Inr h' \<and> timer_inv h' \<and> queued h' = queued h - {#a#} \<and> objects h' = objects h)"
proof (cases "queued h = {#}")
  case True
  obtain xs where "queued h = mset xs" "m_iCurNum h = length xs" by (rule timer_invE [OF assms])
  with True show ?thesis by (simp add: GetTop_def PopTimer_def)
next
  case False
  have "m_iCurNum h \<noteq> 0" using False by (auto simp: queued_def)
  with False first_least [OF assms False] PopTimer_spec [OF assms False] show ?thesis
    by (auto simp: GetTop_def)
qed

lemma top_and_pop_witness:
  "\<exists>h'. GetTop two_timers = Inr (Some 1) \<and> PopTimer two_timers = Inr h' \<and> queued h' = {#0#}"
  using top_and_pop [OF two_timers_inv(1)] two_timers_inv(2)
  by (auto simp: GetTop_def ptr_at_def) (auto simp: two_timers_def)

definition set_expire :: "address \<Rightarrow> int \<Rightarrow> CTimerHeap \<Rightarrow> CTimerHeap" where
  "set_expire a e h = h\<lparr>m_timers := (m_timers h)(a := map_option (m_iExpireTime_update (\<lambda>_. e)) (m_timers h a))\<rparr>"

lemma Adjust_spec:
  assumes "timer_inv h" and "a \<in># queued h" and "expiry h a \<le> e"
  shows "\<exists>h'. Adjust (Some a) (set_expire a e h) = Inr h' \<and> timer_inv h' \<and> queued h' = queued h \<and>
    expiry h' = (expiry h)(a := e) \<and> objects h' = objects (set_expire a e h)"
proof -
  obtain xs where xs: "rep h xs" "is_heap (expiry h) xs" "queued h = mset xs"
    by (rule timer_invE [OF assms(1)])
  let ?h = "set_expire a e h"
  obtain j where j: "j < length xs" "xs ! j = a" using assms(2) xs(3) by (auto simp: in_set_conv_nth)
  have rep1: "rep ?h xs"
    using xs(1) by (auto simp: rep_def shape_def in_slot_def set_expire_def split: if_splits)
  have "a \<in> set xs" using j by auto
  then obtain t where t: "m_timers ?h a = Some t" using rep1 unfolding rep_def shape_def by blast
  have slot: "m_aTimers ?h ! j = Some (xs ! j)" "m_iPos t = j"
    using rep1 j t by (auto simp: rep_def in_slot_def)
  have exp: "expiry ?h = (expiry h)(a := e)"
    using t by (auto simp: expiry_def objects_def set_expire_def fun_eq_iff)
  have "heap_below (expiry ?h) xs j"
  proof (rule heap_below_raise [OF xs(2) _ j(1)])
    show "distinct xs" using xs(1) by (simp add: rep_def shape_def)
    then show "expiry ?h (xs ! i) = expiry h (xs ! i)" if "i < length xs" "i \<noteq> j" for i
      using that j exp by (auto simp: nth_eq_iff_index_eq)
    show "expiry h (xs ! j) \<le> expiry ?h (xs ! j)" using exp j assms(3) by simp
  qed
  from HeapDown_heap [OF rep_hole [OF rep1 j(1)] slot(1) this] obtain h' ys where
    h': "HeapDown j ?h = Inr h'" "rep h' ys" "mset ys = mset xs" "is_heap (expiry ?h) ys"
      "objects h' = objects ?h" by blast
  have "Adjust (Some a) ?h = Inr h'" using t slot(2) h'(1) by (simp add: Adjust_def deref_def)
  with h' timer_invI [OF h'(2,4,5)] xs(3) exp expiry_objects [OF h'(5)] show ?thesis by auto
qed

text \<open>
  C23: prolonging a timer. Storing a later time in a queued timer and calling \<open>Adjust\<close>, as the
  event loop does after each successful read or write, restores the heap: the same timers are
  queued and only this one's time has changed.
\<close>

theorem prolong_timer:
  assumes "timer_inv h" and "a \<in># queued h" and "expiry h a \<le> e"
  shows "\<exists>h'. Adjust (Some a) (set_expire a e h) = Inr h' \<and> timer_inv h' \<and> queued h' = queued h \<and>
    expiry h' = (expiry h)(a := e) \<and> objects h' = objects (set_expire a e h)"
  using Adjust_spec [OF assms] .

lemma prolong_timer_witness:
  "\<exists>h'. Adjust (Some 1) (set_expire 1 120 two_timers) = Inr h' \<and> timer_inv h' \<and>
    queued h' = {#1, 0#} \<and> expiry h' = (expiry two_timers)(1 := 120)"
  using prolong_timer [OF two_timers_inv(1), of 1 120] two_timers_inv(2) two_timers_rep by auto

lemma DelTimer_spec:
  assumes "timer_inv h" and "m_timers h a = Some t"
  shows "\<exists>h'. DelTimer (Some a) h = Inr h' \<and> timer_inv h' \<and> queued h' = queued h \<and> expiry h' = expiry h \<and>
    objects h' = (objects h)(a \<mapsto> t\<lparr>callback_func := None, m_iPos := 0\<rparr>)"
proof -
  obtain xs where xs: "rep h xs" "is_heap (expiry h) xs" by (rule timer_invE [OF assms(1)])
  let ?h = "h\<lparr>m_timers := (m_timers h)(a \<mapsto> t\<lparr>callback_func := None\<rparr>)\<rparr>"
  have exp: "expiry ?h = expiry h" using assms(2) by (auto simp: expiry_def objects_def fun_eq_iff)
  have rep1: "rep ?h xs" using xs(1) assms(2) by (auto simp: rep_def shape_def in_slot_def split: if_splits)
  moreover have "timer_inv ?h" using rep1 xs(2) exp by (auto simp: timer_inv_def)
  moreover have "DelTimer (Some a) h = Inr ?h" using assms(2) by (simp add: DelTimer_def deref_def)
  ultimately show ?thesis
    using exp rep_array(2) [OF xs(1)] rep_array(2) [OF rep1] by (auto simp: objects_def fun_eq_iff)
qed

text \<open>
  Cancelling. \<open>DelTimer\<close> keeps the timer in the heap but takes away its function: when it is
  fired nothing happens, and every other timer is fired as before.
\<close>

theorem cancel_timer:
  assumes "timer_inv h" and "m_timers h a \<noteq> None"
  shows "\<exists>h'. DelTimer (Some a) h = Inr h' \<and> timer_inv h' \<and> queued h' = queued h \<and>
    expiry h' = expiry h \<and> fire call h' a w = w \<and> (\<forall>b. b \<noteq> a \<longrightarrow> fire call h' b w = fire call h b w)"
proof -
  obtain t where t: "m_timers h a = Some t" using assms(2) by auto
  from DelTimer_spec [OF assms(1) t] show ?thesis by (auto simp: fire_def)
qed

lemma cancel_timer_witness:
  "\<exists>h'. DelTimer (Some 1) two_timers = Inr h' \<and> timer_inv h' \<and> fire (\<lambda>f d w. w @ [(f, d)]) h' 1 [] = []"
  using cancel_timer [OF two_timers_inv(1), of 1 "\<lambda>f d w. w @ [(f, d)]" "[]"]
  by (auto simp: two_timers_def)

end
