(* ===== verification/Locks.thy ===== *)
theory Locks
  imports Base
begin

text \<open>
  The wrappers of \<open>lock/locker.h\<close> around the POSIX mutex, condition variable and semaphore. The calls
  are steps of a thread; the thread pool and the log use them.
\<close>

section \<open>Mutex and condition variable\<close>

datatype thread = Producer | Worker nat

record monitor =
  holder :: "thread option"
  waiters :: "thread set"

text \<open>What the constructors of \<open>CLocker\<close> and \<open>CCond\<close> make; they throw when the system refuses.\<close>

definition monitor_new :: monitor where
  [simp]: "monitor_new = \<lparr>holder = None, waiters = {}\<rparr>"

text \<open>\<open>None\<close>: the call blocks.\<close>

definition CLocker_Lock :: "thread \<Rightarrow> monitor \<Rightarrow> monitor option" where
  "CLocker_Lock t m = (if holder m = None then Some (m\<lparr>holder := Some t\<rparr>) else None)"

definition CLocker_Unlock :: "monitor \<Rightarrow> monitor" where
  "CLocker_Unlock m = m\<lparr>holder := None\<rparr>"

text \<open>
  \<open>Wait\<close> is two steps: it gives the mutex up and becomes a waiter, and it returns with the mutex
  when it is no waiter any more. \<open>Signal\<close> releases one waiter, if there is one.
\<close>

definition CCond_Wait_begin :: "thread \<Rightarrow> monitor \<Rightarrow> monitor" where
  "CCond_Wait_begin t m = m\<lparr>holder := None, waiters := insert t (waiters m)\<rparr>"

definition CCond_Wait_end :: "thread \<Rightarrow> monitor \<Rightarrow> monitor option" where
  "CCond_Wait_end t m = (if t \<in> waiters m then None else CLocker_Lock t m)"

inductive CCond_Signal :: "monitor \<Rightarrow> monitor \<Rightarrow> bool" where
  nobody: "CCond_Signal m m" if "waiters m = {}"
| somebody: "CCond_Signal m (m\<lparr>waiters := waiters m - {t}\<rparr>)" if "t \<in> waiters m"

text \<open>\<open>Broadcast\<close> releases all waiters. A waiter of \<open>WaitTime\<close> is also released when its time is over.\<close>

definition CCond_Broadcast :: "monitor \<Rightarrow> monitor" where
  "CCond_Broadcast m = m\<lparr>waiters := {}\<rparr>"

definition CCond_WaitTime_begin :: "thread \<Rightarrow> monitor \<Rightarrow> monitor" where
  "CCond_WaitTime_begin t m = CCond_Wait_begin t m"

definition CCond_WaitTime_over :: "thread \<Rightarrow> monitor \<Rightarrow> monitor" where
  "CCond_WaitTime_over t m = m\<lparr>waiters := waiters m - {t}\<rparr>"

text \<open>A thread that waits has given the mutex up, and has it again when the wait returns.\<close>

lemma wait_returns_with_lock:
  "CCond_Wait_end t m = Some m' \<Longrightarrow> holder m' = Some t \<and> t \<notin> waiters m'"
  by (auto simp: CCond_Wait_end_def CLocker_Lock_def split: if_splits)

lemma broadcast_wakes: "CCond_Wait_end t (CCond_Broadcast m) = CLocker_Lock t (CCond_Broadcast m)"
  by (simp add: CCond_Wait_end_def CCond_Broadcast_def)

section \<open>Semaphore\<close>

definition CSem_new :: "nat \<Rightarrow> nat" where
  "CSem_new num = num"

definition CSem_Post :: "nat \<Rightarrow> nat" where
  "CSem_Post sem = sem + 1"

definition CSem_Wait :: "nat \<Rightarrow> nat option" where
  "CSem_Wait sem = (if sem = 0 then None else Some (sem - 1))"

text \<open>After any calls, the waits that returned are at most the initial value and the posts.\<close>

inductive sem_run :: "nat \<Rightarrow> nat \<Rightarrow> nat \<Rightarrow> nat \<Rightarrow> bool" for num where
  new: "sem_run num 0 0 (CSem_new num)"
| post: "sem_run num (Suc posts) waits (CSem_Post sem)" if "sem_run num posts waits sem"
| wait: "sem_run num posts (Suc waits) sem'" if "sem_run num posts waits sem" "CSem_Wait sem = Some sem'"

lemma sem_balance: "sem_run num posts waits sem \<Longrightarrow> waits + sem = num + posts"
  by (induction rule: sem_run.induct) (auto simp: CSem_new_def CSem_Post_def CSem_Wait_def split: if_splits)

end
