(* ===== verification/Thread_Pool.thy ===== *)
theory Thread_Pool
  imports Locks
begin

text \<open>
  The thread pool of \<open>threadpool/threadpool.h\<close>: one producer, the event loop, that calls \<open>Append\<close>, and worker threads in the loop of \<open>Work\<close>. A step is
  one access to shared state, so that every interleaving of the threads is a run.
\<close>

section \<open>The pool\<close>

definition TASK_NUM :: nat where "TASK_NUM = 100"
definition MAX_THREAD_NUM :: nat where "MAX_THREAD_NUM = 16"

text \<open>Where a worker is in \<open>Work\<close>, and where the producer is in \<open>Append\<close>.\<close>

datatype 'a work =
    AtLock | AtEmpty | InWait | AtFront | Running 'a | AtUnlock

datatype 'a append_at =
    Away | AtSize 'a | AtPushLock 'a | AtPush 'a | AtPushUnlock | AtSignal

text \<open>
  The histories \<open>h_accepted\<close>, \<open>h_refused\<close> and \<open>h_started\<close> record the tasks in the order of
  \<open>push\<close>, of the \<open>false\<close> results, and of \<open>pop\<close>.
\<close>

record 'a pool =
  m_iThreads :: nat
  m_monitor :: monitor
  m_qTasks :: "'a list"
  p_work :: "nat \<Rightarrow> 'a work"
  p_append :: "'a append_at"
  h_accepted :: "'a list"
  h_refused :: "'a list"
  h_started :: "'a list"

text \<open>
  More threads than the limit: the constructor returns without starting any. \<open>made\<close> is how many
  threads the system grants; the constructor returns at the first failure, and those made run on.
\<close>

definition CThreadPool_new :: "nat \<Rightarrow> nat \<Rightarrow> 'a pool" where
  "CThreadPool_new thread_num made =
     \<lparr>m_iThreads = (if MAX_THREAD_NUM < thread_num then 0 else min made thread_num),
      m_monitor = monitor_new, m_qTasks = [],
      p_work = (\<lambda>_. AtLock), p_append = Away, h_accepted = [], h_refused = [], h_started = []\<rparr>"

abbreviation work_to :: "nat \<Rightarrow> 'a work \<Rightarrow> 'a pool \<Rightarrow> 'a pool" where
  "work_to i pc s \<equiv> s\<lparr>p_work := (p_work s)(i := pc)\<rparr>"

text \<open>The next step of worker \<open>i\<close> in \<open>Work\<close>; \<open>None\<close> when it is blocked.\<close>

definition Work :: "nat \<Rightarrow> 'a pool \<Rightarrow> 'a pool option" where
  "Work i s =
     (case p_work s i of
        AtLock \<Rightarrow> map_option (\<lambda>m. work_to i AtEmpty (s\<lparr>m_monitor := m\<rparr>))
                    (CLocker_Lock (Worker i) (m_monitor s))
      | AtEmpty \<Rightarrow>
          if m_qTasks s = []
          then Some (work_to i InWait (s\<lparr>m_monitor := CCond_Wait_begin (Worker i) (m_monitor s)\<rparr>))
          else Some (work_to i AtFront s)
      | InWait \<Rightarrow> map_option (\<lambda>m. work_to i AtEmpty (s\<lparr>m_monitor := m\<rparr>))
                    (CCond_Wait_end (Worker i) (m_monitor s))
      | AtFront \<Rightarrow> Some (work_to i (Running (hd (m_qTasks s)))
                     (s\<lparr>m_qTasks := tl (m_qTasks s), h_started := h_started s @ [hd (m_qTasks s)]\<rparr>))
      | Running task \<Rightarrow> Some (work_to i AtUnlock s)
      | AtUnlock \<Rightarrow> Some (work_to i AtLock (s\<lparr>m_monitor := CLocker_Unlock (m_monitor s)\<rparr>)))"

text \<open>The steps of \<open>Append\<close>.\<close>

inductive Append :: "'a pool \<Rightarrow> 'a pool \<Rightarrow> bool" where
  call: "Append s (s\<lparr>p_append := AtSize task\<rparr>)" if "p_append s = Away"
| full: "Append s (s\<lparr>p_append := Away, h_refused := h_refused s @ [task]\<rparr>)"
    if "p_append s = AtSize task" "TASK_NUM \<le> length (m_qTasks s)"
| room: "Append s (s\<lparr>p_append := AtPushLock task\<rparr>)"
    if "p_append s = AtSize task" "length (m_qTasks s) < TASK_NUM"
| enter: "Append s (s\<lparr>p_append := AtPush task, m_monitor := m\<rparr>)"
    if "p_append s = AtPushLock task" "CLocker_Lock Producer (m_monitor s) = Some m"
| push: "Append s (s\<lparr>p_append := AtPushUnlock, m_qTasks := m_qTasks s @ [task],
      h_accepted := h_accepted s @ [task]\<rparr>)"
    if "p_append s = AtPush task"
| leave: "Append s (s\<lparr>p_append := AtSignal, m_monitor := CLocker_Unlock (m_monitor s)\<rparr>)"
    if "p_append s = AtPushUnlock"
| signal: "Append s (s\<lparr>p_append := Away, m_monitor := m\<rparr>)"
    if "p_append s = AtSignal" "CCond_Signal (m_monitor s) m"

text \<open>A run of the pool: the threads in any order, and waits that end without a signal.\<close>

inductive pool_run :: "nat \<Rightarrow> 'a pool \<Rightarrow> bool" for n where
  new: "pool_run n (CThreadPool_new n made)"
| produce: "pool_run n s'" if "pool_run n s" "Append s s'"
| worker: "pool_run n s'" if "pool_run n s" "i < m_iThreads s" "Work i s = Some s'"
| spurious: "pool_run n (s\<lparr>m_monitor := (m_monitor s)\<lparr>waiters := waiters (m_monitor s) - {t}\<rparr>\<rparr>)"
    if "pool_run n s"

section \<open>The invariant\<close>

definition holds_lock :: "'a pool \<Rightarrow> thread \<Rightarrow> bool" where
  "holds_lock s t = (case t of
     Producer \<Rightarrow> (case p_append s of AtPush _ \<Rightarrow> True | AtPushUnlock \<Rightarrow> True | _ \<Rightarrow> False)
   | Worker i \<Rightarrow> p_work s i \<notin> {AtLock, InWait})"

definition lock_inv :: "'a pool \<Rightarrow> bool" where
  "lock_inv s \<longleftrightarrow> (\<forall>t. holds_lock s t \<longleftrightarrow> holder (m_monitor s) = Some t)"

definition wait_inv :: "'a pool \<Rightarrow> bool" where
  "wait_inv s \<longleftrightarrow> Producer \<notin> waiters (m_monitor s) \<and>
     (\<forall>i. Worker i \<in> waiters (m_monitor s) \<longrightarrow> p_work s i = InWait) \<and>
     (\<forall>i \<ge> m_iThreads s. p_work s i = AtLock)"

definition queue_inv :: "'a pool \<Rightarrow> bool" where
  "queue_inv s \<longleftrightarrow> (\<forall>i. p_work s i = AtFront \<longrightarrow> m_qTasks s \<noteq> []) \<and>
     h_accepted s = h_started s @ m_qTasks s \<and> length (m_qTasks s) \<le> TASK_NUM \<and>
     (\<forall>task. p_append s = AtPushLock task \<or> p_append s = AtPush task \<longrightarrow> length (m_qTasks s) < TASK_NUM)"

text \<open>With a task queued and no signal on its way, some worker is not asleep.\<close>

definition wake_inv :: "'a pool \<Rightarrow> bool" where
  "wake_inv s \<longleftrightarrow> (m_qTasks s \<noteq> [] \<longrightarrow> p_append s \<noteq> AtPushUnlock \<longrightarrow> p_append s \<noteq> AtSignal \<longrightarrow>
     0 < m_iThreads s \<longrightarrow> (\<exists>i < m_iThreads s. Worker i \<notin> waiters (m_monitor s)))"

definition pool_inv :: "'a pool \<Rightarrow> bool" where
  "pool_inv s \<longleftrightarrow> lock_inv s \<and> wait_inv s \<and> queue_inv s \<and> wake_inv s"

lemma holds_Worker [simp]: "holds_lock s (Worker i) \<longleftrightarrow> p_work s i \<noteq> AtLock \<and> p_work s i \<noteq> InWait"
  by (simp add: holds_lock_def)

lemma holds_Producer: "holds_lock s Producer \<longleftrightarrow> (\<exists>task. p_append s = AtPush task) \<or> p_append s = AtPushUnlock"
  by (simp add: holds_lock_def split: append_at.split)

lemma holds_Producer_cong: "p_append s' = p_append s \<Longrightarrow> holds_lock s' Producer = holds_lock s Producer"
  by (simp add: holds_lock_def)

lemma all_threads: "(\<forall>t. P t) \<longleftrightarrow> P Producer \<and> (\<forall>i. P (Worker i))"
  by (metis thread.exhaust)

lemmas monitor_defs = CLocker_Lock_def CLocker_Unlock_def CCond_Wait_begin_def CCond_Wait_end_def

lemmas inv_defs = pool_inv_def lock_inv_def wait_inv_def queue_inv_def wake_inv_def all_threads

lemma new_pool_inv: "pool_inv (CThreadPool_new n made)"
  by (auto simp: inv_defs holds_Producer CThreadPool_new_def)

lemma lock_free: "lock_inv s \<Longrightarrow> holder (m_monitor s) = None \<Longrightarrow> \<not> holds_lock s t"
  by (simp add: lock_inv_def)

lemma lock_other: "lock_inv s \<Longrightarrow> holds_lock s t \<Longrightarrow> holds_lock s u \<Longrightarrow> t = u"
  by (simp add: lock_inv_def)

lemma Append_inv:
  assumes "Append s s'" and "pool_inv s"
  shows "pool_inv s'"
  using assms
proof (induction rule: Append.induct)
  case (signal s m)
  from signal(2) show ?case
  proof cases
    case nobody
    with signal(1,3) show ?thesis by (auto simp: inv_defs holds_Producer)
  next
    case (somebody t)
    obtain i where i: "t = Worker i"
      using somebody signal(3) by (cases t) (auto simp: pool_inv_def wait_inv_def)
    then have "p_work s i = InWait" using somebody signal(3) by (simp add: pool_inv_def wait_inv_def)
    then have "i < m_iThreads s" using signal(3) by (auto simp: pool_inv_def wait_inv_def intro: ccontr)
    with i somebody signal(1,3) show ?thesis by (auto simp: inv_defs holds_Producer)
  qed
qed (auto simp: inv_defs holds_Producer monitor_defs split: if_splits)

lemma Work_inv:
  assumes "Work i s = Some s'" and "i < m_iThreads s" and "pool_inv s"
  shows "pool_inv s'"
proof -
  have inv: "lock_inv s" "wait_inv s" "queue_inv s" "wake_inv s" using assms(3) by (simp_all add: pool_inv_def)
  have mine: "holder (m_monitor s) = Some (Worker i)" if "p_work s i \<notin> {AtLock, InWait}"
    using inv(1) that by (simp add: lock_inv_def all_threads)
  have "p_append s' = p_append s"
    using assms(1) by (auto simp: Work_def split: work.splits if_splits)
  note prod = holds_Producer_cong [OF this]
  have "lock_inv s'"
    using assms(1) inv(1) mine prod
    by (cases "p_work s i") (auto simp: Work_def lock_inv_def all_threads monitor_defs split: if_splits)
  moreover have "wait_inv s'"
    using assms(1,2) inv(2)
    by (cases "p_work s i") (auto simp: Work_def wait_inv_def monitor_defs split: if_splits)
  moreover have "queue_inv s'"
  proof -
    have only: "j = i" if "p_work s j = AtFront" "p_work s i = AtFront" for j
      using lock_other [OF inv(1), of "Worker j" "Worker i"] that by simp
    show ?thesis
    proof (cases "p_work s i")
      case AtFront
      then obtain a q where q: "m_qTasks s = a # q" using inv(3) by (cases "m_qTasks s") (auto simp: queue_inv_def)
      have "p_work s j \<noteq> AtFront" if "j \<noteq> i" for j using only that AtFront by blast
      moreover have "s' = work_to i (Running a) (s\<lparr>m_qTasks := q, h_started := h_started s @ [a]\<rparr>)"
        using AtFront q assms(1) by (simp add: Work_def)
      moreover have "h_accepted s = h_started s @ a # q" "Suc (length q) \<le> TASK_NUM"
        "\<forall>task. p_append s = AtPushLock task \<or> p_append s = AtPush task \<longrightarrow> Suc (length q) < TASK_NUM"
        using inv(3) q by (simp_all add: queue_inv_def)
      ultimately show ?thesis by (simp add: queue_inv_def)
    qed (use assms(1) inv(3) in \<open>auto simp: Work_def queue_inv_def monitor_defs split: if_splits\<close>)
  qed
  moreover have "wake_inv s'"
    using assms(1,2) inv(2,4)
    by (cases "p_work s i")
      (auto simp: Work_def wake_inv_def wait_inv_def monitor_defs split: if_splits)
  ultimately show ?thesis by (simp add: pool_inv_def)
qed

lemma spurious_inv:
  assumes "pool_inv s"
  shows "pool_inv (s\<lparr>m_monitor := (m_monitor s)\<lparr>waiters := waiters (m_monitor s) - {t}\<rparr>\<rparr>)"
  using assms holds_Producer_cong [of "s\<lparr>m_monitor := (m_monitor s)\<lparr>waiters := waiters (m_monitor s) - {t}\<rparr>\<rparr>" s]
  by (auto simp: inv_defs)

lemma run_inv: "pool_run n s \<Longrightarrow> pool_inv s"
  by (induction rule: pool_run.induct) (auto intro: new_pool_inv Append_inv Work_inv spurious_inv)

text \<open>\<open>k\<close> steps of worker \<open>i\<close>.\<close>

fun works :: "nat \<Rightarrow> nat \<Rightarrow> 'a pool \<Rightarrow> 'a pool option" where
  "works i 0 s = Some s"
| "works i (Suc k) s = (case Work i s of None \<Rightarrow> None | Some s' \<Rightarrow> works i k s')"

text \<open>A worker that has the lock, or can get it, starts the next task by itself.\<close>

lemma takes_from_empty:
  assumes "p_work s i = AtEmpty" and "m_qTasks s \<noteq> []"
  shows "\<exists>s'. works i 2 s = Some s' \<and> p_work s' i = Running (hd (m_qTasks s)) \<and>
    h_started s' = h_started s @ [hd (m_qTasks s)]"
  using assms by (simp add: Work_def numeral_2_eq_2)

lemma takes_from_lock:
  assumes "p_work s i = AtLock \<or> p_work s i = InWait \<and> Worker i \<notin> waiters (m_monitor s)"
    and "holder (m_monitor s) = None" and "m_qTasks s \<noteq> []"
  shows "\<exists>s'. works i 3 s = Some s' \<and> p_work s' i = Running (hd (m_qTasks s)) \<and>
    h_started s' = h_started s @ [hd (m_qTasks s)]"
proof -
  define m where "m = (m_monitor s)\<lparr>holder := Some (Worker i)\<rparr>"
  have "Work i s = Some (work_to i AtEmpty (s\<lparr>m_monitor := m\<rparr>))"
    using assms by (auto simp: Work_def monitor_defs m_def)
  with takes_from_empty [of "work_to i AtEmpty (s\<lparr>m_monitor := m\<rparr>)" i] assms(3) show ?thesis
    by (simp add: numeral_3_eq_3 numeral_2_eq_2)
qed

lemma works_run:
  assumes "works i k s = Some s'" and "pool_run n s" and "i < m_iThreads s"
  shows "pool_run n s'"
  using assms
proof (induction k arbitrary: s)
  case (Suc k)
  then obtain s1 where s1: "Work i s = Some s1" "works i k s1 = Some s'" by (auto split: option.splits)
  have "m_iThreads s1 = m_iThreads s" using s1(1) by (auto simp: Work_def split: work.splits if_splits)
  with Suc.IH [OF s1(2) pool_run.worker [OF Suc.prems(2,3) s1(1)]] Suc.prems(3) show ?case by simp
qed simp

section \<open>Properties\<close>

text \<open>
  C9: the queue. In every reachable state the tasks that \<open>Append\<close> has accepted are those started,
  in the same order, followed by those still queued: none is lost, run twice or overtaken; and
  never more than the limit are queued, although the limit is tested without the lock.
\<close>

theorem pool_fifo:
  assumes "pool_run n s"
  shows "h_accepted s = h_started s @ m_qTasks s \<and> length (m_qTasks s) \<le> TASK_NUM"
  using run_inv [OF assms] by (simp add: pool_inv_def queue_inv_def)

definition one_task :: "nat pool" where
  "one_task = (CThreadPool_new 4 4)\<lparr>p_append := AtPushUnlock, m_monitor := \<lparr>holder = Some Producer, waiters = {}\<rparr>,
     m_qTasks := [8], h_accepted := [8]\<rparr>"

lemma one_task_run: "pool_run 4 one_task"
proof -
  let ?s0 = "CThreadPool_new 4 4 :: nat pool" and ?m = "\<lparr>holder = Some Producer, waiters = {}\<rparr>"
  let ?s1 = "?s0\<lparr>p_append := AtSize (8::nat)\<rparr>"
  let ?s2 = "?s1\<lparr>p_append := AtPushLock (8::nat)\<rparr>"
  let ?s3 = "?s2\<lparr>p_append := AtPush (8::nat), m_monitor := ?m\<rparr>"
  have "pool_run 4 ?s1"
    by (rule pool_run.produce [OF pool_run.new Append.call]) (simp add: CThreadPool_new_def)
  then have "pool_run 4 ?s2"
    by (rule pool_run.produce [OF _ Append.room]) (simp_all add: CThreadPool_new_def TASK_NUM_def)
  then have "pool_run 4 ?s3"
    by (rule pool_run.produce [OF _ Append.enter]) (simp_all add: CThreadPool_new_def CLocker_Lock_def)
  from pool_run.produce [OF this Append.push [of ?s3 "(8::nat)"]] show ?thesis
    by (simp add: one_task_def CThreadPool_new_def)
qed

lemma pool_fifo_witness:
  "h_accepted one_task = h_started one_task @ m_qTasks one_task \<and> length (m_qTasks one_task) \<le> TASK_NUM"
  using pool_fifo [OF one_task_run] .

definition waiting_task :: "nat pool" where
  "waiting_task = one_task\<lparr>p_append := Away, m_monitor := \<lparr>holder = None, waiters = {}\<rparr>\<rparr>"

lemma waiting_task_run: "pool_run 4 waiting_task"
proof -
  let ?s1 = "one_task\<lparr>p_append := AtSignal, m_monitor := \<lparr>holder = None, waiters = {}\<rparr>\<rparr>"
  have "pool_run 4 ?s1"
    using pool_run.produce [OF one_task_run Append.leave [of one_task]]
    by (simp add: one_task_def CLocker_Unlock_def)
  from pool_run.produce [OF this Append.signal [of ?s1 "m_monitor ?s1"]] show ?thesis
    by (simp add: CCond_Signal.nobody waiting_task_def)
qed

lemma waiting_task_state: "m_qTasks waiting_task = [8]" "m_iThreads waiting_task = 4"
    "p_append waiting_task = Away" "h_started waiting_task = []" "p_work waiting_task 2 = AtLock"
    "holder (m_monitor waiting_task) = None"
  by (simp_all add: waiting_task_def one_task_def CThreadPool_new_def MAX_THREAD_NUM_def)

text \<open>
  C19: mutual exclusion. At most one thread is between \<open>Lock\<close> and \<open>Unlock\<close>; as the task runs there,
  no two tasks ever run at the same time, and none while the event loop pushes one.
\<close>

theorem one_task_at_a_time:
  assumes "pool_run n s" and "p_work s i = Running a"
  shows "(\<forall>j b. p_work s j = Running b \<longrightarrow> j = i) \<and> (\<forall>b. p_append s \<noteq> AtPush b) \<and>
    holder (m_monitor s) = Some (Worker i)"
proof -
  have inv: "lock_inv s" using run_inv [OF assms(1)] by (simp add: pool_inv_def)
  have "holds_lock s (Worker i)" using assms(2) by simp
  moreover have "j = i" if "p_work s j = Running b" for j b
    using lock_other [OF inv, of "Worker j" "Worker i"] that assms(2) by simp
  moreover have "p_append s \<noteq> AtPush b" for b
    using lock_other [OF inv, of Producer "Worker i"] assms(2) by (auto simp: holds_Producer)
  ultimately show ?thesis using inv by (auto simp: lock_inv_def)
qed

lemma one_task_at_a_time_witness:
  "\<exists>s. pool_run 4 s \<and> p_work s 2 = Running (8::nat) \<and> (\<forall>j b. p_work s j = Running b \<longrightarrow> j = 2)"
proof -
  obtain s where s: "works 2 3 waiting_task = Some s" "p_work s 2 = Running (8::nat)"
    using takes_from_lock [of waiting_task 2] waiting_task_state by auto
  have run: "pool_run 4 s" by (rule works_run [OF s(1) waiting_task_run]) (simp add: waiting_task_state)
  from one_task_at_a_time [OF run s(2)] run s(2) show ?thesis by blast
qed

text \<open>
  C15: no wake-up is lost. In every reachable state with a task queued and the event loop outside
  of \<open>Append\<close>, some worker can start the first task in at most five steps of its own, whatever the
  other workers do not do: they need not move, and no further signal is needed.
\<close>

theorem next_task_starts:
  assumes "pool_run n s" and "0 < m_iThreads s" and "m_qTasks s \<noteq> []" and "p_append s = Away"
  shows "\<exists>i < m_iThreads s. \<exists>k \<le> 5. \<exists>s'. works i k s = Some s' \<and>
    p_work s' i = Running (hd (m_qTasks s)) \<and> h_started s' = h_started s @ [hd (m_qTasks s)]"
proof -
  have inv: "lock_inv s" "wait_inv s" "wake_inv s"
    using run_inv [OF assms(1)] by (simp_all add: pool_inv_def)
  have no_prod: "holder (m_monitor s) \<noteq> Some Producer"
    using inv(1) assms(4) by (auto simp: lock_inv_def all_threads holds_Producer)
  show ?thesis
  proof (cases "holder (m_monitor s)")
    case None
    obtain i where i: "i < m_iThreads s" "Worker i \<notin> waiters (m_monitor s)"
      using inv(3) assms(2-4) by (auto simp: wake_inv_def)
    have "p_work s i = AtLock \<or> p_work s i = InWait"
      using lock_free [OF inv(1) None, of "Worker i"] by auto
    with i takes_from_lock [OF _ None assms(3), of i] show ?thesis
      by (intro exI [of _ i] conjI exI [of _ 3]) auto
  next
    case (Some t)
    then obtain i where t: "t = Worker i" using no_prod by (cases t) auto
    have "holds_lock s (Worker i)" using inv(1) Some t unfolding lock_inv_def by blast
    then have crit: "p_work s i \<noteq> AtLock" "p_work s i \<noteq> InWait" by simp_all
    have i: "i < m_iThreads s" using inv(2) crit by (auto simp: wait_inv_def intro: ccontr)
    have unlocked: "\<exists>s'. works i 3 (work_to i AtLock (s\<lparr>m_monitor := CLocker_Unlock (m_monitor s)\<rparr>)) = Some s' \<and>
        p_work s' i = Running (hd (m_qTasks s)) \<and> h_started s' = h_started s @ [hd (m_qTasks s)]"
      using takes_from_lock [of "work_to i AtLock (s\<lparr>m_monitor := CLocker_Unlock (m_monitor s)\<rparr>)" i]
        assms(3) by (simp add: CLocker_Unlock_def)
    have "\<exists>k \<le> 5. \<exists>s'. works i k s = Some s' \<and>
        p_work s' i = Running (hd (m_qTasks s)) \<and> h_started s' = h_started s @ [hd (m_qTasks s)]"
    proof (cases "p_work s i")
      case AtEmpty
      with takes_from_empty [OF _ assms(3)] show ?thesis by (intro exI [of _ 2]) auto
    next
      case AtFront
      then show ?thesis by (intro exI [of _ 1]) (simp add: Work_def)
    next
      case (Running a)
      then have "works i 5 s = works i 3 (work_to i AtLock (s\<lparr>m_monitor := CLocker_Unlock (m_monitor s)\<rparr>))"
        by (simp add: Work_def eval_nat_numeral)
      with unlocked show ?thesis by (intro exI [of _ 5]) simp
    next
      case AtUnlock
      then have "works i 4 s = works i 3 (work_to i AtLock (s\<lparr>m_monitor := CLocker_Unlock (m_monitor s)\<rparr>))"
        by (simp add: Work_def eval_nat_numeral)
      with unlocked show ?thesis by (intro exI [of _ 4]) simp
    qed (use crit in simp_all)
    with i show ?thesis by blast
  qed
qed

lemma next_task_starts_witness:
  "\<exists>i < 4. \<exists>k \<le> 5. \<exists>s'. works i k waiting_task = Some s' \<and> p_work s' i = Running (8::nat) \<and> h_started s' = [8]"
  using next_task_starts [OF waiting_task_run] by (simp add: waiting_task_state)

end
