(* ===== verification/Event_Loop.thy ===== *)
theory Event_Loop
  imports Http_Life Timer_Queue Thread_Pool
begin

text \<open>
  The event loop of \<open>main.cpp\<close>: accepting sockets, dispatching events, signals that arrive through a
  pipe, and the timers that close idle connections. The steps of a worker thread stand between
  those of the loop. The answers of the kernel are arguments of the handlers.
\<close>

section \<open>State\<close>

definition MAX_FD :: nat where "MAX_FD = 65536"
definition TIMESLOT :: int where "TIMESLOT = 5"

abbreviation SIGALRM :: nat where "SIGALRM \<equiv> 14"
abbreviation SIGTERM :: nat where "SIGTERM \<equiv> 15"

record SClientData =
  address :: sockaddr_in
  sock_fd :: int
  timer :: "address option"

text \<open>
  \<open>https\<close> and \<open>clientDatas\<close> are the arrays of \<open>MAX_FD\<close> objects; a pointer to a client's data is its
  index. \<open>pool_tasks\<close> is the queue of the thread pool, \<open>pipe_bytes\<close> what was sent into the pipe and
  not received yet.
\<close>

record server =
  srv_world :: world
  https :: "nat \<Rightarrow> CHttp"
  clientDatas :: "nat \<Rightarrow> SClientData"
  cTimerHeap :: CTimerHeap
  pool_tasks :: "nat list"
  listenFd :: int
  pipeFd0 :: int
  pipe_bytes :: "nat list"
  timeout :: bool
  stop_server :: bool

text \<open>The index of a descriptor in the arrays.\<close>

definition slot :: "int \<Rightarrow> nat res" where
  "slot fd = (if 0 \<le> fd \<and> fd < int MAX_FD then Inr (nat fd) else Inl OutOfBounds)"

section \<open>Signals\<close>

text \<open>The handler sends the low byte of the signal's number.\<close>

definition SigHandler :: "nat \<Rightarrow> server \<Rightarrow> server" where
  "SigHandler sig s = s\<lparr>pipe_bytes := pipe_bytes s @ [sig mod 256]\<rparr>"

definition deal_signal :: "nat \<Rightarrow> server \<Rightarrow> server" where
  "deal_signal sig s =
     (if sig = SIGALRM then s\<lparr>timeout := True\<rparr>
      else if sig = SIGTERM then s\<lparr>stop_server := True\<rparr>
      else s)"

text \<open>One \<open>recv\<close> of at most 1024 bytes; an error or nothing received changes nothing.\<close>

definition on_signals :: "bool \<Rightarrow> server \<Rightarrow> server" where
  "on_signals recv_fails s =
     (if recv_fails \<or> pipe_bytes s = [] then s
      else fold deal_signal (take 1024 (pipe_bytes s)) (s\<lparr>pipe_bytes := drop 1024 (pipe_bytes s)\<rparr>))"

section \<open>Closing\<close>

text \<open>The function of every timer, whose address is \<open>CALLBACK\<close>.\<close>

definition CALLBACK :: address where "CALLBACK = 1"

definition CallBackFunc :: "(nat \<Rightarrow> SClientData) \<Rightarrow> nat \<Rightarrow> world \<Rightarrow> world" where
  "CallBackFunc cd d w =
     (let w1 = emit (EpollDel (m_iEpollFd w) (sock_fd (cd d))) w;
          w2 = emit (CloseFd (sock_fd (cd d))) w1
      in w2\<lparr>m_iHttpCnt := m_iHttpCnt w2 - 1\<rparr>)"

definition SendInfo :: "int \<Rightarrow> string \<Rightarrow> world \<Rightarrow> world" where
  "SendInfo conn info w = emit (CloseFd conn) (emit (Sent conn info) w)"

text \<open>\<open>tempTimer->callback_func(&clientDatas[d])\<close>, then \<open>DelTimer(tempTimer)\<close>.\<close>

definition close_client :: "address option \<Rightarrow> nat \<Rightarrow> server \<Rightarrow> server res" where
  "close_client tempTimer d s =
     bind_res (deref (cTimerHeap s) tempTimer) (\<lambda>t.
       if callback_func t = None then Inl NullCall
       else
         bind_res (DelTimer tempTimer (cTimerHeap s)) (\<lambda>h.
           Inr (s\<lparr>srv_world := CallBackFunc (clientDatas s) d (srv_world s), cTimerHeap := h\<rparr>)))"

text \<open>Giving a connection three more time slots.\<close>

definition prolong :: "address option \<Rightarrow> int \<Rightarrow> server \<Rightarrow> server res" where
  "prolong tempTimer cur s =
     (case tempTimer of
        None \<Rightarrow> Inr s
      | Some a \<Rightarrow>
          bind_res (deref (cTimerHeap s) tempTimer) (\<lambda>t.
          bind_res (Adjust tempTimer (set_expire a (cur + 3 * TIMESLOT) (cTimerHeap s))) (\<lambda>h.
            Inr (s\<lparr>cTimerHeap := h\<rparr>))))"

text \<open>\<open>TimerHandler\<close>; the \<open>alarm\<close> it sets again is not modelled, the signal may come at any time.\<close>

definition TimerHandler :: "int \<Rightarrow> server \<Rightarrow> server res" where
  "TimerHandler now s =
     bind_res (Tick (\<lambda>f. CallBackFunc (clientDatas s)) now (cTimerHeap s) (srv_world s)) (\<lambda>(h, w).
       Inr (s\<lparr>cTimerHeap := h, srv_world := w\<rparr>))"

section \<open>The handlers\<close>

text \<open>
  A new connection: \<open>connfd\<close> and \<open>addr\<close> are what \<open>accept\<close> returns, \<open>a\<close> is where the timer object is
  allocated, \<open>now\<close> the clock.
\<close>

definition on_accept :: "kernel \<Rightarrow> int \<Rightarrow> address \<Rightarrow> int \<Rightarrow> sockaddr_in \<Rightarrow> server \<Rightarrow> server res" where
  "on_accept k now a connfd addr s =
     (if connfd < 0 then Inr s
      else if m_iHttpCnt (srv_world s) \<ge> int MAX_FD then
        Inr (s\<lparr>srv_world := SendInfo connfd ''Internal server busy'' (srv_world s)\<rparr>)
      else
        bind_res (slot connfd) (\<lambda>d.
          case CHttp_Init k connfd addr 0 (https s d) (srv_world s) of (c, w) \<Rightarrow>
            let h = cTimerHeap s;
                tempTimer = CHeapTimer_new now (3 * TIMESLOT) (Some CALLBACK) d
            in bind_res (AddTimer (Some a) (h\<lparr>m_timers := (m_timers h)(a \<mapsto> tempTimer)\<rparr>)) (\<lambda>h'.
                 Inr (s\<lparr>srv_world := w, https := (https s)(d := c),
                        clientDatas := (clientDatas s)(d := \<lparr>address = addr, sock_fd = connfd, timer = Some a\<rparr>),
                        cTimerHeap := h'\<rparr>))))"

definition on_hangup :: "int \<Rightarrow> server \<Rightarrow> server res" where
  "on_hangup sockfd s =
     bind_res (slot sockfd) (\<lambda>d. close_client (timer (clientDatas s d)) d s)"

text \<open>\<open>pool->Append\<close> as the event loop sees it; its result is not looked at.\<close>

definition append_task :: "nat \<Rightarrow> server \<Rightarrow> server" where
  "append_task d s = (if TASK_NUM \<le> length (pool_tasks s) then s else s\<lparr>pool_tasks := pool_tasks s @ [d]\<rparr>)"

definition on_readable :: "receiver \<Rightarrow> int \<Rightarrow> int \<Rightarrow> server \<Rightarrow> server res option" where
  "on_readable recv cur sockfd s =
     (case slot sockfd of
        Inl e \<Rightarrow> Some (Inl e)
      | Inr d \<Rightarrow>
          (case CHttp_Read recv (https s d) of
             None \<Rightarrow> None
           | Some (b, c) \<Rightarrow>
               let tempTimer = timer (clientDatas s d); s1 = s\<lparr>https := (https s)(d := c)\<rparr> in
               if b then Some (prolong tempTimer cur (append_task d s1))
               else
                 Some (bind_res (deref (cTimerHeap s1) tempTimer) (\<lambda>t.
                   if callback_func t \<noteq> None then close_client tempTimer d s1 else Inr s1))))"

definition on_writable :: "sender \<Rightarrow> int \<Rightarrow> int \<Rightarrow> server \<Rightarrow> server res option" where
  "on_writable writev cur sockfd s =
     (case slot sockfd of
        Inl e \<Rightarrow> Some (Inl e)
      | Inr d \<Rightarrow>
          map_option (\<lambda>r. bind_res r (\<lambda>(b, c, w).
            let tempTimer = timer (clientDatas s d); s1 = s\<lparr>https := (https s)(d := c), srv_world := w\<rparr> in
            if b then prolong tempTimer cur s1
            else if tempTimer = None then Inr s1
            else close_client tempTimer d s1))
            (CHttp_Write writev (https s d) (srv_world s)))"

text \<open>A worker takes the first task and runs it, as \<open>Work\<close> does under the lock.\<close>

definition run_task :: "kernel \<Rightarrow> server \<Rightarrow> server res" where
  "run_task k s =
     (case pool_tasks s of
        [] \<Rightarrow> Inr s
      | d # ds \<Rightarrow>
          bind_res (HttpParse k (https s d) (srv_world s)) (\<lambda>(c, w).
            Inr (s\<lparr>https := (https s)(d := c), srv_world := w, pool_tasks := ds\<rparr>)))"

section \<open>The loop\<close>

text \<open>What \<open>epoll_wait\<close> reports for a descriptor, with the answers its handler will get.\<close>

record event =
  ev_fd :: int
  ev_events :: "32 word"
  ev_connfd :: int
  ev_addr :: sockaddr_in
  ev_new :: address
  ev_recv :: receiver
  ev_writev :: sender
  ev_recv_fails :: bool
  ev_time :: int

abbreviation HANGUP :: "32 word" where "HANGUP \<equiv> EPOLLRDHUP OR EPOLLHUP OR EPOLLERR"

text \<open>\<open>events & wanted\<close> as a condition.\<close>

definition has_event :: "32 word \<Rightarrow> 32 word \<Rightarrow> bool" where
  "has_event events wanted \<longleftrightarrow> events AND wanted \<noteq> 0"

definition handle_event :: "kernel \<Rightarrow> event \<Rightarrow> server \<Rightarrow> server res option" where
  "handle_event k e s =
     (let sockfd = ev_fd e; events = ev_events e in
      if sockfd = listenFd s then Some (on_accept k (ev_time e) (ev_new e) (ev_connfd e) (ev_addr e) s)
      else if has_event events HANGUP then Some (on_hangup sockfd s)
      else if sockfd = pipeFd0 s \<and> has_event events EPOLLIN then Some (Inr (on_signals (ev_recv_fails e) s))
      else if has_event events EPOLLIN then on_readable (ev_recv e) (ev_time e) sockfd s
      else if has_event events EPOLLOUT then on_writable (ev_writev e) (ev_time e) sockfd s
      else Some (Inr s))"

fun handle_events :: "kernel \<Rightarrow> event list \<Rightarrow> server \<Rightarrow> server res option" where
  "handle_events k [] s = Some (Inr s)"
| "handle_events k (e # es) s =
     (case handle_event k e s of
        None \<Rightarrow> None
      | Some (Inl f) \<Rightarrow> Some (Inl f)
      | Some (Inr s') \<Rightarrow> handle_events k es s')"

text \<open>
  One round of the loop. \<open>events = None\<close>: \<open>epoll_wait\<close> failed, with \<open>EINTR\<close> or otherwise; the result
  says whether the loop goes on.
\<close>

definition loop_round :: "kernel \<Rightarrow> event list option \<Rightarrow> bool \<Rightarrow> int \<Rightarrow> server \<Rightarrow> (bool \<times> server) res option" where
  "loop_round k events eintr now s =
     (if events = None \<and> \<not> eintr then Some (Inr (False, s))
      else
        map_option (\<lambda>r. bind_res r (\<lambda>s1.
          bind_res (if timeout s1 then bind_res (TimerHandler now s1) (\<lambda>s2. Inr (s2\<lparr>timeout := False\<rparr>)) else Inr s1) (\<lambda>s2.
            Inr (\<not> stop_server s2, s2))))
          (handle_events k (case events of None \<Rightarrow> [] | Some es \<Rightarrow> es) s))"

text \<open>
  The arguments, without the program's name: the level is read from \<open>argv[2]\<close> although one argument
  is enough to get there, and the missing one is the null pointer.
\<close>

definition main_args :: "string list \<Rightarrow> (int \<times> int) option res" where
  "main_args argv =
     (case argv of
        [] \<Rightarrow> Inr None
      | [p] \<Rightarrow> Inl NullDeref
      | p # l # _ \<Rightarrow>
          (case (atoi p, atoi l) of
             (Some port, Some level) \<Rightarrow> Inr (Some (port, level))
           | _ \<Rightarrow> Inl IntOverflow))"

text \<open>The state in which the loop starts.\<close>

definition server_start :: "kernel \<Rightarrow> int \<Rightarrow> int \<Rightarrow> int \<times> int \<Rightarrow> (nat \<Rightarrow> CHttp) \<Rightarrow> server" where
  "server_start k epfd listen pipe conns =
     (let w0 = \<lparr>m_iEpollFd = epfd, m_iHttpCnt = 0, w_calls = []\<rparr>;
          w1 = AddFd k epfd listen False 0 w0;
          w2 = snd (SetNonBlocking k (snd pipe) w1);
          w3 = AddFd k epfd (fst pipe) False 0 w2
      in \<lparr>srv_world = w3, https = conns,
          clientDatas = (\<lambda>_. \<lparr>address = \<lparr>sin_addr = 0, sin_port = 0\<rparr>, sock_fd = 0, timer = None\<rparr>),
          cTimerHeap = CTimerHeap_new 1000 Map.empty, pool_tasks = [], listenFd = listen, pipeFd0 = fst pipe,
          pipe_bytes = [], timeout = False, stop_server = False\<rparr>)"

end
