(* ===== verification/Task_Queue.thy ===== *)
theory Task_Queue
  imports Event_Loop
begin

text \<open>
  The thread pool implements the queue of tasks that the event loop's model has: every run of the
  pool, with its threads in any order, is a run of \<open>append_task\<close> and of taking the first task.
\<close>

section \<open>The abstract queue\<close>

text \<open>
  The tasks started and refused so far, and the server whose \<open>pool_tasks\<close> is the queue. A worker
  takes the first task, as in \<open>run_task\<close>.
\<close>

inductive queue_run :: "nat list \<Rightarrow> nat list \<Rightarrow> server \<Rightarrow> bool" where
  none: "queue_run [] [] s" if "pool_tasks s = []"
| offer: "queue_run st (if append_task d s = s then rf @ [d] else rf) (append_task d s)" if "queue_run st rf s"
| takes: "queue_run (st @ [d]) rf (s\<lparr>pool_tasks := ds\<rparr>)" if "queue_run st rf s" "pool_tasks s = d # ds"

lemma append_task_full: "append_task d s = s \<longleftrightarrow> TASK_NUM \<le> length (pool_tasks s)"
proof
  assume "append_task d s = s"
  then have "pool_tasks (append_task d s) = pool_tasks s" by simp
  then show "TASK_NUM \<le> length (pool_tasks s)" by (simp add: append_task_def split: if_splits)
qed (simp add: append_task_def)

lemma run_task_takes: "run_task k s = Inr s' \<Longrightarrow> pool_tasks s = d # ds \<Longrightarrow> pool_tasks s' = ds"
  by (auto simp: run_task_def bind_res_Inr_iff)

section \<open>Refinement\<close>

text \<open>Each step of the pool is one of the queue, or none.\<close>

abbreviation as_queue :: "server \<Rightarrow> nat pool \<Rightarrow> bool" where
  "as_queue s p \<equiv> queue_run (h_started p) (h_refused p) (s\<lparr>pool_tasks := m_qTasks p\<rparr>)"

lemma Append_simulated:
  assumes "Append p p'" and "queue_inv p" and "as_queue s p"
  shows "as_queue s p'"
proof -
  note offer = queue_run.offer [OF assms(3)]
  from assms(1) show ?thesis
  proof cases
    case (full task)
    then show ?thesis using offer [of task] by (simp add: append_task_full) (simp add: append_task_def)
  next
    case (push task)
    then have "length (m_qTasks p) < TASK_NUM" using assms(2) by (auto simp: queue_inv_def)
    with push show ?thesis using offer [of task] by (simp add: append_task_full) (simp add: append_task_def)
  qed (use assms(3) in simp_all)
qed

lemma Work_simulated:
  assumes "Work i p = Some p'" and "queue_inv p" and "as_queue s p"
  shows "as_queue s p'"
proof (cases "p_work p i = AtFront")
  case True
  then obtain d q where q: "m_qTasks p = d # q" using assms(2) by (cases "m_qTasks p") (auto simp: queue_inv_def)
  with queue_run.takes [OF assms(3), of d q] True assms(1) show ?thesis by (auto simp: Work_def)
next
  case False
  with assms(1) have "h_started p' = h_started p" "h_refused p' = h_refused p" "m_qTasks p' = m_qTasks p"
    by (auto simp: Work_def split: work.splits if_splits)
  with assms(3) show ?thesis by simp
qed

text \<open>
  C14: the pool implements the queue. Whatever the order in which the event loop in \<open>Append\<close> and the
  workers in \<open>Work\<close> run, what has been started, refused and queued is the outcome of a sequence of
  \<open>append_task\<close> and of taking first tasks, each in one step: the limit that is tested without the
  lock, the three steps of pushing and the waits make no difference.
\<close>

theorem pool_implements_queue:
  assumes "pool_run n p" and "pool_tasks s = []"
  shows "queue_run (h_started p) (h_refused p) (s\<lparr>pool_tasks := m_qTasks p\<rparr>)"
  using assms(1)
proof (induction rule: pool_run.induct)
  case (new made)
  show ?case using assms(2) queue_run.none [of "s\<lparr>pool_tasks := []\<rparr>"] by (simp add: CThreadPool_new_def)
next
  case (produce p p')
  then show ?case using Append_simulated run_inv unfolding pool_inv_def by blast
next
  case (worker p i p')
  then show ?case using Work_simulated run_inv unfolding pool_inv_def by blast
qed simp

lemma pool_implements_queue_witness:
  "queue_run [] [] ((server_start demo_kernel 3 5 (6, 7) (\<lambda>_. idle_conn))\<lparr>pool_tasks := [8]\<rparr>)"
proof -
  have "pool_tasks (server_start demo_kernel 3 5 (6, 7) (\<lambda>_. idle_conn)) = []" by (simp add: server_start_def Let_def)
  from pool_implements_queue [OF waiting_task_run this] show ?thesis
    by (simp add: waiting_task_def one_task_def CThreadPool_new_def)
qed

end
