(* ===== verification/Event_Inv.thy ===== *)
theory Event_Inv
  imports Event_Loop
begin

text \<open>
  The bookkeeping of connections as an invariant of the event loop: each handler, the timer tick and a
  worker's task keep it.
\<close>

section \<open>Connections\<close>

text \<open>A timer that still has its function, and its client.\<close>

definition live_timer :: "CTimerHeap \<Rightarrow> address \<Rightarrow> nat \<Rightarrow> bool" where
  "live_timer h a d \<longleftrightarrow> a \<in># queued h \<and>
     (\<exists>t. objects h a = Some t \<and> callback_func t = Some CALLBACK \<and> m_sClientData t = d)"

definition live :: "server \<Rightarrow> nat set" where
  "live s = {d. \<exists>a. live_timer (cTimerHeap s) a d}"

text \<open>The timers of the heap: their functions are \<open>CALLBACK\<close> or have been taken away.\<close>

definition timers_ok :: "CTimerHeap \<Rightarrow> bool" where
  "timers_ok h \<longleftrightarrow> timer_inv h \<and>
     (\<forall>a t. objects h a = Some t \<longrightarrow> callback_func t = None \<or> callback_func t = Some CALLBACK)"

text \<open>The connection object of a descriptor, and the data of a client as its timer points to it.\<close>

definition conn_ok :: "server \<Rightarrow> nat \<Rightarrow> bool" where
  "conn_ok s d \<longleftrightarrow> d < MAX_FD \<and> m_iSockFd (https s d) = int d \<and> conn_inv (https s d)"

definition client_ok :: "server \<Rightarrow> nat \<Rightarrow> bool" where
  "client_ok s d \<longleftrightarrow> conn_ok s d \<and> sock_fd (clientDatas s d) = int d \<and>
     (\<exists>a. timer (clientDatas s d) = Some a \<and> (\<forall>b. live_timer (cTimerHeap s) b d \<longleftrightarrow> b = a)) \<and>
     registered (int d) (srv_world s) \<noteq> None"

definition server_inv :: "server \<Rightarrow> bool" where
  "server_inv s \<longleftrightarrow> timers_ok (cTimerHeap s) \<and> (\<forall>d \<in> live s. client_ok s d) \<and>
     (\<forall>d \<in> set (pool_tasks s). conn_ok s d) \<and> m_iHttpCnt (srv_world s) = int (card (live s)) \<and>
     (\<forall>fd. registered fd (srv_world s) \<noteq> None \<longrightarrow> fd = listenFd s \<or> fd = pipeFd0 s \<or> (\<exists>d \<in> live s. fd = int d)) \<and>
     (\<forall>d \<in> live s. int d \<noteq> listenFd s \<and> int d \<noteq> pipeFd0 s)"

lemma server_invD:
  assumes "server_inv s"
  shows "timers_ok (cTimerHeap s)" "\<And>d. d \<in> live s \<Longrightarrow> client_ok s d" "\<And>d. d \<in> set (pool_tasks s) \<Longrightarrow> conn_ok s d"
    "m_iHttpCnt (srv_world s) = int (card (live s))"
    "\<And>fd. registered fd (srv_world s) \<noteq> None \<Longrightarrow> fd \<noteq> listenFd s \<Longrightarrow> fd \<noteq> pipeFd0 s \<Longrightarrow> \<exists>d \<in> live s. fd = int d"
    "\<And>d. d \<in> live s \<Longrightarrow> int d \<noteq> listenFd s \<and> int d \<noteq> pipeFd0 s" "finite (live s)"
proof -
  show ok: "\<And>d. d \<in> live s \<Longrightarrow> client_ok s d" using assms by (simp add: server_inv_def)
  then show "finite (live s)"
    by (intro finite_subset [of "live s" "{..<MAX_FD}"]) (auto simp: client_ok_def conn_ok_def)
qed (use assms in \<open>auto simp: server_inv_def\<close>)

lemma live_timer_objects:
  "objects h' = objects h \<Longrightarrow> queued h' = queued h \<Longrightarrow> live_timer h' = live_timer h"
  by (simp add: live_timer_def fun_eq_iff)

text \<open>What the epoll calls of one descriptor do to the registrations.\<close>

definition only_fd :: "int \<Rightarrow> world \<Rightarrow> world \<Rightarrow> bool" where
  "only_fd fd w w' \<longleftrightarrow> (\<forall>j. j \<noteq> fd \<longrightarrow> registered j w' = registered j w)"

lemma only_fd_refl [simp]: "only_fd fd w w"
  by (simp add: only_fd_def)

lemma only_fd_ModFd [simp]: "only_fd fd w (ModFd e fd ev t w')  = only_fd fd w w'"
  by (auto simp: only_fd_def)

lemma only_fd_RemoveFd: "only_fd fd w (RemoveFd e fd w)"
  by (simp add: only_fd_def)

lemma loop_ends_only:
  assumes "loop_ends fd b c w c' w'"
  shows "only_fd fd w w'"
  using assms by cases (auto simp: only_fd_def sending_interest)

lemma Write_effect:
  assumes "conn_inv c" and "m_iSockFd c = fd" and "fd \<noteq> -1" and "registered fd w \<noteq> None"
    and "CHttp_Write writev c w = Some (Inr (b, c', w'))"
  shows "conn_inv c' \<and> m_iSockFd c' = fd \<and> registered fd w' \<noteq> None \<and> only_fd fd w w' \<and>
    m_iHttpCnt w' = m_iHttpCnt w \<and> m_iEpollFd w' = m_iEpollFd w"
proof (cases "m_iDataLen c = 0")
  case True
  then have eq: "c' = reset_buffers c" "w' = ModFd (m_iEpollFd w) fd EPOLLIN (m_iTriggerMode c) w"
    using assms(2,5) by (simp_all add: CHttp_Write_def)
  have "\<not> m_bLinger c" using assms(1) by (simp add: conn_inv_def)
  then have "conn_inv c'" by (simp add: eq(1))
  then show ?thesis using assms(2,4) eq by (simp add: reset_buffers_def)
next
  case False
  then have ends: "loop_ends fd b c w c' w'"
    using assms by (intro write_loop_ends) (auto simp: CHttp_Write_def conn_inv_def)
  note only = loop_ends_only [OF ends]
  from ends show ?thesis
  proof cases
    case (again cs)
    with assms(1,2,4) only stable_conn_inv [OF again(3)] show ?thesis
      by (auto simp: stable_of_def sending_interest)
  next
    case (failed cs)
    with assms(1,2,4) only stable_conn_inv [OF failed(3)] show ?thesis
      by (auto simp: stable_of_def sending_interest)
  next
    case (finished cs)
    with assms(1,2,4) only stable_conn_inv [OF finished(3)] show ?thesis
      by (auto simp: stable_of_def sending_interest)
  qed
qed

text \<open>A task that does not close: the page's descriptor is opened and closed on the way.\<close>

lemma Parse_effect:
  assumes "write_inv c" and "m_iSockFd c = fd" and "fd \<noteq> -1" and "HttpParse k c w = Inr (c', w')" and "m_iSockFd c' \<noteq> -1"
    and "registered (k_open k (m_aFile c)) w = None"
  shows "(conn_inv c \<longrightarrow> conn_inv c') \<and> m_iSockFd c' = fd \<and> (registered fd w' = None \<longleftrightarrow> registered fd w = None) \<and>
    only_fd fd w w' \<and> m_iHttpCnt w' = m_iHttpCnt w"
  using assms(1,4)
proof (cases rule: HttpParse_cases)
  case (wait c1)
  with assms(2) show ?thesis by (auto simp: input_of_def conn_inv_def only_fd_def)
next
  case (reply status c1 w1)
  moreover have "registered j (emit (CloseFd (k_open k (m_aFile c))) w) = registered j w" for j
    using assms(6) by (cases "j = k_open k (m_aFile c)") simp_all
  ultimately show ?thesis using assms(2) by (auto simp: input_of_def conn_inv_def only_fd_def)
next
  case (close status c1 c2 w1)
  with assms(2,3,5) have False by (auto simp: CloseHttp_def input_of_def Let_def split: if_splits)
  then show ?thesis ..
qed

section \<open>The handlers keep the invariant\<close>

lemma live_timer_client: "live_timer h a d \<Longrightarrow> live_timer h a e \<Longrightarrow> d = e"
  by (auto simp: live_timer_def)

lemma live_clients:
  assumes "server_inv s" and "d \<in> live s"
  obtains a t where "timer (clientDatas s d) = Some a" "live_timer (cTimerHeap s) a d"
    "m_timers (cTimerHeap s) a = Some t" "callback_func t = Some CALLBACK" "m_sClientData t = d"
    "a \<in># queued (cTimerHeap s)" "\<And>b. live_timer (cTimerHeap s) b d \<Longrightarrow> b = a"
proof -
  have "client_ok s d" using server_invD(2) [OF assms(1)] assms(2) .
  then obtain a where a: "timer (clientDatas s d) = Some a" "\<forall>b. live_timer (cTimerHeap s) b d \<longleftrightarrow> b = a"
    by (auto simp: client_ok_def)
  then have l: "live_timer (cTimerHeap s) a d" by simp
  then obtain t where "m_timers (cTimerHeap s) a = Some t" "callback_func t = Some CALLBACK" "m_sClientData t = d"
    by (auto simp: live_timer_def objects_def)
  with l a that show thesis by (auto simp: live_timer_def)
qed

text \<open>Closing a client.\<close>

lemma CallBackFunc_effect:
  assumes "sock_fd (cd d) = int d"
  shows "registered fd (CallBackFunc cd d w) = (if fd = int d then None else registered fd w)"
    "m_iHttpCnt (CallBackFunc cd d w) = m_iHttpCnt w - 1"
  using assms by (simp_all add: CallBackFunc_def Let_def)

lemma close_client_ok:
  assumes inv: "server_inv s" and d: "d \<in> live s"
  shows "\<exists>s'. close_client (timer (clientDatas s d)) d s = Inr s' \<and> server_inv s' \<and> live s' = live s - {d} \<and>
    registered (int d) (srv_world s') = None"
proof -
  obtain a t where a: "timer (clientDatas s d) = Some a" "live_timer (cTimerHeap s) a d"
    "m_timers (cTimerHeap s) a = Some t" "callback_func t = Some CALLBACK" "m_sClientData t = d"
    "a \<in># queued (cTimerHeap s)" "\<And>b. live_timer (cTimerHeap s) b d \<Longrightarrow> b = a"
    using live_clients [OF inv d] by metis
  note I = server_invD [OF inv]
  have tinv: "timer_inv (cTimerHeap s)" using I(1) by (simp add: timers_ok_def)
  from DelTimer_spec [OF tinv a(3)] obtain h where h: "DelTimer (Some a) (cTimerHeap s) = Inr h" "timer_inv h"
    "queued h = queued (cTimerHeap s)" "objects h = (objects (cTimerHeap s))(a \<mapsto> t\<lparr>callback_func := None, m_iPos := 0\<rparr>)"
    by blast
  let ?w = "CallBackFunc (clientDatas s) d (srv_world s)"
  let ?s = "s\<lparr>srv_world := ?w, cTimerHeap := h\<rparr>"
  have run: "close_client (timer (clientDatas s d)) d s = Inr ?s"
    using a(1,3,4) h(1) by (simp add: close_client_def deref_def)
  have sock: "sock_fd (clientDatas s d) = int d" using I(2) [OF d] by (simp add: client_ok_def)
  note eff = CallBackFunc_effect [where cd = "clientDatas s" and d = d, OF sock]
  have lt: "live_timer h b e \<longleftrightarrow> live_timer (cTimerHeap s) b e \<and> b \<noteq> a" for b e
    using h(3,4) by (auto simp: live_timer_def)
  have live: "live ?s = live s - {d}"
  proof -
    have "e = d" if "live_timer (cTimerHeap s) a e" for e
      using that a(2) live_timer_client by blast
    then show ?thesis using lt a(7) by (auto simp: live_def)
  qed
  have client: "client_ok ?s e" if "e \<in> live s - {d}" for e
  proof -
    have e: "client_ok s e" "e \<noteq> d" using that I(2) by auto
    then obtain b where b: "timer (clientDatas s e) = Some b" "\<forall>c. live_timer (cTimerHeap s) c e \<longleftrightarrow> c = b"
      by (auto simp: client_ok_def)
    have "b \<noteq> a" using b(2) a(2) e(2) live_timer_client by blast
    then have "\<forall>c. live_timer h c e \<longleftrightarrow> c = b" using b(2) lt by auto
    with b(1) e show ?thesis by (simp add: client_ok_def conn_ok_def eff)
  qed
  have "server_inv ?s"
    unfolding server_inv_def live
  proof (intro conjI ballI allI impI)
    show "timers_ok (cTimerHeap ?s)" using I(1) h(2,4) by (auto simp: timers_ok_def)
    show "m_iHttpCnt (srv_world ?s) = int (card (live s - {d}))"
    proof -
      have "0 < card (live s)" using d I(7) by (auto simp: card_gt_0_iff)
      then show ?thesis using d I(4,7) eff by (simp add: of_nat_diff)
    qed
    fix fd assume "registered fd (srv_world ?s) \<noteq> None"
    then have "fd \<noteq> int d" "registered fd (srv_world s) \<noteq> None" using eff by (auto split: if_splits)
    with I(5) [of fd] show "fd = listenFd ?s \<or> fd = pipeFd0 ?s \<or> (\<exists>d \<in> live s - {d}. fd = int d)" by auto
  qed (use client I(3,6) in \<open>auto simp: conn_ok_def\<close>)
  then show ?thesis using run live eff by auto
qed

text \<open>Prolonging a client's time.\<close>

lemma set_expire_objects:
  "objects (set_expire a e h) = (objects h)(a := map_option (m_iExpireTime_update (\<lambda>_. e)) (objects h a))"
  by (rule ext) (cases "m_timers h a"; auto simp: objects_def set_expire_def)

lemma prolong_ok:
  assumes inv: "server_inv s" and d: "d \<in> live s"
    and clock: "\<forall>a \<in># queued (cTimerHeap s). expiry (cTimerHeap s) a \<le> cur + 3 * TIMESLOT"
  shows "\<exists>h. prolong (timer (clientDatas s d)) cur s = Inr (s\<lparr>cTimerHeap := h\<rparr>) \<and>
    server_inv (s\<lparr>cTimerHeap := h\<rparr>) \<and> live (s\<lparr>cTimerHeap := h\<rparr>) = live s"
proof -
  obtain a t where a: "timer (clientDatas s d) = Some a" "m_timers (cTimerHeap s) a = Some t"
    "a \<in># queued (cTimerHeap s)" using live_clients [OF inv d] by metis
  note I = server_invD [OF inv]
  have tinv: "timer_inv (cTimerHeap s)" using I(1) by (simp add: timers_ok_def)
  let ?e = "cur + 3 * TIMESLOT"
  from Adjust_spec [OF tinv a(3)] clock a(3) obtain h where
    h: "Adjust (Some a) (set_expire a ?e (cTimerHeap s)) = Inr h" "timer_inv h" "queued h = queued (cTimerHeap s)"
      "objects h = objects (set_expire a ?e (cTimerHeap s))" by blast
  have run: "prolong (timer (clientDatas s d)) cur s = Inr (s\<lparr>cTimerHeap := h\<rparr>)"
    using a h(1) by (simp add: prolong_def deref_def)
  have lt: "live_timer h = live_timer (cTimerHeap s)"
    using h(3,4) by (auto simp: live_timer_def set_expire_objects fun_eq_iff)
  let ?s = "s\<lparr>cTimerHeap := h\<rparr>"
  have live: "live ?s = live s" by (simp add: live_def lt)
  have "\<exists>z. objects (cTimerHeap s) b = Some z \<and> callback_func z = callback_func u" if "objects h b = Some u" for b u
    using that h(4) by (cases "b = a") (auto simp: set_expire_objects)
  then have "timers_ok h" using I(1) h(2) unfolding timers_ok_def by metis
  moreover have "client_ok ?s e = client_ok s e" for e by (simp add: client_ok_def conn_ok_def lt)
  ultimately have "server_inv ?s" using inv by (simp add: server_inv_def live conn_ok_def)
  with run live show ?thesis by blast
qed

text \<open>Changing a connection object and the calls of its descriptor.\<close>

lemma touch_ok:
  assumes inv: "server_inv s" and c: "m_iSockFd c = int d" "conn_inv c" "d < MAX_FD"
    and w: "only_fd (int d) (srv_world s) w" "m_iHttpCnt w = m_iHttpCnt (srv_world s)"
      "registered (int d) w = None \<longleftrightarrow> registered (int d) (srv_world s) = None"
  shows "server_inv (s\<lparr>https := (https s)(d := c), srv_world := w\<rparr>)"
    "live (s\<lparr>https := (https s)(d := c), srv_world := w\<rparr>) = live s"
proof -
  let ?s = "s\<lparr>https := (https s)(d := c), srv_world := w\<rparr>"
  show live: "live ?s = live s" by (simp add: live_def)
  have reg: "registered fd w = None \<longleftrightarrow> registered fd (srv_world s) = None" for fd
    using w by (cases "fd = int d") (auto simp: only_fd_def)
  have conn: "conn_ok s e \<Longrightarrow> conn_ok ?s e" for e using c by (auto simp: conn_ok_def)
  then have "client_ok s e \<Longrightarrow> client_ok ?s e" for e using reg by (simp add: client_ok_def)
  with conn reg w(2) inv live show "server_inv ?s" by (simp add: server_inv_def)
qed

lemma append_task_ok:
  assumes "server_inv s" and "d \<in> live s"
  shows "server_inv (append_task d s) \<and> live (append_task d s) = live s"
proof -
  have live: "live (append_task d s) = live s" by (simp add: append_task_def live_def)
  have "conn_ok s d" using server_invD(2) [OF assms] by (simp add: client_ok_def)
  then show ?thesis
    using assms(1) live by (auto simp: server_inv_def append_task_def client_ok_def conn_ok_def)
qed

lemma live_slot:
  assumes "server_inv s" "d \<in> live s"
  shows "slot (int d) = Inr d"
proof -
  have "d < MAX_FD" using server_invD(2) [OF assms] by (simp add: client_ok_def conn_ok_def)
  then show ?thesis by (simp add: slot_def)
qed

lemma on_hangup_ok:
  assumes "server_inv s" and "d \<in> live s"
  shows "\<exists>s'. on_hangup (int d) s = Inr s' \<and> server_inv s' \<and> live s' = live s - {d}"
  using close_client_ok [OF assms] live_slot [OF assms] by (auto simp: on_hangup_def)

definition clock_ok :: "int \<Rightarrow> server \<Rightarrow> bool" where
  "clock_ok cur s \<longleftrightarrow> (\<forall>a \<in># queued (cTimerHeap s). expiry (cTimerHeap s) a \<le> cur + 3 * TIMESLOT)"

lemma on_readable_true:
  assumes inv: "server_inv s" and d: "d \<in> live s" and "recv_ok recv" and "clock_ok cur s"
    and read: "CHttp_Read recv (https s d) = Some (True, c)"
  shows "\<exists>s'. on_readable recv cur (int d) s = Some (Inr s') \<and> server_inv s' \<and> live s' = live s \<and>
    https s' = (https s)(d := c) \<and> pool_tasks s' = pool_tasks (append_task d s) \<and> srv_world s' = srv_world s \<and>
    listenFd s' = listenFd s \<and> pipeFd0 s' = pipeFd0 s"
proof -
  have conn: "conn_inv (https s d)" "m_iSockFd (https s d) = int d" "d < MAX_FD"
    using server_invD(2) [OF inv d] by (simp_all add: client_ok_def conn_ok_def)
  obtain t where t: "c = take_in t (https s d)" "length t \<le> MAX_READ_DATA_BUFF_SIZE - m_iReadIdx (https s d)"
    using Read_total [OF assms(3) conn(1)] read by auto
  have c: "conn_inv c" "m_iSockFd c = int d" using take_in_inv [OF conn(1) t(2)] conn(2) by (simp_all add: t(1) take_in_def)
  let ?s1 = "s\<lparr>https := (https s)(d := c)\<rparr>"
  have inv1: "server_inv ?s1" "live ?s1 = live s"
    using touch_ok [OF inv c(2,1) conn(3), of "srv_world s"] by simp_all
  let ?s2 = "append_task d ?s1"
  have inv2: "server_inv ?s2" "live ?s2 = live s" using append_task_ok [OF inv1(1)] d inv1(2) by simp_all
  have d2: "d \<in> live ?s2" and ck: "clock_ok cur ?s2" and tasks: "pool_tasks ?s2 = pool_tasks (append_task d s)"
    and same: "https ?s2 = (https s)(d := c)" "srv_world ?s2 = srv_world s" "clientDatas ?s2 = clientDatas s"
      "listenFd ?s2 = listenFd s" "pipeFd0 ?s2 = pipeFd0 s"
    using d inv2 assms(4) by (simp_all add: append_task_def clock_ok_def)
  from prolong_ok [OF inv2(1) d2 ck [unfolded clock_ok_def]] obtain h where
    h: "prolong (timer (clientDatas s d)) cur ?s2 = Inr (?s2\<lparr>cTimerHeap := h\<rparr>)" "server_inv (?s2\<lparr>cTimerHeap := h\<rparr>)"
      "live (?s2\<lparr>cTimerHeap := h\<rparr>) = live s" using inv2(2) same(3) by auto
  have "on_readable recv cur (int d) s = Some (Inr (?s2\<lparr>cTimerHeap := h\<rparr>))"
    using read live_slot [OF inv d] h(1) by (simp add: on_readable_def Let_def)
  then show ?thesis using h(2,3) same tasks by (intro exI [of _ "?s2\<lparr>cTimerHeap := h\<rparr>"]) simp
qed

lemma on_readable_ok:
  assumes inv: "server_inv s" and d: "d \<in> live s" and "recv_ok recv" and "clock_ok cur s"
  shows "\<exists>s'. on_readable recv cur (int d) s = Some (Inr s') \<and> server_inv s' \<and>
    live s' = (if \<exists>c. CHttp_Read recv (https s d) = Some (True, c) then live s else live s - {d})"
proof -
  have ok: "client_ok s d" using server_invD(2) [OF inv d] .
  then have conn: "conn_inv (https s d)" "m_iSockFd (https s d) = int d" "d < MAX_FD"
    by (simp_all add: client_ok_def conn_ok_def)
  obtain b t where r: "CHttp_Read recv (https s d) = Some (b, take_in t (https s d))"
    "length t \<le> MAX_READ_DATA_BUFF_SIZE - m_iReadIdx (https s d)" by (rule Read_total [OF assms(3) conn(1)])
  define c where "c = take_in t (https s d)"
  have c: "conn_inv c" "m_iSockFd c = int d" using take_in_inv [OF conn(1) r(2)] conn(2) by (simp_all add: c_def take_in_def)
  let ?s1 = "s\<lparr>https := (https s)(d := c)\<rparr>"
  have inv1: "server_inv ?s1" "live ?s1 = live s"
    using touch_ok [OF inv c(2,1) conn(3), of "srv_world s"] by simp_all
  have d1: "d \<in> live ?s1" using d inv1(2) by simp
  have same: "timer (clientDatas ?s1 d) = timer (clientDatas s d)" by simp
  have run: "on_readable recv cur (int d) s =
    (if b then Some (prolong (timer (clientDatas s d)) cur (append_task d ?s1))
     else Some (bind_res (deref (cTimerHeap ?s1) (timer (clientDatas s d))) (\<lambda>t.
       if callback_func t \<noteq> None then close_client (timer (clientDatas s d)) d ?s1 else Inr ?s1)))"
    using r(1) live_slot [OF inv d] unfolding c_def by (simp add: on_readable_def Let_def)
  show ?thesis
  proof (cases b)
    case True
    then have "CHttp_Read recv (https s d) = Some (True, c)" using r(1) by (simp add: c_def)
    from on_readable_true [OF inv d assms(3,4) this] this show ?thesis by auto
  next
    case False
    obtain a u where a: "timer (clientDatas s d) = Some a" "m_timers (cTimerHeap s) a = Some u"
      "callback_func u = Some CALLBACK" using live_clients [OF inv d] by metis
    from close_client_ok [OF inv1(1) d1] show ?thesis
      using False run a inv1(2) r(1) by (auto simp: deref_def)
  qed
qed

lemma on_writable_ok:
  assumes inv: "server_inv s" and d: "d \<in> live s" and "clock_ok cur s"
    and w: "CHttp_Write writev (https s d) (srv_world s) = Some (Inr (b, c, w))"
  shows "\<exists>s'. on_writable writev cur (int d) s = Some (Inr s') \<and> server_inv s' \<and>
    live s' = (if b then live s else live s - {d})"
proof -
  have ok: "client_ok s d" using server_invD(2) [OF inv d] .
  then have conn: "conn_inv (https s d)" "m_iSockFd (https s d) = int d" "d < MAX_FD"
    "registered (int d) (srv_world s) \<noteq> None"
    by (simp_all add: client_ok_def conn_ok_def)
  have eff: "conn_inv c" "m_iSockFd c = int d" "registered (int d) w \<noteq> None" "only_fd (int d) (srv_world s) w"
    "m_iHttpCnt w = m_iHttpCnt (srv_world s)"
    using Write_effect [OF conn(1,2) _ conn(4) w] by auto
  let ?s1 = "s\<lparr>https := (https s)(d := c), srv_world := w\<rparr>"
  have inv1: "server_inv ?s1" "live ?s1 = live s"
    using touch_ok [OF inv eff(2,1) conn(3) eff(4,5)] eff(3) conn(4) by simp_all
  have d1: "d \<in> live ?s1" and ck: "clock_ok cur ?s1" using d inv1 assms(3) by (simp_all add: clock_ok_def)
  obtain a where a: "timer (clientDatas s d) = Some a" using live_clients [OF inv d] by metis
  have run: "on_writable writev cur (int d) s =
      Some (if b then prolong (timer (clientDatas ?s1 d)) cur ?s1 else close_client (timer (clientDatas ?s1 d)) d ?s1)"
    using w live_slot [OF inv d] a by (simp add: on_writable_def Let_def)
  show ?thesis
  proof (cases b)
    case True
    from prolong_ok [OF inv1(1) d1 ck [unfolded clock_ok_def]] show ?thesis using True run inv1(2) by auto
  next
    case False
    from close_client_ok [OF inv1(1) d1] show ?thesis using False run inv1(2) by auto
  qed
qed

text \<open>A new connection on an unused descriptor, with a new timer object.\<close>

lemma registered_AddFd: "registered j (AddFd k e fd b t w) = (if j = fd then Some (add_events b t) else registered j w)"
  by (simp add: AddFd_def SetNonBlocking_def Let_def)

definition accept_ok :: "int \<Rightarrow> address \<Rightarrow> server \<Rightarrow> bool" where
  "accept_ok connfd a s \<longleftrightarrow> connfd < int MAX_FD \<and> registered connfd (srv_world s) = None \<and>
     connfd \<noteq> listenFd s \<and> connfd \<noteq> pipeFd0 s \<and> m_timers (cTimerHeap s) a = None \<and>
     int (m_iCapacity (cTimerHeap s)) * 2 \<le> INT_MAX"

lemma unqueued: "timer_inv h \<Longrightarrow> m_timers h a = None \<Longrightarrow> a \<notin># queued h"
  by (elim timer_invE) (auto simp: rep_def shape_def)

lemma new_object_inv:
  assumes "timer_inv h" and "m_timers h a = None"
  shows "timer_inv (h\<lparr>m_timers := (m_timers h)(a \<mapsto> t)\<rparr>)"
    "queued (h\<lparr>m_timers := (m_timers h)(a \<mapsto> t)\<rparr>) = queued h"
proof -
  let ?h = "h\<lparr>m_timers := (m_timers h)(a \<mapsto> t)\<rparr>"
  obtain xs where xs: "rep h xs" "is_heap (expiry h) xs" "queued h = mset xs" by (rule timer_invE [OF assms(1)])
  have notin: "a \<notin> set xs" using xs(1) assms(2) by (auto simp: rep_def shape_def)
  then have rep: "rep ?h xs" using xs(1) by (auto simp: rep_def shape_def in_slot_def)
  have "expiry ?h x = expiry h x" if "x \<in> set xs" for x using that notin by (auto simp: expiry_def objects_def)
  then have "is_heap (expiry ?h) xs" using xs(2) by (simp add: is_heap_def heap_at_def)
  with rep show "timer_inv ?h" by (auto simp: timer_inv_def)
  show "queued ?h = queued h" by (simp add: queued_def)
qed

lemma on_accept_ok:
  assumes inv: "server_inv s" and acc: "accept_ok connfd a s"
  shows "\<exists>s'. on_accept k now a connfd addr s = Inr s' \<and> server_inv s' \<and>
    (0 \<le> connfd \<longrightarrow> m_iHttpCnt (srv_world s) < int MAX_FD \<longrightarrow>
      live s' = insert (nat connfd) (live s) \<and> nat connfd \<notin> live s \<and> m_iTriggerMode (https s' (nat connfd)) = 0 \<and>
      m_iReadIdx (https s' (nat connfd)) = 0 \<and> pool_tasks s' = pool_tasks s \<and> listenFd s' = listenFd s \<and>
      pipeFd0 s' = pipeFd0 s)"
proof (cases "connfd < 0 \<or> m_iHttpCnt (srv_world s) \<ge> int MAX_FD")
  case True
  have "registered j (SendInfo connfd t (srv_world s)) = registered j (srv_world s)" for j t
    using acc by (cases "j = connfd") (simp_all add: SendInfo_def accept_ok_def)
  then have "server_inv (s\<lparr>srv_world := SendInfo connfd t (srv_world s)\<rparr>)" for t
    using inv by (simp add: server_inv_def client_ok_def conn_ok_def live_def) (simp add: SendInfo_def)
  with True inv show ?thesis by (auto simp: on_accept_def)
next
  case False
  then obtain d where d: "connfd = int d" "d < MAX_FD" "slot connfd = Inr d"
    using acc by (cases connfd) (auto simp: accept_ok_def slot_def)
  note I = server_invD [OF inv]
  have new: "registered (int d) (srv_world s) = None" "int d \<noteq> listenFd s" "int d \<noteq> pipeFd0 s"
    "m_timers (cTimerHeap s) a = None" using acc d by (simp_all add: accept_ok_def)
  have dead: "d \<notin> live s" using I(2) [of d] new(1) by (auto simp: client_ok_def)
  obtain c w where cw: "CHttp_Init k connfd addr 0 (https s d) (srv_world s) = (c, w)" by fastforce
  have c: "m_iSockFd c = int d" "conn_inv c"
    using cw d(1) by (auto simp: CHttp_Init_def Let_def) (auto simp: reset_buffers_def)
  have w: "registered j w = (if j = int d then Some (add_events True 0) else registered j (srv_world s))"
    "m_iHttpCnt w = m_iHttpCnt (srv_world s) + 1" for j
    using cw d(1) by (auto simp: CHttp_Init_def Let_def registered_AddFd [simplified])
  let ?t = "CHeapTimer_new now (3 * TIMESLOT) (Some CALLBACK) d"
  let ?h = "(cTimerHeap s)\<lparr>m_timers := (m_timers (cTimerHeap s))(a \<mapsto> ?t)\<rparr>"
  have tinv: "timer_inv (cTimerHeap s)" using I(1) by (simp add: timers_ok_def)
  note h = new_object_inv [OF tinv new(4), of ?t]
  have "a \<notin># queued ?h" using h(2) unqueued [OF tinv new(4)] by simp
  with AddTimer_spec [OF h(1), of a] acc obtain h' where h': "AddTimer (Some a) ?h = Inr h'" "timer_inv h'"
    "queued h' = add_mset a (queued (cTimerHeap s))" "objects h' = objects ?h"
    using h(2) by (auto simp: accept_ok_def)
  have objs: "objects h' = (objects (cTimerHeap s))(a \<mapsto> ?t)"
    using h'(4) by (auto simp: objects_def CHeapTimer_new_def)
  let ?s = "s\<lparr>srv_world := w, https := (https s)(d := c),
      clientDatas := (clientDatas s)(d := \<lparr>address = addr, sock_fd = connfd, timer = Some a\<rparr>), cTimerHeap := h'\<rparr>"
  have run: "on_accept k now a connfd addr s = Inr ?s"
    using False d(3) cw h'(1) by (simp add: on_accept_def Let_def)
  have lt: "live_timer h' b e \<longleftrightarrow> live_timer (cTimerHeap s) b e \<or> b = a \<and> e = d" for b e
    using objs h'(3) unqueued [OF tinv new(4)] by (auto simp: live_timer_def CHeapTimer_new_def)
  have live: "live ?s = insert d (live s)" using lt by (auto simp: live_def)
  have nold: "\<not> live_timer (cTimerHeap s) b d" for b using dead by (auto simp: live_def)
  have cd: "client_ok ?s d" using d c w(1) lt nold by (simp add: client_ok_def conn_ok_def)
  have client: "client_ok ?s e" if "e \<in> live s" for e
    using that I(2) [OF that] dead lt w(1) by (cases "e = d") (auto simp: client_ok_def conn_ok_def)
  have "timers_ok h'" using I(1) h'(2) objs by (auto simp: timers_ok_def CHeapTimer_new_def)
  moreover have "conn_ok ?s e" if "conn_ok s e" for e using that c d(2) by (simp add: conn_ok_def)
  moreover have "m_iHttpCnt w = int (card (insert d (live s)))" using dead I(4,7) w(2) by simp
  moreover have "fd = listenFd s \<or> fd = pipeFd0 s \<or> (\<exists>e \<in> insert d (live s). fd = int e)" if "registered fd w \<noteq> None" for fd
    using that w(1) I(5) [of fd] by (auto split: if_splits)
  ultimately have "server_inv ?s"
    unfolding server_inv_def live using cd client I(3,6) new(2,3) by auto
  moreover have "m_iTriggerMode c = 0" "m_iReadIdx c = 0"
    using cw by (auto simp: CHttp_Init_def Let_def) (auto simp: reset_buffers_def)
  ultimately show ?thesis using run live dead d(1) by simp
qed

text \<open>The timers that fire close their clients.\<close>

definition closed_by :: "CTimerHeap \<Rightarrow> address list \<Rightarrow> nat set" where
  "closed_by h as = {d. \<exists>a \<in> set as. live_timer h a d}"

lemma queued_distinct: "timer_inv h \<Longrightarrow> mset as \<subseteq># queued h \<Longrightarrow> distinct as"
  by (elim timer_invE) (metis rep_def shape_def distinct_append mset_append mset_eq_imp_distinct_iff mset_subset_eq_exists_conv ex_mset)

lemma fire_all:
  assumes "distinct as" and "\<forall>a \<in> set as. a \<in># queued h" and "timers_ok h"
    and "\<And>a b d. live_timer h a d \<Longrightarrow> live_timer h b d \<Longrightarrow> a = b"
    and "\<And>a d. live_timer h a d \<Longrightarrow> sock_fd (cd d) = int d"
  shows "(\<forall>fd. registered fd (fold (fire (\<lambda>f. CallBackFunc cd) h) as w) =
      (if \<exists>d \<in> closed_by h as. fd = int d then None else registered fd w)) \<and>
    m_iHttpCnt (fold (fire (\<lambda>f. CallBackFunc cd) h) as w) = m_iHttpCnt w - int (card (closed_by h as)) \<and>
    finite (closed_by h as)"
  using assms(1,2)
proof (induction as arbitrary: w)
  case Nil
  then show ?case by (simp add: closed_by_def)
next
  case (Cons a as)
  then have IH: "(\<forall>fd. registered fd (fold (fire (\<lambda>f. CallBackFunc cd) h) as w) =
      (if \<exists>d \<in> closed_by h as. fd = int d then None else registered fd w)) \<and>
    m_iHttpCnt (fold (fire (\<lambda>f. CallBackFunc cd) h) as w) = m_iHttpCnt w - int (card (closed_by h as)) \<and>
    finite (closed_by h as)" for w by simp
  have split: "closed_by h (a # as) = {d. live_timer h a d} \<union> closed_by h as" by (auto simp: closed_by_def)
  show ?case
  proof (cases "\<exists>d. live_timer h a d")
    case True
    then obtain d where d: "live_timer h a d" by blast
    then obtain t where t: "objects h a = Some t" "callback_func t = Some CALLBACK" "m_sClientData t = d"
      by (auto simp: live_timer_def)
    have one: "{e. live_timer h a e} = {d}" using d live_timer_client by blast
    have notin: "d \<notin> closed_by h as" using Cons.prems(1) assms(4) [OF d] by (auto simp: closed_by_def)
    have fire: "fire (\<lambda>f. CallBackFunc cd) h a w = CallBackFunc cd d w" using t by (simp add: fire_def)
    note eff = CallBackFunc_effect [where cd = cd and d = d and w = w, OF assms(5) [OF d]]
    show ?thesis
      using IH [of "CallBackFunc cd d w"] eff notin fire unfolding split one by auto
  next
    case False
    then have none: "{e. live_timer h a e} = {}" by blast
    have "fire (\<lambda>f. CallBackFunc cd) h a w = w"
    proof (cases "objects h a")
      case (Some t)
      then have "callback_func t = None"
        using False Cons.prems(2) assms(3) by (auto simp: live_timer_def timers_ok_def)
      with Some show ?thesis by (simp add: fire_def)
    qed (simp add: fire_def)
    with IH show ?thesis unfolding split none by simp
  qed
qed

text \<open>\<open>TimerHandler\<close> closes exactly the clients whose time is over.\<close>

definition overdue :: "int \<Rightarrow> server \<Rightarrow> nat set" where
  "overdue now s = {d. \<exists>a. live_timer (cTimerHeap s) a d \<and> expiry (cTimerHeap s) a \<le> now}"

lemma TimerHandler_ok:
  assumes inv: "server_inv s"
  shows "\<exists>s'. TimerHandler now s = Inr s' \<and> server_inv s' \<and> live s' = live s - overdue now s \<and>
    https s' = https s \<and> (\<forall>d \<in> overdue now s. registered (int d) (srv_world s') = None)"
proof -
  note I = server_invD [OF inv]
  let ?h = "cTimerHeap s" and ?cd = "clientDatas s" and ?w = "srv_world s"
  have tinv: "timer_inv ?h" using I(1) by (simp add: timers_ok_def)
  from Tick_spec [OF tinv, of "\<lambda>f. CallBackFunc ?cd" now ?w] obtain as h where
    tick: "Tick (\<lambda>f. CallBackFunc ?cd) now ?h ?w = Inr (h, fold (fire (\<lambda>f. CallBackFunc ?cd) ?h) as ?w)"
    and h: "timer_inv h" "mset as = {#a \<in># queued ?h. expiry ?h a \<le> now#}"
      "queued h = {#a \<in># queued ?h. now < expiry ?h a#}" "objects h = objects ?h" by blast
  let ?w' = "fold (fire (\<lambda>f. CallBackFunc ?cd) ?h) as ?w"
  have sub: "mset as \<subseteq># queued ?h" by (simp add: h(2))
  then have mem: "\<forall>a \<in> set as. a \<in># queued ?h" by (metis mset_subset_eqD set_mset_mset)
  have uniq: "a = b" if "live_timer ?h a d" "live_timer ?h b d" for a b d
  proof -
    have "d \<in> live s" using that by (auto simp: live_def)
    then show ?thesis using live_clients [OF inv] that by metis
  qed
  have sock: "sock_fd (?cd d) = int d" if "live_timer ?h a d" for a d
    using I(2) [of d] that by (auto simp: live_def client_ok_def)
  note f = fire_all [where w = ?w, OF queued_distinct [OF tinv sub] mem I(1) uniq sock]
  have set_as: "set as = {a. a \<in># queued ?h \<and> expiry ?h a \<le> now}"
    using arg_cong [OF h(2), of set_mset] by auto
  have closed: "closed_by ?h as = overdue now s"
    by (auto simp: closed_by_def overdue_def set_as live_timer_def)
  have sub_live: "overdue now s \<subseteq> live s" by (auto simp: overdue_def live_def)
  let ?s = "s\<lparr>cTimerHeap := h, srv_world := ?w'\<rparr>"
  have run: "TimerHandler now s = Inr ?s" using tick by (simp add: TimerHandler_def)
  have lt: "live_timer h a d \<longleftrightarrow> live_timer ?h a d \<and> now < expiry ?h a" for a d
    using h(3,4) by (auto simp: live_timer_def)
  have live: "live ?s = live s - overdue now s"
  proof (intro set_eqI iffI)
    fix d assume "d \<in> live ?s"
    then obtain a where a: "live_timer ?h a d" "now < expiry ?h a" using lt by (auto simp: live_def)
    then have "\<not> expiry ?h b \<le> now" if "live_timer ?h b d" for b using uniq [OF that a(1)] by simp
    with a(1) show "d \<in> live s - overdue now s" by (auto simp: live_def overdue_def)
  next
    fix d assume "d \<in> live s - overdue now s"
    then obtain a where "live_timer ?h a d" "\<not> expiry ?h a \<le> now" by (auto simp: live_def overdue_def)
    then have "live_timer h a d" using lt by simp
    then show "d \<in> live ?s" by (auto simp: live_def)
  qed
  have reg: "registered fd ?w' = (if \<exists>d \<in> overdue now s. fd = int d then None else registered fd ?w)" for fd
    using f closed by simp
  have client: "client_ok ?s d" if "d \<in> live s - overdue now s" for d
  proof -
    have d: "client_ok s d" using that I(2) by simp
    then obtain a where a: "timer (?cd d) = Some a" "\<forall>b. live_timer ?h b d \<longleftrightarrow> b = a" by (auto simp: client_ok_def)
    then have "now < expiry ?h a" using that by (auto simp: overdue_def)
    then have "\<forall>b. live_timer h b d \<longleftrightarrow> b = a" using a(2) lt by auto
    with a(1) d that reg show ?thesis by (auto simp: client_ok_def conn_ok_def)
  qed
  have "m_iHttpCnt ?w' = int (card (live s - overdue now s))"
    using f closed I(4,7) sub_live by (simp add: card_Diff_subset finite_subset of_nat_diff card_mono)
  moreover have "fd = listenFd s \<or> fd = pipeFd0 s \<or> (\<exists>d \<in> live s - overdue now s. fd = int d)"
    if "registered fd ?w' \<noteq> None" for fd
    using that I(5) [of fd] reg [of fd] by (auto split: if_splits)
  moreover have "timers_ok h" using I(1) h(1,4) by (simp add: timers_ok_def)
  ultimately have "server_inv ?s"
    unfolding server_inv_def live using client I(3,6) by (auto simp: conn_ok_def)
  then show ?thesis using run live reg by auto
qed

text \<open>A task whose reply fits into the write buffer.\<close>

lemma run_task_ok:
  assumes inv: "server_inv s" and tasks: "pool_tasks s = d # ds" and run: "run_task k s = Inr s'"
    and fits: "m_iSockFd (https s' d) \<noteq> -1"
    and page: "registered (k_open k (m_aFile (https s d))) (srv_world s) = None"
  shows "server_inv s' \<and> live s' = live s"
proof -
  have ok: "conn_ok s d" using server_invD(3) [OF inv] tasks by simp
  then have c0: "conn_inv (https s d)" "m_iSockFd (https s d) = int d" "d < MAX_FD" "write_inv (https s d)"
    by (simp_all add: conn_ok_def conn_inv_def)
  from run tasks obtain c w where cw: "HttpParse k (https s d) (srv_world s) = Inr (c, w)"
    and s': "s' = s\<lparr>https := (https s)(d := c), srv_world := w, pool_tasks := ds\<rparr>"
    by (auto simp: run_task_def bind_res_Inr_iff)
  have "m_iSockFd c \<noteq> -1" using fits s' by simp
  from Parse_effect [OF c0(4,2) _ cw this page] c0 have e: "conn_inv c" "m_iSockFd c = int d"
    "registered (int d) w = None \<longleftrightarrow> registered (int d) (srv_world s) = None" "only_fd (int d) (srv_world s) w"
    "m_iHttpCnt w = m_iHttpCnt (srv_world s)" by auto
  let ?s1 = "s\<lparr>https := (https s)(d := c), srv_world := w\<rparr>"
  have t: "server_inv ?s1" "live ?s1 = live s" using touch_ok [OF inv e(2,1) c0(3) e(4,5,3)] by simp_all
  have "live s' = live ?s1" by (simp add: s' live_def)
  moreover have "server_inv s'"
    using t(1) tasks by (simp add: s' server_inv_def client_ok_def conn_ok_def live_def)
  ultimately show ?thesis using t(2) by simp
qed

lemma fold_deal_signal:
  "srv_world (fold deal_signal xs s) = srv_world s \<and> https (fold deal_signal xs s) = https s \<and>
   clientDatas (fold deal_signal xs s) = clientDatas s \<and> cTimerHeap (fold deal_signal xs s) = cTimerHeap s \<and>
   pool_tasks (fold deal_signal xs s) = pool_tasks s \<and> listenFd (fold deal_signal xs s) = listenFd s \<and>
   pipeFd0 (fold deal_signal xs s) = pipeFd0 s"
  by (induction xs arbitrary: s) (simp_all add: deal_signal_def)

lemma server_inv_cong:
  assumes "srv_world s' = srv_world s" "https s' = https s" "clientDatas s' = clientDatas s"
    "cTimerHeap s' = cTimerHeap s" "pool_tasks s' = pool_tasks s" "listenFd s' = listenFd s" "pipeFd0 s' = pipeFd0 s"
  shows "server_inv s' = server_inv s" "live s' = live s"
  using assms by (simp_all add: server_inv_def client_ok_def conn_ok_def live_def)

lemma on_signals_ok: "server_inv s \<Longrightarrow> server_inv (on_signals b s)"
  using fold_deal_signal [of "take 1024 (pipe_bytes s)" "s\<lparr>pipe_bytes := drop 1024 (pipe_bytes s)\<rparr>"]
    server_inv_cong(1) [of "on_signals b s" s]
  by (auto simp: on_signals_def)

end
