(* ===== verification/Server_Run.thy ===== *)
theory Server_Run
  imports Event_Inv
begin

text \<open>
  Runs of the server, from its start through any events the kernel may report, ticks, tasks and
  signals; and what holds in every state of them.
\<close>

section \<open>Runs of the server\<close>

text \<open>
  What the kernel may report. A new connection gets an unused descriptor and a new timer object; the
  descriptor is inside the arrays (see \<open>accept_beyond_array\<close>). Other events come for registered
  descriptors, the clock has not gone back behind the last prolongation, and the pipe stays open.
\<close>

definition event_ok :: "event \<Rightarrow> server \<Rightarrow> bool" where
  "event_ok e s \<longleftrightarrow>
     (if ev_fd e = listenFd s then accept_ok (ev_connfd e) (ev_new e) s
      else registered (ev_fd e) (srv_world s) \<noteq> None \<and> recv_ok (ev_recv e) \<and> clock_ok (ev_time e) s \<and>
        (ev_fd e = pipeFd0 s \<longrightarrow> \<not> has_event (ev_events e) HANGUP \<and> has_event (ev_events e) EPOLLIN))"

inductive srv_step :: "kernel \<Rightarrow> server \<Rightarrow> server \<Rightarrow> bool" for k where
  event: "srv_step k s s'" if "event_ok e s" "handle_event k e s = Some (Inr s')"
| tick: "srv_step k s (s'\<lparr>timeout := False\<rparr>)" if "TimerHandler now s = Inr s'"
| task: "srv_step k s s'" if "pool_tasks s = d # ds" "run_task k s = Inr s'" "m_iSockFd (https s' d) \<noteq> -1"
    "registered (k_open k (m_aFile (https s d))) (srv_world s) = None"
| signal: "srv_step k s (SigHandler sig s)"

inductive_cases srv_stepE: "srv_step k s s'"

definition serving :: "kernel \<Rightarrow> server \<Rightarrow> bool" where
  "serving k s \<longleftrightarrow> (\<exists>epfd listen pipe conns. listen \<noteq> fst pipe \<and>
     (srv_step k)\<^sup>*\<^sup>* (server_start k epfd listen pipe conns) s)"

lemma server_start_inv:
  assumes "listen \<noteq> fst pipe"
  shows "server_inv (server_start k epfd listen pipe conns)" "live (server_start k epfd listen pipe conns) = {}"
proof -
  let ?s = "server_start k epfd listen pipe conns"
  have heap: "cTimerHeap ?s = CTimerHeap_new 1000 Map.empty" "pool_tasks ?s = []" "listenFd ?s = listen" "pipeFd0 ?s = fst pipe"
    by (simp_all add: server_start_def Let_def)
  have q: "queued (CTimerHeap_new 1000 Map.empty) = {#}" by (simp add: queued_def CTimerHeap_new_def)
  show live: "live ?s = {}" by (simp add: live_def live_timer_def heap q)
  have "timers_ok (cTimerHeap ?s)"
    unfolding heap timers_ok_def using new_inv [of 1000 Map.empty] by (simp add: objects_def CTimerHeap_new_def)
  moreover have "m_iHttpCnt (srv_world ?s) = 0"
    by (simp add: server_start_def Let_def SetNonBlocking_def)
  moreover have "registered fd (srv_world ?s) \<noteq> None \<Longrightarrow> fd = listen \<or> fd = fst pipe" for fd
    by (auto simp: server_start_def Let_def registered_AddFd [simplified] SetNonBlocking_def split: if_splits)
  ultimately show "server_inv ?s" using live heap by (simp add: server_inv_def)
qed

lemma handle_event_ok:
  assumes inv: "server_inv s" and ok: "event_ok e s"
  shows "case handle_event k e s of
      None \<Rightarrow> \<exists>d. ev_fd e = int d \<and> CHttp_Write (ev_writev e) (https s d) (srv_world s) = None
    | Some (Inl f) \<Rightarrow> \<exists>d. ev_fd e = int d \<and> CHttp_Write (ev_writev e) (https s d) (srv_world s) = Some (Inl f)
    | Some (Inr s') \<Rightarrow> server_inv s'"
proof (cases "ev_fd e = listenFd s")
  case True
  then have "accept_ok (ev_connfd e) (ev_new e) s" using ok by (simp add: event_ok_def)
  with on_accept_ok [OF inv this, of k "ev_time e" "ev_addr e"] True show ?thesis
    by (auto simp: handle_event_def Let_def)
next
  case False
  then have reg: "registered (ev_fd e) (srv_world s) \<noteq> None" "recv_ok (ev_recv e)" "clock_ok (ev_time e) s"
    and pipe: "ev_fd e = pipeFd0 s \<Longrightarrow> \<not> has_event (ev_events e) HANGUP \<and> has_event (ev_events e) EPOLLIN"
    using ok by (simp_all add: event_ok_def)
  show ?thesis
  proof (cases "ev_fd e = pipeFd0 s")
    case True
    with pipe [OF True] False on_signals_ok [OF inv] show ?thesis by (simp add: handle_event_def Let_def)
  next
    case nopipe: False
    obtain d where d: "d \<in> live s" "ev_fd e = int d"
      using server_invD(5) [OF inv reg(1) False nopipe] by blast
    consider "has_event (ev_events e) HANGUP" | "\<not> has_event (ev_events e) HANGUP" "has_event (ev_events e) EPOLLIN"
      | "\<not> has_event (ev_events e) HANGUP" "\<not> has_event (ev_events e) EPOLLIN" "has_event (ev_events e) EPOLLOUT"
      | "\<not> has_event (ev_events e) HANGUP" "\<not> has_event (ev_events e) EPOLLIN" "\<not> has_event (ev_events e) EPOLLOUT" by blast
    then show ?thesis
    proof cases
      case 1
      then have "handle_event k e s = Some (on_hangup (int d) s)" using False d(2) by (simp add: handle_event_def Let_def)
      moreover obtain s' where "on_hangup (int d) s = Inr s'" "server_inv s'" using on_hangup_ok [OF inv d(1)] by blast
      ultimately show ?thesis by simp
    next
      case 2
      then have "handle_event k e s = on_readable (ev_recv e) (ev_time e) (int d) s"
        using False nopipe d(2) by (simp add: handle_event_def Let_def)
      moreover obtain s' where "on_readable (ev_recv e) (ev_time e) (int d) s = Some (Inr s')" "server_inv s'"
        using on_readable_ok [OF inv d(1) reg(2,3)] by blast
      ultimately show ?thesis by simp
    next
      case 3
      then have run: "handle_event k e s = on_writable (ev_writev e) (ev_time e) (int d) s"
        using False nopipe d(2) by (simp add: handle_event_def Let_def)
      show ?thesis
      proof (cases "CHttp_Write (ev_writev e) (https s d) (srv_world s)")
        case None
        then have "on_writable (ev_writev e) (ev_time e) (int d) s = None"
          using live_slot [OF inv d(1)] by (simp add: on_writable_def)
        with run None d(2) show ?thesis by simp
      next
        case (Some r)
        show ?thesis
        proof (cases r)
          case (Inl f)
          then have "on_writable (ev_writev e) (ev_time e) (int d) s = Some (Inl f)"
            using live_slot [OF inv d(1)] Some by (simp add: on_writable_def)
          with run Some Inl d(2) show ?thesis by simp
        next
          case (Inr x)
          obtain b c w where "x = (b, c, w)" by (cases x)
          with Some Inr have "CHttp_Write (ev_writev e) (https s d) (srv_world s) = Some (Inr (b, c, w))" by simp
          from on_writable_ok [OF inv d(1) reg(3) this] obtain s' where
            "on_writable (ev_writev e) (ev_time e) (int d) s = Some (Inr s')" "server_inv s'" by blast
          with run show ?thesis by simp
        qed
      qed
    next
      case 4
      then have "handle_event k e s = Some (Inr s)" using False nopipe by (simp add: handle_event_def Let_def)
      with inv show ?thesis by simp
    qed
  qed
qed

lemma srv_step_inv: "srv_step k s s' \<Longrightarrow> server_inv s \<Longrightarrow> server_inv s'"
proof (erule srv_stepE)
  fix e assume "event_ok e s" "handle_event k e s = Some (Inr s')" "server_inv s"
  with handle_event_ok [of s e k] show ?thesis by simp
next
  fix s1 now assume s1: "s' = s1\<lparr>timeout := False\<rparr>" "TimerHandler now s = Inr s1" "server_inv s"
  then have "server_inv s1" using TimerHandler_ok [of s now] by auto
  then show ?thesis using server_inv_cong(1) [of s' s1] s1(1) by simp
next
  fix d ds assume "server_inv s" "pool_tasks s = d # ds" "run_task k s = Inr s'" "m_iSockFd (https s' d) \<noteq> -1"
    "registered (k_open k (m_aFile (https s d))) (srv_world s) = None"
  then show ?thesis using run_task_ok by blast
next
  fix sig assume "s' = SigHandler sig s" "server_inv s"
  then show ?thesis using server_inv_cong(1) [of s' s] by (simp add: SigHandler_def)
qed

lemma serving_inv:
  assumes "serving k s"
  shows "server_inv s"
proof -
  obtain epfd listen pipe conns where "listen \<noteq> fst pipe" "(srv_step k)\<^sup>*\<^sup>* (server_start k epfd listen pipe conns) s"
    using assms by (auto simp: serving_def)
  from this(2) show ?thesis
    by (induction rule: rtranclp_induct) (use server_start_inv(1) [OF \<open>listen \<noteq> fst pipe\<close>] srv_step_inv in auto)
qed

section \<open>Properties\<close>


text \<open>A server that has accepted one connection.\<close>

definition demo_start :: server where
  "demo_start = server_start demo_kernel 3 5 (6, 7) (\<lambda>_. idle_conn)"

definition demo_accept :: event where
  "demo_accept = \<lparr>ev_fd = 5, ev_events = EPOLLIN, ev_connfd = 8, ev_addr = \<lparr>sin_addr = 0, sin_port = 0\<rparr>,
     ev_new = 100, ev_recv = feed [], ev_writev = (\<lambda>_. WriteErr 0), ev_recv_fails = False, ev_time = 50\<rparr>"

definition demo_hangup :: event where
  "demo_hangup = demo_accept\<lparr>ev_fd := 8, ev_events := EPOLLRDHUP, ev_recv := feed [''x'']\<rparr>"

lemma demo_start_fields: "listenFd demo_start = 5" "pipeFd0 demo_start = 6" "m_timers (cTimerHeap demo_start) = Map.empty"
    "m_iCapacity (cTimerHeap demo_start) = 1000" "m_iHttpCnt (srv_world demo_start) = 0"
    "registered 8 (srv_world demo_start) = None"
  by (simp_all add: demo_start_def server_start_def Let_def CTimerHeap_new_def SetNonBlocking_def registered_AddFd [simplified])

lemma demo_accept_ok: "event_ok demo_accept demo_start"
  using demo_start_fields by (simp add: event_ok_def demo_accept_def accept_ok_def MAX_FD_def INT_MAX_def)

lemma demo_start_serving: "serving demo_kernel demo_start"
  unfolding serving_def demo_start_def
  by (intro exI [of _ 3] exI [of _ 5] exI [of _ "(6, 7)"] exI [of _ "\<lambda>_. idle_conn"] conjI rtranclp.rtrancl_refl) simp

lemma serving_step: "serving k s \<Longrightarrow> srv_step k s s' \<Longrightarrow> serving k s'"
  unfolding serving_def by (meson rtranclp.rtrancl_into_rtrancl)

lemma clock_exists: "\<exists>cur. clock_ok cur s"
proof
  let ?S = "expiry (cTimerHeap s) ` set_mset (queued (cTimerHeap s))"
  show "clock_ok (Max (insert 0 ?S)) s"
    unfolding clock_ok_def
  proof
    fix a assume "a \<in># queued (cTimerHeap s)"
    then have "expiry (cTimerHeap s) a \<le> Max (insert 0 ?S)" by (intro Max_ge) auto
    then show "expiry (cTimerHeap s) a \<le> Max (insert 0 ?S) + 3 * TIMESLOT" by (simp add: TIMESLOT_def)
  qed
qed

lemma demo_connection:
  obtains s where "serving demo_kernel s" "live s = {8}" "listenFd s = 5" "pipeFd0 s = 6" "pool_tasks s = []"
    "m_iTriggerMode (https s 8) = 0" "m_iReadIdx (https s 8) = 0"
proof -
  note st = demo_start_fields
  have live0: "live demo_start = {}" unfolding demo_start_def by (rule server_start_inv(2)) simp
  have acc: "accept_ok 8 100 demo_start" using demo_accept_ok st by (simp add: event_ok_def demo_accept_def)
  have tasks: "pool_tasks demo_start = []" by (simp add: demo_start_def server_start_def Let_def)
  from on_accept_ok [OF serving_inv [OF demo_start_serving] acc, of demo_kernel 50 "\<lparr>sin_addr = 0, sin_port = 0\<rparr>"]
  obtain s where s: "on_accept demo_kernel 50 100 8 \<lparr>sin_addr = 0, sin_port = 0\<rparr> demo_start = Inr s" "live s = {8}"
    "m_iTriggerMode (https s 8) = 0" "m_iReadIdx (https s 8) = 0" "pool_tasks s = []" "listenFd s = 5" "pipeFd0 s = 6"
    using live0 st tasks by (auto simp: MAX_FD_def)
  have "handle_event demo_kernel demo_accept demo_start = Some (Inr s)"
    using s(1) st by (simp add: handle_event_def demo_accept_def Let_def)
  with that s(2-) serving_step [OF demo_start_serving srv_step.event [OF demo_accept_ok]] show thesis by blast
qed



lemma demo_hangup_ok:
  assumes "serving k s" "live s = {8}" "listenFd s = 5" "pipeFd0 s = 6" "clock_ok now s"
  shows "event_ok (demo_hangup\<lparr>ev_time := now\<rparr>) s"
proof -
  have "registered 8 (srv_world s) \<noteq> None"
    using server_invD(2) [OF serving_inv [OF assms(1)], of 8] assms(2) by (simp add: client_ok_def)
  with assms(3-5) feed_ok show ?thesis by (simp add: event_ok_def demo_hangup_def demo_accept_def)
qed


text \<open>
  C17: idle connections are closed. \<open>TimerHandler\<close> returns and closes exactly the connections whose
  timer has expired, once each, and leaves the connections' objects alone.
\<close>

theorem idle_closed:
  assumes "serving k s"
  shows "\<exists>s'. TimerHandler now s = Inr s' \<and> live s' = live s - overdue now s \<and>
    (\<forall>d \<in> overdue now s. registered (int d) (srv_world s') = None) \<and>
    m_iHttpCnt (srv_world s') = m_iHttpCnt (srv_world s) - int (card (overdue now s)) \<and> https s' = https s"
proof -
  note inv = serving_inv [OF assms]
  obtain s' where s': "TimerHandler now s = Inr s'" "server_inv s'" "live s' = live s - overdue now s"
    "https s' = https s" "\<forall>d \<in> overdue now s. registered (int d) (srv_world s') = None"
    using TimerHandler_ok [OF inv] by blast
  have sub: "overdue now s \<subseteq> live s" by (auto simp: overdue_def live_def)
  then have "card (live s - overdue now s) = card (live s) - card (overdue now s)" "card (overdue now s) \<le> card (live s)"
    using server_invD(7) [OF inv] by (auto intro: card_Diff_subset finite_subset card_mono)
  then have "m_iHttpCnt (srv_world s') = m_iHttpCnt (srv_world s) - int (card (overdue now s))"
    using server_invD(4) [OF inv] server_invD(4) [OF s'(2)] s'(3) by (simp add: of_nat_diff)
  with s' show ?thesis by blast
qed

lemma idle_closed_witness:
  "\<exists>s now s'. serving demo_kernel s \<and> live s = {8} \<and> TimerHandler now s = Inr s' \<and> live s' = {}"
proof -
  obtain s where s: "serving demo_kernel s" "live s = {8}" by (rule demo_connection)
  obtain cur where cur: "clock_ok cur s" using clock_exists by blast
  have "8 \<in> live s" using s(2) by simp
  then have "8 \<in> overdue (cur + 3 * TIMESLOT) s"
    using cur by (auto simp: live_def overdue_def clock_ok_def live_timer_def)
  with idle_closed [OF s(1), of "cur + 3 * TIMESLOT"] s show ?thesis by auto
qed

text \<open>
  A descriptor beyond the arrays. The limit of connections is tested on their number, not on the
  descriptor: with descriptors taken by other files, \<open>accept\<close> can return one of \<open>MAX_FD\<close> or more while
  fewer connections are open, and the handler then writes outside of \<open>https\<close>.
\<close>

theorem accept_beyond_array:
  assumes "int MAX_FD \<le> connfd" and "m_iHttpCnt (srv_world s) < int MAX_FD"
  shows "on_accept k now a connfd addr s = Inl OutOfBounds"
  using assms by (simp add: on_accept_def slot_def)

lemma accept_beyond_array_witness:
  "on_accept demo_kernel 50 100 70000 \<lparr>sin_addr = 0, sin_port = 0\<rparr> demo_start = Inl OutOfBounds"
  by (rule accept_beyond_array) (simp_all add: demo_start_fields MAX_FD_def)

end
