(* ===== verification/Event_Calls.thy ===== *)
theory Event_Calls
  imports Server_Run
begin

text \<open>
  The system calls each handler of the event loop and a worker's task add, as far as they re-arm a
  descriptor: one registered with \<open>EPOLLONESHOT\<close> is reported once and then not again before the next
  \<open>EPOLL_CTL_MOD\<close> or \<open>EPOLL_CTL_ADD\<close> for it.
\<close>

section \<open>Re-arming\<close>

fun rearmed :: "sys_call list \<Rightarrow> int set" where
  "rearmed [] = {}"
| "rearmed (EpollAdd e fd ev # cs) = insert fd (rearmed cs)"
| "rearmed (EpollMod e fd ev # cs) = insert fd (rearmed cs)"
| "rearmed (_ # cs) = rearmed cs"

lemma rearmed_append [simp]: "rearmed (cs @ ds) = rearmed cs \<union> rearmed ds"
  by (induction cs rule: rearmed.induct) auto

text \<open>The calls a step adds, and the descriptors that stay disarmed over it.\<close>

definition adds_calls :: "server \<Rightarrow> server \<Rightarrow> sys_call list \<Rightarrow> bool" where
  "adds_calls s s' cs \<longleftrightarrow> w_calls (srv_world s') = w_calls (srv_world s) @ cs"

definition still_disarmed :: "int set \<Rightarrow> server \<Rightarrow> server \<Rightarrow> int set" where
  "still_disarmed D s s' = D - rearmed (drop (length (w_calls (srv_world s))) (w_calls (srv_world s')))"

lemma still_disarmed_calls: "adds_calls s s' cs \<Longrightarrow> still_disarmed D s s' = D - rearmed cs"
  by (simp add: adds_calls_def still_disarmed_def)

section \<open>What a connection does\<close>

lemma sending_rearms: "sending_calls fd cs \<Longrightarrow> rearmed cs = {}"
proof (induction cs)
  case (Cons x cs)
  then show ?case by (cases x) (auto simp: sending_calls_def)
qed simp

lemma Write_calls:
  assumes "\<not> m_bLinger c" and "m_iSockFd c = fd" and "CHttp_Write writev c w = Some (Inr (b, c', w'))"
  shows "\<exists>cs. w_calls w' = w_calls w @ cs \<and> rearmed cs \<subseteq> {fd} \<and> (b \<longrightarrow> rearmed cs = {fd})"
proof (cases "m_iDataLen c = 0")
  case True
  then show ?thesis using assms(2,3) by (auto simp: CHttp_Write_def)
next
  case False
  then have "loop_ends fd b c w c' w'" using assms by (intro write_loop_ends) (auto simp: CHttp_Write_def)
  then show ?thesis by cases (auto simp: sending_rearms)
qed

section \<open>What the handlers do\<close>

lemma close_client_calls:
  assumes "close_client t d s = Inr s'"
  shows "\<exists>cs. adds_calls s s' cs \<and> rearmed cs = {}" "pool_tasks s' = pool_tasks s"
    "listenFd s' = listenFd s" "pipeFd0 s' = pipeFd0 s"
  using assms by (auto simp: close_client_def bind_res_Inr_iff adds_calls_def CallBackFunc_def Let_def split: if_splits)

lemma prolong_same:
  assumes "prolong t cur s = Inr s'"
  shows "srv_world s' = srv_world s" "pool_tasks s' = pool_tasks s" "listenFd s' = listenFd s" "pipeFd0 s' = pipeFd0 s"
  using assms by (auto simp: prolong_def bind_res_Inr_iff split: option.splits)

lemma adds_none [simp]: "srv_world s' = srv_world s \<Longrightarrow> adds_calls s s' []"
  by (simp add: adds_calls_def)

lemma fire_calls:
  "\<exists>cs. w_calls (fold (fire (\<lambda>f. CallBackFunc cd) h) as w) = w_calls w @ cs \<and> rearmed cs = {}"
proof (induction as arbitrary: w)
  case (Cons a as)
  have "\<exists>cs. w_calls (fire (\<lambda>f. CallBackFunc cd) h a w) = w_calls w @ cs \<and> rearmed cs = {}"
    by (auto simp: fire_def CallBackFunc_def Let_def split: option.splits)
  then obtain ds where "w_calls (fire (\<lambda>f. CallBackFunc cd) h a w) = w_calls w @ ds" "rearmed ds = {}" by blast
  moreover obtain cs where "w_calls (fold (fire (\<lambda>f. CallBackFunc cd) h) as (fire (\<lambda>f. CallBackFunc cd) h a w)) =
    w_calls (fire (\<lambda>f. CallBackFunc cd) h a w) @ cs" "rearmed cs = {}" using Cons.IH by blast
  ultimately show ?case by (intro exI [of _ "ds @ cs"]) simp
qed simp

lemma TimerHandler_calls:
  assumes "server_inv s" and "TimerHandler now s = Inr s'"
  shows "\<exists>cs. adds_calls s s' cs \<and> rearmed cs = {}" "pool_tasks s' = pool_tasks s"
    "listenFd s' = listenFd s" "pipeFd0 s' = pipeFd0 s"
proof -
  have "timer_inv (cTimerHeap s)" using server_invD(1) [OF assms(1)] by (simp add: timers_ok_def)
  from Tick_spec [OF this, of "\<lambda>f. CallBackFunc (clientDatas s)" now "srv_world s"] obtain as h where
    "Tick (\<lambda>f. CallBackFunc (clientDatas s)) now (cTimerHeap s) (srv_world s) =
      Inr (h, fold (fire (\<lambda>f. CallBackFunc (clientDatas s)) (cTimerHeap s)) as (srv_world s))" by blast
  then have s': "s' = s\<lparr>cTimerHeap := h, srv_world := fold (fire (\<lambda>f. CallBackFunc (clientDatas s)) (cTimerHeap s)) as (srv_world s)\<rparr>"
    using assms(2) by (simp add: TimerHandler_def)
  show "\<exists>cs. adds_calls s s' cs \<and> rearmed cs = {}"
    using fire_calls [of "clientDatas s" "cTimerHeap s" as "srv_world s"] by (simp add: s' adds_calls_def)
qed (use assms(2) in \<open>auto simp: TimerHandler_def bind_res_Inr_iff\<close>)

lemma run_task_calls:
  assumes inv: "server_inv s" and tasks: "pool_tasks s = d # ds" and run: "run_task k s = Inr s'"
    and fits: "m_iSockFd (https s' d) \<noteq> -1"
  shows "\<exists>cs. adds_calls s s' cs \<and> rearmed cs = {int d}" "pool_tasks s' = ds"
    "listenFd s' = listenFd s" "pipeFd0 s' = pipeFd0 s"
proof -
  have "conn_ok s d" using server_invD(3) [OF inv] tasks by simp
  then have c0: "write_inv (https s d)" "m_iSockFd (https s d) = int d" by (simp_all add: conn_ok_def conn_inv_def)
  from run tasks obtain c w where cw: "HttpParse k (https s d) (srv_world s) = Inr (c, w)"
    and s': "s' = s\<lparr>https := (https s)(d := c), srv_world := w, pool_tasks := ds\<rparr>"
    by (auto simp: run_task_def bind_res_Inr_iff)
  have open_fd: "m_iSockFd c \<noteq> -1" using fits s' by simp
  from c0(1) cw show "\<exists>cs. adds_calls s s' cs \<and> rearmed cs = {int d}"
  proof (cases rule: HttpParse_cases)
    case (wait c1)
    then show ?thesis using c0(2) by (auto simp: s' adds_calls_def)
  next
    case (reply status c1 w1)
    then show ?thesis using c0(2) by (auto simp: s' adds_calls_def)
  next
    case (close status c1 c2 w1)
    with c0(2) open_fd have False by (auto simp: CloseHttp_def input_of_def Let_def split: if_splits)
    then show ?thesis ..
  qed
  show "pool_tasks s' = ds" "listenFd s' = listenFd s" "pipeFd0 s' = pipeFd0 s" by (simp_all add: s')
qed

lemma on_accept_calls:
  assumes inv: "server_inv s" and acc: "accept_ok connfd a s" and run: "on_accept k now a connfd addr s = Inr s'"
  shows "\<exists>cs. adds_calls s s' cs \<and> rearmed cs \<subseteq> {connfd} \<and>
    (live s' = live s \<or> live s' = insert (nat connfd) (live s) \<and> nat connfd \<notin> live s \<and> 0 \<le> connfd \<and> rearmed cs = {connfd})"
    "pool_tasks s' = pool_tasks s" "listenFd s' = listenFd s" "pipeFd0 s' = pipeFd0 s"
proof -
  note ok = on_accept_ok [OF inv acc, of k now addr]
  show "\<exists>cs. adds_calls s s' cs \<and> rearmed cs \<subseteq> {connfd} \<and>
    (live s' = live s \<or> live s' = insert (nat connfd) (live s) \<and> nat connfd \<notin> live s \<and> 0 \<le> connfd \<and> rearmed cs = {connfd})"
  proof (cases "connfd < 0 \<or> m_iHttpCnt (srv_world s) \<ge> int MAX_FD")
    case True
    then show ?thesis using run
      by (auto simp: on_accept_def adds_calls_def SendInfo_def live_def split: if_splits)
  next
    case False
    obtain c w where cw: "CHttp_Init k connfd addr 0 (https s (nat connfd)) (srv_world s) = (c, w)" by fastforce
    have "srv_world s' = w"
      using run False cw by (auto simp: on_accept_def slot_def bind_res_Inr_iff Let_def split: if_splits)
    moreover have "w_calls w = w_calls (srv_world s) @
        [EpollAdd (m_iEpollFd (srv_world s)) connfd (add_events True 0), SetFlags connfd (k_getfl k connfd OR O_NONBLOCK)]"
      using cw by (auto simp: CHttp_Init_def Let_def AddFd_def SetNonBlocking_def)
    ultimately have "\<exists>cs. adds_calls s s' cs \<and> rearmed cs = {connfd}" by (simp add: adds_calls_def)
    with ok False run show ?thesis by auto
  qed
  obtain c w where cw: "CHttp_Init k connfd addr 0 (https s (nat connfd)) (srv_world s) = (c, w)" by fastforce
  show "pool_tasks s' = pool_tasks s" "listenFd s' = listenFd s" "pipeFd0 s' = pipeFd0 s"
    using run cw by (auto simp: on_accept_def slot_def bind_res_Inr_iff Let_def split: if_splits)
qed

lemma on_readable_calls:
  assumes "server_inv s" and "d \<in> live s" and "on_readable recv cur (int d) s = Some (Inr s')"
  shows "\<exists>cs. adds_calls s s' cs \<and> rearmed cs = {}"
    "pool_tasks s' = (if \<exists>c. CHttp_Read recv (https s d) = Some (True, c) then pool_tasks (append_task d s) else pool_tasks s)"
    "listenFd s' = listenFd s" "pipeFd0 s' = pipeFd0 s"
proof -
  obtain b c where read: "CHttp_Read recv (https s d) = Some (b, c)"
    using assms(3) live_slot [OF assms(1,2)] by (auto simp: on_readable_def split: option.splits)
  let ?s1 = "s\<lparr>https := (https s)(d := c)\<rparr>"
  have run: "if b then prolong (timer (clientDatas s d)) cur (append_task d ?s1) = Inr s'
    else s' = ?s1 \<or> close_client (timer (clientDatas s d)) d ?s1 = Inr s'"
    using assms(3) live_slot [OF assms(1,2)] read
    by (auto simp: on_readable_def Let_def bind_res_Inr_iff split: if_splits)
  have app: "srv_world (append_task d ?s1) = srv_world s" "pool_tasks (append_task d ?s1) = pool_tasks (append_task d s)"
    "listenFd (append_task d ?s1) = listenFd s" "pipeFd0 (append_task d ?s1) = pipeFd0 s"
    by (simp_all add: append_task_def)
  have "(\<exists>cs. adds_calls s s' cs \<and> rearmed cs = {}) \<and>
    pool_tasks s' = (if b then pool_tasks (append_task d s) else pool_tasks s) \<and> listenFd s' = listenFd s \<and> pipeFd0 s' = pipeFd0 s"
  proof (cases b)
    case True
    with run have "prolong (timer (clientDatas s d)) cur (append_task d ?s1) = Inr s'" by simp
    note p = prolong_same [OF this]
    have "adds_calls s s' []" using p(1) app(1) by simp
    then show ?thesis using True p(2-4) app(2-4) by (intro conjI exI [of _ "[]"]) simp_all
  next
    case False
    show ?thesis
    proof (cases "s' = ?s1")
      case True
      have "adds_calls s s' []" by (simp add: True)
      with True False show ?thesis by (intro conjI exI [of _ "[]"]) simp_all
    next
      case other: False
      with False run have "close_client (timer (clientDatas s d)) d ?s1 = Inr s'" by simp
      from close_client_calls [OF this] False show ?thesis by (simp add: adds_calls_def)
    qed
  qed
  then show "\<exists>cs. adds_calls s s' cs \<and> rearmed cs = {}"
    "pool_tasks s' = (if \<exists>c. CHttp_Read recv (https s d) = Some (True, c) then pool_tasks (append_task d s) else pool_tasks s)"
    "listenFd s' = listenFd s" "pipeFd0 s' = pipeFd0 s"
    using read by auto
qed

lemma on_writable_calls:
  assumes "server_inv s" and "d \<in> live s" and "CHttp_Write writev (https s d) (srv_world s) = Some (Inr (b, c, w))"
    and "on_writable writev cur (int d) s = Some (Inr s')"
  shows "\<exists>cs. adds_calls s s' cs \<and> rearmed cs \<subseteq> {int d} \<and> (b \<longrightarrow> rearmed cs = {int d})"
    "pool_tasks s' = pool_tasks s" "listenFd s' = listenFd s" "pipeFd0 s' = pipeFd0 s"
proof -
  let ?s1 = "s\<lparr>https := (https s)(d := c), srv_world := w\<rparr>"
  have conn: "conn_inv (https s d)" "m_iSockFd (https s d) = int d"
    using server_invD(2) [OF assms(1,2)] by (simp_all add: client_ok_def conn_ok_def)
  have "\<not> m_bLinger (https s d)" using conn(1) by (simp add: conn_inv_def)
  from Write_calls [OF this conn(2) assms(3)] obtain cs where
    cs: "adds_calls s ?s1 cs" "rearmed cs \<subseteq> {int d}" "b \<longrightarrow> rearmed cs = {int d}" by (auto simp: adds_calls_def)
  have run: "if b then prolong (timer (clientDatas s d)) cur ?s1 = Inr s'
    else s' = ?s1 \<or> close_client (timer (clientDatas s d)) d ?s1 = Inr s'"
    using assms(3,4) live_slot [OF assms(1,2)] by (auto simp: on_writable_def Let_def split: if_splits)
  have "\<exists>ds. adds_calls ?s1 s' ds \<and> rearmed ds = {} \<and> pool_tasks s' = pool_tasks s \<and>
    listenFd s' = listenFd s \<and> pipeFd0 s' = pipeFd0 s"
  proof (cases b)
    case True
    with run have p: "prolong (timer (clientDatas s d)) cur ?s1 = Inr s'" by simp
    show ?thesis using prolong_same [OF p] by (intro exI [of _ "[]"]) simp
  next
    case False
    show ?thesis
    proof (cases "s' = ?s1")
      case True
      show ?thesis by (intro exI [of _ "[]"]) (simp add: True)
    next
      case other: False
      with False run have "close_client (timer (clientDatas s d)) d ?s1 = Inr s'" by simp
      from close_client_calls [OF this] show ?thesis by auto
    qed
  qed
  then obtain ds where "adds_calls ?s1 s' ds" "rearmed ds = {}" and same: "pool_tasks s' = pool_tasks s"
    "listenFd s' = listenFd s" "pipeFd0 s' = pipeFd0 s" by blast
  then have "adds_calls s s' (cs @ ds)" "rearmed (cs @ ds) = rearmed cs" using cs(1) by (simp_all add: adds_calls_def)
  then show "\<exists>cs. adds_calls s s' cs \<and> rearmed cs \<subseteq> {int d} \<and> (b \<longrightarrow> rearmed cs = {int d})"
    using cs(2,3) by metis
  show "pool_tasks s' = pool_tasks s" "listenFd s' = listenFd s" "pipeFd0 s' = pipeFd0 s" by (fact same)+
qed

end
