(* ===== verification/One_Shot.thy ===== *)
theory One_Shot
  imports Event_Calls
begin

text \<open>
  Runs of the server in which a one-shot descriptor is not reported again before it is re-armed: the
  event loop and the workers never have the same connection, unless its time runs out.
\<close>

section \<open>Runs with one-shot descriptors\<close>

text \<open>
  \<open>D\<close> are the disarmed descriptors. An event for a connection is one of those the code registers for,
  and disarms it; the listening socket and the pipe are not one-shot.
\<close>

definition reportable :: "event \<Rightarrow> server \<Rightarrow> int set \<Rightarrow> bool" where
  "reportable e s D \<longleftrightarrow> event_ok e s \<and> ev_fd e \<notin> D \<and>
     (ev_fd e \<noteq> listenFd s \<longrightarrow> has_event (ev_events e) (HANGUP OR EPOLLIN OR EPOLLOUT))"

definition one_shot :: "event \<Rightarrow> server \<Rightarrow> int set" where
  "one_shot e s = (if ev_fd e = listenFd s \<or> ev_fd e = pipeFd0 s then {} else {ev_fd e})"

text \<open>
  \<open>R\<close> are the descriptors that were reported while the queue of tasks was full. The time of a
  connection whose task is queued does not run out here; what happens otherwise is
  \<open>closed_while_queued\<close>.
\<close>

inductive shot_run :: "kernel \<Rightarrow> server \<Rightarrow> int set \<Rightarrow> int set \<Rightarrow> bool" for k where
  start: "shot_run k (server_start k epfd listen pipe conns) {} {}" if "listen \<noteq> fst pipe"
| event: "shot_run k s' (still_disarmed (D \<union> one_shot e s) s s')
      (if TASK_NUM \<le> length (pool_tasks s) then insert (ev_fd e) R else R)"
    if "shot_run k s D R" "reportable e s D" "handle_event k e s = Some (Inr s')"
| tick: "shot_run k (s'\<lparr>timeout := False\<rparr>) (still_disarmed D s s') R"
    if "shot_run k s D R" "TimerHandler now s = Inr s'" "set (pool_tasks s) \<inter> overdue now s = {}"
| task: "shot_run k s' (still_disarmed D s s') R"
    if "shot_run k s D R" "pool_tasks s = d # ds" "run_task k s = Inr s'" "m_iSockFd (https s' d) \<noteq> -1"
      "registered (k_open k (m_aFile (https s d))) (srv_world s) = None"
| signal: "shot_run k (SigHandler sig s) D R" if "shot_run k s D R"

lemma shot_serving: "shot_run k s D R \<Longrightarrow> serving k s"
proof (induction rule: shot_run.induct)
  case (start listen pipe epfd conns)
  then show ?case unfolding serving_def by blast
next
  case (event s D R e s')
  then show ?case using serving_step srv_step.event by (auto simp: reportable_def)
next
  case (tick s D R now s')
  then show ?case using serving_step srv_step.tick by blast
next
  case (task s D R d ds s')
  then show ?case using serving_step srv_step.task by blast
next
  case (signal s D R sig)
  then show ?case using serving_step srv_step.signal by blast
qed

section \<open>The invariant\<close>

definition shot_inv :: "server \<Rightarrow> int set \<Rightarrow> int set \<Rightarrow> bool" where
  "shot_inv s D R \<longleftrightarrow> distinct (pool_tasks s) \<and> set (pool_tasks s) \<subseteq> live s \<and> (\<forall>d \<in> set (pool_tasks s). int d \<in> D) \<and>
     (\<forall>d \<in> live s. int d \<in> D \<longrightarrow> d \<in> set (pool_tasks s) \<or> int d \<in> R)"

lemma shot_inv_quiet:
  assumes "shot_inv s D R" and "adds_calls s s' cs" and "rearmed cs = {}" and "pool_tasks s' = pool_tasks s"
    and "live s' = live s - X" and "set (pool_tasks s) \<inter> X = {}"
  shows "shot_inv s' (still_disarmed D s s') R"
  using assms by (auto simp: shot_inv_def still_disarmed_calls)

lemma has_event_or: "has_event m (a OR b) \<longleftrightarrow> has_event m a \<or> has_event m b"
  by (simp add: has_event_def bit.conj_disj_distrib or_eq_0_iff)

lemma event_shot_inv:
  assumes inv: "server_inv s" and shot: "shot_inv s D R" and rep: "reportable e s D"
    and run: "handle_event k e s = Some (Inr s')"
  shows "shot_inv s' (still_disarmed (D \<union> one_shot e s) s s')
    (if TASK_NUM \<le> length (pool_tasks s) then insert (ev_fd e) R else R)" (is "shot_inv s' _ ?R")
proof (cases "ev_fd e = listenFd s")
  case True
  then have acc: "accept_ok (ev_connfd e) (ev_new e) s" using rep by (simp add: reportable_def event_ok_def)
  have "on_accept k (ev_time e) (ev_new e) (ev_connfd e) (ev_addr e) s = Inr s'"
    using run True by (simp add: handle_event_def Let_def)
  note calls = on_accept_calls [OF inv acc this]
  obtain cs where cs: "adds_calls s s' cs" "rearmed cs \<subseteq> {ev_connfd e}"
    "live s' = live s \<or> live s' = insert (nat (ev_connfd e)) (live s) \<and> nat (ev_connfd e) \<notin> live s \<and> 0 \<le> ev_connfd e \<and>
      rearmed cs = {ev_connfd e}" using calls(1) by blast
  have "registered (int d) (srv_world s) \<noteq> None" if "d \<in> live s" for d
    using server_invD(2) [OF inv that] by (simp add: client_ok_def)
  then have new: "int d \<noteq> ev_connfd e" if "d \<in> live s" for d
    using acc that unfolding accept_ok_def by metis
  have "one_shot e s = {}" using True by (simp add: one_shot_def)
  then show ?thesis using shot cs new calls(2) still_disarmed_calls [OF cs(1)]
    unfolding shot_inv_def by (auto 4 3)
next
  case nolisten: False
  then have reg: "registered (ev_fd e) (srv_world s) \<noteq> None" "recv_ok (ev_recv e)" "clock_ok (ev_time e) s"
    and pipe: "ev_fd e = pipeFd0 s \<Longrightarrow> \<not> has_event (ev_events e) HANGUP \<and> has_event (ev_events e) EPOLLIN"
    using rep by (simp_all add: reportable_def event_ok_def)
  show ?thesis
  proof (cases "ev_fd e = pipeFd0 s")
    case True
    then have s': "s' = on_signals (ev_recv_fails e) s" using run nolisten pipe by (simp add: handle_event_def Let_def)
    have "srv_world s' = srv_world s" "live s' = live s" "pool_tasks s' = pool_tasks s"
      unfolding s' by (auto simp: on_signals_def fold_deal_signal live_def)
    with True shot show ?thesis by (auto simp: one_shot_def shot_inv_def still_disarmed_def)
  next
    case nopipe: False
    obtain d where d: "d \<in> live s" "ev_fd e = int d"
      using server_invD(5) [OF inv reg(1) nolisten nopipe] by blast
    have D: "int d \<notin> D" "one_shot e s = {int d}" using rep d nolisten nopipe by (auto simp: reportable_def one_shot_def)
    then have unqueued: "d \<notin> set (pool_tasks s)" using shot by (auto simp: shot_inv_def)
    have some: "has_event (ev_events e) HANGUP \<or> has_event (ev_events e) EPOLLIN \<or> has_event (ev_events e) EPOLLOUT"
      using rep nolisten unfolding reportable_def has_event_or by blast
    have closed: ?thesis if "live s' = live s - {d}" "pool_tasks s' = pool_tasks s" "adds_calls s s' cs" "rearmed cs \<subseteq> {int d}" for cs
      using that shot unqueued still_disarmed_calls [OF that(3)] unfolding D(2) shot_inv_def by (auto 4 3)
    consider "has_event (ev_events e) HANGUP" | "\<not> has_event (ev_events e) HANGUP" "has_event (ev_events e) EPOLLIN"
      | "\<not> has_event (ev_events e) HANGUP" "\<not> has_event (ev_events e) EPOLLIN" "has_event (ev_events e) EPOLLOUT"
      using some by blast
    then show ?thesis
    proof cases
      case 1
      then have r: "on_hangup (int d) s = Inr s'" using run nolisten d(2) by (simp add: handle_event_def Let_def)
      then have c: "close_client (timer (clientDatas s d)) d s = Inr s'"
        using live_slot [OF inv d(1)] by (simp add: on_hangup_def)
      obtain cs where "adds_calls s s' cs" "rearmed cs = {}" using close_client_calls(1) [OF c] by blast
      moreover have "live s' = live s - {d}" using on_hangup_ok [OF inv d(1)] r by auto
      ultimately show ?thesis using closed close_client_calls(2) [OF c] by simp
    next
      case 2
      then have r: "on_readable (ev_recv e) (ev_time e) (int d) s = Some (Inr s')"
        using run nolisten nopipe d(2) by (simp add: handle_event_def Let_def)
      note calls = on_readable_calls [OF inv d(1) r]
      have live: "live s' = (if \<exists>c. CHttp_Read (ev_recv e) (https s d) = Some (True, c) then live s else live s - {d})"
        using on_readable_ok [OF inv d(1) reg(2,3)] r by auto
      obtain cs where cs: "adds_calls s s' cs" "rearmed cs = {}" using calls(1) by blast
      show ?thesis
      proof (cases "\<exists>c. CHttp_Read (ev_recv e) (https s d) = Some (True, c)")
        case True
        then have "live s' = live s" "pool_tasks s' = (if TASK_NUM \<le> length (pool_tasks s) then pool_tasks s else pool_tasks s @ [d])"
          using live calls(2) by (simp_all add: append_task_def)
        moreover have "still_disarmed (D \<union> one_shot e s) s s' = D \<union> {int d}"
          using still_disarmed_calls [OF cs(1)] cs(2) D(2) by simp
        ultimately show ?thesis using shot unqueued d unfolding shot_inv_def by (simp split: if_splits) blast
      next
        case False
        with closed live calls(2) cs show ?thesis by simp
      qed
    next
      case 3
      then have r: "on_writable (ev_writev e) (ev_time e) (int d) s = Some (Inr s')"
        using run nolisten nopipe d(2) by (simp add: handle_event_def Let_def)
      then obtain b c w where w: "CHttp_Write (ev_writev e) (https s d) (srv_world s) = Some (Inr (b, c, w))"
        using live_slot [OF inv d(1)] by (auto simp: on_writable_def bind_res_Inr_iff)
      note calls = on_writable_calls [OF inv d(1) w r]
      have live: "live s' = (if b then live s else live s - {d})" using on_writable_ok [OF inv d(1) reg(3) w] r by auto
      obtain cs where cs: "adds_calls s s' cs" "rearmed cs \<subseteq> {int d}" "b \<longrightarrow> rearmed cs = {int d}" using calls(1) by blast
      show ?thesis
      proof (cases b)
        case True
        then show ?thesis using shot unqueued D(1) live calls(2) cs(3) still_disarmed_calls [OF cs(1)]
          unfolding D(2) shot_inv_def by auto
      next
        case False
        with closed live calls(2) cs show ?thesis by simp
      qed
    qed
  qed
qed

lemma shot_run_inv: "shot_run k s D R \<Longrightarrow> shot_inv s D R"
proof (induction rule: shot_run.induct)
  case (start listen pipe epfd conns)
  then show ?case using server_start_inv(2) [OF start, of k epfd conns]
    by (simp add: shot_inv_def) (simp add: server_start_def Let_def)
next
  case (event s D R e s')
  then show ?case using event_shot_inv serving_inv [OF shot_serving] by blast
next
  case (tick s D R now s')
  note inv = serving_inv [OF shot_serving [OF tick(1)]]
  note calls = TimerHandler_calls [OF inv tick(2)]
  have "live s' = live s - overdue now s" using TimerHandler_ok [OF inv, of now] tick(2) by auto
  then have "shot_inv s' (still_disarmed D s s') R"
    using shot_inv_quiet [OF tick.IH] calls(1,2) tick(3) by blast
  then show ?case by (simp add: shot_inv_def live_def)
next
  case (task s D R d ds s')
  note inv = serving_inv [OF shot_serving [OF task(1)]]
  note calls = run_task_calls [OF inv task(2-4)]
  have live: "live s' = live s" using run_task_ok [OF inv task(2-5)] by simp
  obtain cs where "adds_calls s s' cs" "rearmed cs = {int d}" using calls(1) by blast
  then show ?case using task.IH task(2) calls(2) live by (auto simp: shot_inv_def still_disarmed_calls)
next
  case (signal s D R sig)
  then show ?case by (simp add: shot_inv_def SigHandler_def live_def)
qed

section \<open>Properties\<close>


text \<open>
  C32: a task that is refused strands its connection. When the queue is full, a connection that has
  been read is not queued, and its descriptor, disarmed by the event, is not re-armed: no event for
  it can be reported any more, and the request it has sent is not answered. As its time was
  prolonged, it stays like this until its timer closes it.
\<close>

theorem refused_task_stranded:
  assumes "shot_run k s D R" and "reportable e s D" and "ev_fd e = int d" and "d \<in> live s"
    and "\<not> has_event (ev_events e) HANGUP" and "has_event (ev_events e) EPOLLIN"
    and "CHttp_Read (ev_recv e) (https s d) = Some (True, c)" and "TASK_NUM \<le> length (pool_tasks s)"
  shows "\<exists>s'. handle_event k e s = Some (Inr s') \<and> d \<in> live s' \<and> https s' d = c \<and>
    pool_tasks s' = pool_tasks s \<and> w_calls (srv_world s') = w_calls (srv_world s) \<and>
    (\<forall>e'. ev_fd e' = int d \<longrightarrow> \<not> reportable e' s' (still_disarmed (D \<union> one_shot e s) s s'))"
proof -
  note inv = serving_inv [OF shot_serving [OF assms(1)]]
  have fd: "ev_fd e \<noteq> listenFd s" "ev_fd e \<noteq> pipeFd0 s" using server_invD(6) [OF inv assms(4)] assms(3) by simp_all
  have ok: "recv_ok (ev_recv e)" "clock_ok (ev_time e) s"
    using assms(2) fd(1) by (simp_all add: reportable_def event_ok_def)
  have "append_task d s = s" using assms(8) by (simp add: append_task_def)
  with on_readable_true [OF inv assms(4) ok assms(7)] assms(4) obtain s' where
    s': "on_readable (ev_recv e) (ev_time e) (int d) s = Some (Inr s')" "d \<in> live s'" "https s' d = c"
      "pool_tasks s' = pool_tasks s" "srv_world s' = srv_world s" by auto
  have "handle_event k e s = Some (Inr s')"
    using s'(1) fd assms(3,5,6) by (simp add: handle_event_def Let_def)
  moreover have "int d \<in> still_disarmed (D \<union> one_shot e s) s s'"
    using fd assms(3) s'(5) by (simp add: still_disarmed_def one_shot_def)
  ultimately show ?thesis using s' by (auto simp: reportable_def)
qed

text \<open>
  The time of a queued connection. When it runs out, the connection is closed although its task is
  still queued: the worker will work on the object of a closed connection, or on that of the next
  one that gets its descriptor.
\<close>

theorem closed_while_queued:
  assumes "shot_run k s D R" and "d \<in> set (pool_tasks s)" and "d \<in> overdue now s"
  shows "\<exists>s'. TimerHandler now s = Inr s' \<and> d \<notin> live s' \<and> d \<in> set (pool_tasks s') \<and> https s' d = https s d"
proof -
  note inv = serving_inv [OF shot_serving [OF assms(1)]]
  obtain s' where "TimerHandler now s = Inr s'" "live s' = live s - overdue now s" "https s' = https s"
    using TimerHandler_ok [OF inv] by blast
  with TimerHandler_calls(2) [OF inv] assms(2,3) show ?thesis by auto
qed

section \<open>A full queue\<close>

text \<open>Clients that connect one after the other and send a byte each.\<close>

definition crowd :: "nat \<Rightarrow> nat \<Rightarrow> server \<Rightarrow> bool" where
  "crowd n m s \<longleftrightarrow> live s = {8..<8 + n} \<and> listenFd s = 5 \<and> pipeFd0 s = 6 \<and> length (pool_tasks s) = m \<and>
     m_iCapacity (cTimerHeap s) = 1000 \<and> m_iCurNum (cTimerHeap s) = n \<and>
     dom (m_timers (cTimerHeap s)) = {100..<100 + n}"

lemma set_expire_store: "same_store h (set_expire a e h)"
  by (auto simp: same_store_def set_expire_def split: if_splits)

lemma prolong_store:
  assumes "prolong t cur s = Inr s'"
  shows "same_store (cTimerHeap s) (cTimerHeap s')"
proof (cases t)
  case (Some a)
  with assms have "Adjust t (set_expire a (cur + 3 * TIMESLOT) (cTimerHeap s)) = Inr (cTimerHeap s')"
    by (auto simp: prolong_def bind_res_Inr_iff)
  from same_store_trans [OF set_expire_store Adjust_store [OF this]] show ?thesis .
qed (use assms in \<open>simp add: prolong_def\<close>)

lemma still_disarmed_sub: "still_disarmed D s s' \<subseteq> D"
  by (auto simp: still_disarmed_def)

lemma on_accept_store:
  assumes "on_accept k now a connfd addr s = Inr s'" and "0 \<le> connfd" and "m_iHttpCnt (srv_world s) < int MAX_FD"
    and "m_iCurNum (cTimerHeap s) < m_iCapacity (cTimerHeap s)"
  shows "m_iCapacity (cTimerHeap s') = m_iCapacity (cTimerHeap s)" "m_iCurNum (cTimerHeap s') = m_iCurNum (cTimerHeap s) + 1"
    "dom (m_timers (cTimerHeap s')) = insert a (dom (m_timers (cTimerHeap s)))"
proof -
  obtain d where d: "slot connfd = Inr d" using assms(1-3) by (cases "slot connfd") (auto simp: on_accept_def)
  obtain c w where cw: "CHttp_Init k connfd addr 0 (https s d) (srv_world s) = (c, w)" by fastforce
  let ?h = "(cTimerHeap s)\<lparr>m_timers := (m_timers (cTimerHeap s))(a \<mapsto> CHeapTimer_new now (3 * TIMESLOT) (Some CALLBACK) d)\<rparr>"
  have "AddTimer (Some a) ?h = Inr (cTimerHeap s')"
    using assms(1-3) d cw by (auto simp: on_accept_def bind_res_Inr_iff Let_def)
  from AddTimer_store [OF this] assms(4)
  show "m_iCapacity (cTimerHeap s') = m_iCapacity (cTimerHeap s)" "m_iCurNum (cTimerHeap s') = m_iCurNum (cTimerHeap s) + 1"
    "dom (m_timers (cTimerHeap s')) = insert a (dom (m_timers (cTimerHeap s)))"
    by (simp_all add: same_store_def)
qed

lemma newcomer:
  assumes "shot_run demo_kernel s D R" and "crowd n m s" and "n \<le> TASK_NUM" and "5 \<notin> D"
  shows "\<exists>s' D' R'. shot_run demo_kernel s' D' R' \<and> crowd (n + 1) m s' \<and> 5 \<notin> D' \<and> int (8 + n) \<notin> D' \<and>
    m_iTriggerMode (https s' (8 + n)) = 0 \<and> m_iReadIdx (https s' (8 + n)) = 0"
proof -
  note inv = serving_inv [OF shot_serving [OF assms(1)]]
  let ?fd = "int (8 + n)" and ?a = "100 + n"
  let ?e = "demo_accept\<lparr>ev_connfd := ?fd, ev_new := ?a\<rparr>"
  have c: "live s = {8..<8 + n}" "listenFd s = 5" "pipeFd0 s = 6" "length (pool_tasks s) = m"
    "m_iCapacity (cTimerHeap s) = 1000" "m_iCurNum (cTimerHeap s) = n" "dom (m_timers (cTimerHeap s)) = {100..<100 + n}"
    using assms(2) by (simp_all add: crowd_def)
  have n: "n \<le> 100" using assms(3) by (simp add: TASK_NUM_def)
  have "m_timers (cTimerHeap s) ?a = None" using c(7) by (metis atLeastLessThan_iff domIff less_irrefl)
  moreover have "registered ?fd (srv_world s) = None"
    using server_invD(5) [OF inv, of ?fd] c(1-3) by fastforce
  ultimately have acc: "accept_ok ?fd ?a s"
    using c n by (simp add: accept_ok_def MAX_FD_def INT_MAX_def)
  have cnt: "m_iHttpCnt (srv_world s) < int MAX_FD" using server_invD(4) [OF inv] c(1) n by (simp add: MAX_FD_def)
  have fd: "0 \<le> ?fd" "nat ?fd = 8 + n" by simp_all
  from on_accept_ok [OF inv acc, of demo_kernel 50 "\<lparr>sin_addr = 0, sin_port = 0\<rparr>"] cnt fd obtain s' where
    s': "on_accept demo_kernel 50 ?a ?fd \<lparr>sin_addr = 0, sin_port = 0\<rparr> s = Inr s'" "live s' = insert (8 + n) (live s)"
      "m_iTriggerMode (https s' (8 + n)) = 0" "m_iReadIdx (https s' (8 + n)) = 0" "pool_tasks s' = pool_tasks s"
      "listenFd s' = listenFd s" "pipeFd0 s' = pipeFd0 s" "8 + n \<notin> live s" by auto
  have run: "handle_event demo_kernel ?e s = Some (Inr s')"
    using s'(1) c(2) by (simp add: handle_event_def demo_accept_def Let_def)
  let ?D = "still_disarmed (D \<union> one_shot ?e s) s s'"
  have "reportable ?e s D" using acc assms(4) c(2) by (simp add: reportable_def event_ok_def demo_accept_def)
  note go = shot_run.event [OF assms(1) this run]
  note calls = on_accept_calls [OF inv acc s'(1)]
  obtain cs where "adds_calls s s' cs" "rearmed cs = {?fd}" using calls(1) s'(2,8) fd(2) by auto
  then have "?fd \<notin> ?D" by (simp add: still_disarmed_calls)
  moreover have "5 \<notin> ?D" using assms(4) c(2) still_disarmed_sub [of "D \<union> one_shot ?e s" s s']
    by (auto simp: one_shot_def demo_accept_def)
  moreover have "crowd (n + 1) m s'"
  proof -
    have "m_iCurNum (cTimerHeap s) < m_iCapacity (cTimerHeap s)" using c(5,6) n by simp
    note h = on_accept_store [OF s'(1) fd(1) cnt this]
    have "dom (m_timers (cTimerHeap s')) = {100..<100 + (n + 1)}" using h(3) c(7) by auto
    moreover have "live s' = {8..<8 + (n + 1)}" using s'(2) c(1) by auto
    ultimately show ?thesis using h(1,2) s'(5-7) c by (simp add: crowd_def)
  qed
  ultimately show ?thesis using go s'(3,4) by blast
qed

lemma sends_byte:
  assumes "shot_run demo_kernel s D R" and "crowd (n + 1) m s" and "5 \<notin> D" and "int (8 + n) \<notin> D"
    and "m_iTriggerMode (https s (8 + n)) = 0" and "m_iReadIdx (https s (8 + n)) = 0"
  obtains e c where "reportable e s D" "ev_fd e = int (8 + n)" "ev_events e = EPOLLIN" "ev_recv e = feed [''x'']"
    "CHttp_Read (ev_recv e) (https s (8 + n)) = Some (True, c)" "8 + n \<in> live s"
proof -
  note inv = serving_inv [OF shot_serving [OF assms(1)]]
  have c: "live s = {8..<8 + (n + 1)}" "listenFd s = 5" "pipeFd0 s = 6"
    using assms(2) by (simp_all add: crowd_def)
  obtain now where now: "clock_ok now s" using clock_exists by blast
  let ?e = "demo_accept\<lparr>ev_fd := int (8 + n), ev_events := EPOLLIN, ev_recv := feed [''x''], ev_time := now\<rparr>"
  have d: "8 + n \<in> live s" using c(1) by simp
  have "registered (int (8 + n)) (srv_world s) \<noteq> None"
    using server_invD(2) [OF inv d] by (simp add: client_ok_def)
  then have "event_ok ?e s" using c feed_ok now by (simp add: event_ok_def)
  moreover have "has_event EPOLLIN (HANGUP OR EPOLLIN OR EPOLLOUT)" by (simp add: has_event_def)
  ultimately have "reportable ?e s D" using assms(4) by (simp add: reportable_def)
  moreover have "CHttp_Read (feed [''x'']) (https s (8 + n)) = Some (True, take_in ''x'' (https s (8 + n)))"
    using assms(5,6) by (simp add: CHttp_Read_def feed_def MAX_READ_DATA_BUFF_SIZE_def take_Cons')
  ultimately show thesis using that [of ?e] d by simp
qed

lemma crowd_queued:
  assumes "n \<le> TASK_NUM"
  shows "\<exists>s D R. shot_run demo_kernel s D R \<and> crowd n n s \<and> 5 \<notin> D"
  using assms
proof (induction n)
  case 0
  have "shot_run demo_kernel demo_start {} {}" unfolding demo_start_def by (rule shot_run.start) simp
  moreover have "live demo_start = {}" unfolding demo_start_def by (rule server_start_inv(2)) simp
  then have "crowd 0 0 demo_start"
    using demo_start_fields by (simp add: crowd_def) (simp add: demo_start_def server_start_def Let_def CTimerHeap_new_def)
  ultimately show ?case by blast
next
  case (Suc n)
  then obtain s0 D0 R0 where "shot_run demo_kernel s0 D0 R0" "crowd n n s0" "5 \<notin> D0" by auto
  with newcomer [OF this(1,2) _ this(3)] Suc.prems obtain s D R where
    s: "shot_run demo_kernel s D R" "crowd (n + 1) n s" "5 \<notin> D" "int (8 + n) \<notin> D"
      "m_iTriggerMode (https s (8 + n)) = 0" "m_iReadIdx (https s (8 + n)) = 0" by auto
  obtain e c where e: "reportable e s D" "ev_fd e = int (8 + n)" "ev_events e = EPOLLIN"
    "CHttp_Read (ev_recv e) (https s (8 + n)) = Some (True, c)" "8 + n \<in> live s" by (rule sends_byte [OF s]) blast
  note inv = serving_inv [OF shot_serving [OF s(1)]]
  have fields: "listenFd s = 5" "pipeFd0 s = 6" "length (pool_tasks s) = n" using s(2) by (simp_all add: crowd_def)
  have ok: "recv_ok (ev_recv e)" "clock_ok (ev_time e) s"
    using e(1,2) fields(1) by (auto simp: reportable_def event_ok_def)
  from on_readable_true [OF inv e(5) ok e(4)] obtain s' where
    s': "on_readable (ev_recv e) (ev_time e) (int (8 + n)) s = Some (Inr s')" "live s' = live s"
      "pool_tasks s' = pool_tasks (append_task (8 + n) s)" "listenFd s' = 5" "pipeFd0 s' = 6" using fields(1,2) by auto
  have run: "handle_event demo_kernel e s = Some (Inr s')"
    using s'(1) e(2,3) fields(1,2) by (simp add: handle_event_def Let_def has_event_def)
  have "same_store (cTimerHeap s) (cTimerHeap s')"
  proof -
    have "prolong (timer (clientDatas s (8 + n))) (ev_time e) (append_task (8 + n) (s\<lparr>https := (https s)(8 + n := c)\<rparr>)) = Inr s'"
      using s'(1) e(4) live_slot [OF inv e(5)] by (simp add: on_readable_def Let_def)
    from prolong_store [OF this] show ?thesis by (simp add: append_task_def split: if_splits)
  qed
  then have "crowd (Suc n) (Suc n) s'"
    using s(2) s' Suc.prems by (simp add: crowd_def same_store_def append_task_def)
  moreover have "5 \<notin> still_disarmed (D \<union> one_shot e s) s s'"
    using s(3) e(2) still_disarmed_sub [of "D \<union> one_shot e s" s s'] by (auto simp: one_shot_def split: if_splits)
  ultimately show ?case using shot_run.event [OF s(1) e(1) run] by blast
qed


lemma refused_task_stranded_witness:
  "\<exists>s D R e s'. shot_run demo_kernel s D R \<and> length (pool_tasks s) = TASK_NUM \<and> ev_fd e = 108 \<and>
    handle_event demo_kernel e s = Some (Inr s') \<and> 108 \<in> live s' \<and> pool_tasks s' = pool_tasks s \<and>
    w_calls (srv_world s') = w_calls (srv_world s)"
proof -
  obtain s0 D0 R0 where s0: "shot_run demo_kernel s0 D0 R0" "crowd TASK_NUM TASK_NUM s0" "5 \<notin> D0"
    using crowd_queued by blast
  obtain s D R where s: "shot_run demo_kernel s D R" "crowd (TASK_NUM + 1) TASK_NUM s" "5 \<notin> D" "int (8 + TASK_NUM) \<notin> D"
      "m_iTriggerMode (https s (8 + TASK_NUM)) = 0" "m_iReadIdx (https s (8 + TASK_NUM)) = 0"
    using newcomer [OF s0(1,2) order_refl s0(3)] by blast
  obtain e c where e: "reportable e s D" "ev_fd e = int (8 + TASK_NUM)" "ev_events e = EPOLLIN"
    "CHttp_Read (ev_recv e) (https s (8 + TASK_NUM)) = Some (True, c)" "8 + TASK_NUM \<in> live s"
    by (rule sends_byte [OF s]) blast
  have ev: "\<not> has_event (ev_events e) HANGUP" "has_event (ev_events e) EPOLLIN" using e(3) by (simp_all add: has_event_def)
  have full: "length (pool_tasks s) = TASK_NUM" using s(2) by (simp add: crowd_def)
  have num: "8 + TASK_NUM = 108" by (simp add: TASK_NUM_def)
  from refused_task_stranded [OF s(1) e(1,2,5) ev e(4)] full obtain s' where
    "handle_event demo_kernel e s = Some (Inr s')" "8 + TASK_NUM \<in> live s'" "pool_tasks s' = pool_tasks s"
    "w_calls (srv_world s') = w_calls (srv_world s)" by auto
  with s(1) full e(2) show ?thesis unfolding num by (intro exI conjI) (assumption | simp)+
qed

end
