(* ===== verification/Log_Ring.thy ===== *)
theory Log_Ring
  imports CLib "HOL-Library.Word"
begin

text \<open>
  The ring of log buffers of \<open>log/log.h\<close> and \<open>log/log.cpp\<close>: cells in shared memory that form a
  circular list, producers that append lines (\<open>TryAppendLog\<close>) and one thread that writes full cells
  to the log file (\<open>PersistLog\<close>).
\<close>

section \<open>Cells\<close>

datatype BUFFER_STATUS = FREE | FULL

type_synonym addr = nat
type_synonym shmid = int

record CBufferCell =
  m_eStatus :: BUFFER_STATUS
  m_iPreShmId :: shmid
  m_iNextShmId :: shmid
  m_pPre :: "addr option"
  m_pNext :: "addr option"
  m_iShmId :: shmid
  m_aData :: "char list"
  m_uTolLength :: nat
  m_uCurLength :: nat

definition CBufferCell_new :: "shmid \<Rightarrow> nat \<Rightarrow> CBufferCell" where
  "CBufferCell_new shmId len =
     \<lparr>m_eStatus = FREE, m_iPreShmId = -1, m_iNextShmId = -1, m_pPre = None, m_pNext = None,
      m_iShmId = shmId, m_aData = replicate len NUL, m_uTolLength = len, m_uCurLength = 0\<rparr>"

definition GetFreeLen :: "CBufferCell \<Rightarrow> nat" where
  "GetFreeLen c = m_uTolLength c - m_uCurLength c"

definition IsEmpty :: "CBufferCell \<Rightarrow> bool" where
  "IsEmpty c \<longleftrightarrow> m_uCurLength c = 0"

text \<open>\<open>log_data\<close> is the whole array that is copied from; copying beyond it is a fault.\<close>

definition CBufferCell_Append :: "char list \<Rightarrow> nat \<Rightarrow> CBufferCell \<Rightarrow> CBufferCell res" where
  "CBufferCell_Append log_data len c =
     (if GetFreeLen c < len then Inr c
      else if length log_data < len then Inl OutOfBounds
      else Inr (c\<lparr>m_aData := take (m_uCurLength c) (m_aData c) @ take len log_data @
                     drop (m_uCurLength c + len) (m_aData c),
                  m_uCurLength := m_uCurLength c + len\<rparr>))"

definition ClearBuffer :: "CBufferCell \<Rightarrow> CBufferCell" where
  "ClearBuffer c =
     c\<lparr>m_uCurLength := 0, m_aData := replicate (m_uTolLength c) NUL @ drop (m_uTolLength c) (m_aData c),
       m_eStatus := FREE\<rparr>"

text \<open>\<open>fwrite\<close> stores the first \<open>n\<close> bytes of what it is given; a short write is only reported.\<close>

definition Persist :: "nat \<Rightarrow> CBufferCell \<Rightarrow> string \<Rightarrow> string" where
  "Persist n c fp = fp @ take (min n (m_uCurLength c)) (m_aData c)"

section \<open>Shared memory\<close>

text \<open>
  \<open>shm_keys\<close> are the segments by key, \<open>cells\<close> their contents, \<open>attached\<close> what each address of this
  process is attached to. One segment can be attached at several addresses.
\<close>

record CRingLog =
  shm_keys :: "int \<rightharpoonup> shmid"
  cells :: "shmid \<rightharpoonup> CBufferCell"
  attached :: "addr \<rightharpoonup> shmid"
  m_iBuffCnt :: nat
  m_pCurBuf :: addr
  m_pPrstBuf :: addr
  m_uOneBuffLen :: nat
  m_uLastLogFailTime :: "64 word"
  m_pPrstBCShmId :: shmid

definition cell_at_addr :: "CRingLog \<Rightarrow> addr \<Rightarrow> CBufferCell res" where
  "cell_at_addr s a =
     (case attached s a of None \<Rightarrow> Inl UseAfterFree
      | Some i \<Rightarrow> (case cells s i of None \<Rightarrow> Inl UseAfterFree | Some c \<Rightarrow> Inr c))"

definition on_cell :: "addr \<Rightarrow> (CBufferCell \<Rightarrow> CBufferCell) \<Rightarrow> CRingLog \<Rightarrow> CRingLog res" where
  "on_cell a f s =
     bind_res (cell_at_addr s a) (\<lambda>c. Inr (s\<lparr>cells := (cells s)(the (attached s a) \<mapsto> f c)\<rparr>))"

definition deref_ptr :: "addr option \<Rightarrow> addr res" where
  "deref_ptr p = (case p of None \<Rightarrow> Inl NullDeref | Some a \<Rightarrow> Inr a)"

text \<open>
  \<open>CreateCellBuffer\<close>: an existing segment of the key is taken over when it is large enough (\<open>shmget\<close>
  refuses a smaller one), otherwise \<open>new\<close> is the kernel's answer (\<open>None\<close> when it has no memory). It is
  attached at \<open>a\<close>. The header is initialised; the data area keeps what an old segment held, and is
  zero in a new one.
\<close>

definition CreateCellBuffer ::
  "int \<Rightarrow> nat \<Rightarrow> shmid option \<Rightarrow> addr \<Rightarrow> CRingLog \<Rightarrow> addr option \<times> CRingLog" where
  "CreateCellBuffer key len new a s =
     (let old = (case shm_keys s key of None \<Rightarrow> None | Some i \<Rightarrow> map_option (\<lambda>c. (i, m_aData c)) (cells s i));
          got = (case old of Some (i, d) \<Rightarrow> (if len \<le> length d then Some (i, d) else None)
                 | None \<Rightarrow> map_option (\<lambda>i. (i, replicate len NUL)) new)
      in case got of
        None \<Rightarrow> (None, s)
      | Some (i, d) \<Rightarrow>
          (Some a, s\<lparr>shm_keys := (shm_keys s)(key \<mapsto> i), attached := (attached s)(a \<mapsto> i),
                     cells := (cells s)(i \<mapsto> (CBufferCell_new i len)\<lparr>m_aData := d\<rparr>)\<rparr>))"

section \<open>The constructor\<close>

definition SHMKEY :: int where "SHMKEY = 500234"
definition ONELOGLEN :: nat where "ONELOGLEN = 4 * 1024"
definition LOGFILEMEMLIMIT :: "32 word" where "LOGFILEMEMLIMIT = 3 * 1024 * 1024 * 1024"
definition RELOGTHRESOLD :: "64 word" where "RELOGTHRESOLD = 5"

text \<open>\<open>current\<close> becomes the successor of \<open>prev\<close>.\<close>

definition link_cells :: "addr \<Rightarrow> addr \<Rightarrow> CRingLog \<Rightarrow> CRingLog res" where
  "link_cells prev current s =
     bind_res (cell_at_addr s prev) (\<lambda>p.
     bind_res (on_cell current (\<lambda>c. c\<lparr>m_pPre := Some prev, m_iPreShmId := m_iShmId p\<rparr>) s) (\<lambda>s1.
     bind_res (cell_at_addr s1 current) (\<lambda>c.
       on_cell prev (\<lambda>p. p\<lparr>m_pNext := Some current, m_iNextShmId := m_iShmId c\<rparr>) s1)))"

text \<open>The loop over the remaining cells, all with the key \<open>SHMKEY + 1\<close>; \<open>new\<close> are the kernel's answers.\<close>

fun add_cells :: "(shmid option \<times> addr) list \<Rightarrow> addr \<Rightarrow> CRingLog \<Rightarrow> (addr \<times> CRingLog) res" where
  "add_cells [] prev s = Inr (prev, s)"
| "add_cells ((i, a) # new) prev s =
     (case CreateCellBuffer (SHMKEY + 1) (m_uOneBuffLen s) i a s of
        (None, s1) \<Rightarrow> Inl ExitOne
      | (Some current, s1) \<Rightarrow> bind_res (link_cells prev current s1) (add_cells new current))"

definition close_ring :: "addr \<Rightarrow> addr \<Rightarrow> CRingLog \<Rightarrow> CRingLog res" where
  "close_ring prev head s =
     bind_res (cell_at_addr s head) (\<lambda>h.
     bind_res (on_cell prev (\<lambda>p. p\<lparr>m_pNext := Some head, m_iNextShmId := m_iShmId h\<rparr>) s) (\<lambda>s1.
     bind_res (cell_at_addr s1 prev) (\<lambda>p.
       on_cell head (\<lambda>h. h\<lparr>m_pPre := Some prev, m_iPreShmId := m_iShmId p\<rparr>) s1)))"

text \<open>
  \<open>CRingLog()\<close> after \<open>GetPrstCBShmId\<close>, in a process that has nothing attached yet. The count is the
  constant 3, of which the first cell is made outside the loop.
\<close>

definition ring_zero :: "(int \<rightharpoonup> shmid) \<Rightarrow> (shmid \<rightharpoonup> CBufferCell) \<Rightarrow> nat \<Rightarrow> CRingLog" where
  "ring_zero keys segs len =
     \<lparr>shm_keys = keys, cells = segs, attached = Map.empty, m_iBuffCnt = 3, m_pCurBuf = 0, m_pPrstBuf = 0,
      m_uOneBuffLen = len, m_uLastLogFailTime = 0, m_pPrstBCShmId = 0\<rparr>"

definition CRingLog_new ::
  "(int \<rightharpoonup> shmid) \<Rightarrow> (shmid \<rightharpoonup> CBufferCell) \<Rightarrow> nat \<Rightarrow> (shmid option \<times> addr) \<Rightarrow>
   (shmid option \<times> addr) \<times> (shmid option \<times> addr) \<Rightarrow> CRingLog res" where
  "CRingLog_new keys segs len first rest =
     (case CreateCellBuffer SHMKEY len (fst first) (snd first) (ring_zero keys segs len) of
        (None, s) \<Rightarrow> Inl ExitOne
      | (Some head, s) \<Rightarrow>
          bind_res (add_cells [fst rest, snd rest] head s) (\<lambda>(prev, s1).
          bind_res (close_ring prev head s1) (\<lambda>s2.
          bind_res (cell_at_addr s2 head) (\<lambda>h.
            Inr (s2\<lparr>m_pCurBuf := head, m_pPrstBuf := head, m_pPrstBCShmId := m_iShmId h\<rparr>)))))"

section \<open>Appending a line\<close>

text \<open>
  The array \<open>logLine\<close> after the two \<open>snprintf\<close> (\<open>pre\<close> and \<open>post\<close> are the texts they expand to), and the
  length they return together: the length of the full texts, whatever was stored. A prefix longer
  than the array makes the size given to the second call negative.
\<close>

definition log_line :: "string \<Rightarrow> string \<Rightarrow> char list res" where
  "log_line pre post =
     (if ONELOGLEN < length pre then Inl OutOfBounds
      else
        let l = take (ONELOGLEN - 1) pre @ take (ONELOGLEN - 1 - length pre) post
        in Inr (l @ replicate (ONELOGLEN - length l) NUL))"

definition log_len :: "string \<Rightarrow> string \<Rightarrow> nat" where
  "log_len pre post = (length pre + length post) mod 2 ^ 32"

text \<open>Growing the ring: a new cell between the current one and its successor.\<close>

definition grow :: "shmid option \<Rightarrow> addr \<Rightarrow> addr \<Rightarrow> addr \<Rightarrow> CRingLog \<Rightarrow> CRingLog res" where
  "grow new a cur next s =
     (case CreateCellBuffer (SHMKEY + int (m_iBuffCnt s)) (m_uOneBuffLen s) new a s of
        (None, s1) \<Rightarrow> Inl NullDeref
      | (Some newBuffer, s1) \<Rightarrow>
          bind_res (link_cells cur newBuffer (s1\<lparr>m_iBuffCnt := m_iBuffCnt s1 + 1\<rparr>)) (\<lambda>s2.
          bind_res (cell_at_addr s2 next) (\<lambda>n.
          bind_res (on_cell newBuffer (\<lambda>c. c\<lparr>m_pNext := Some next, m_iNextShmId := m_iShmId n\<rparr>) s2) (\<lambda>s3.
          bind_res (cell_at_addr s3 newBuffer) (\<lambda>c.
          bind_res (on_cell next (\<lambda>n. n\<lparr>m_pPre := Some newBuffer, m_iPreShmId := m_iShmId c\<rparr>) s3) (\<lambda>s4.
            Inr (s4\<lparr>m_pCurBuf := newBuffer\<rparr>)))))))"

definition append_to :: "addr \<Rightarrow> char list \<Rightarrow> nat \<Rightarrow> CRingLog \<Rightarrow> CRingLog res" where
  "append_to a line len s =
     bind_res (cell_at_addr s a) (\<lambda>c. bind_res (CBufferCell_Append line len c) (\<lambda>c'. on_cell a (\<lambda>_. c') s))"

definition ring_limit :: "CRingLog \<Rightarrow> bool" where
  "ring_limit s \<longleftrightarrow>
     LOGFILEMEMLIMIT < (word_of_nat (m_uOneBuffLen s) :: 32 word) * word_of_nat (m_iBuffCnt s + 1)"

text \<open>The branch for a line that does not fit in the current free cell.\<close>

definition next_cell :: "64 word \<Rightarrow> shmid option \<Rightarrow> addr \<Rightarrow> CRingLog \<Rightarrow> CRingLog res" where
  "next_cell curSec new a s =
     (let cur = m_pCurBuf s in
      bind_res (on_cell cur (\<lambda>c. c\<lparr>m_eStatus := FULL\<rparr>) s) (\<lambda>s1.
      bind_res (cell_at_addr s1 cur) (\<lambda>c.
      bind_res (deref_ptr (m_pNext c)) (\<lambda>next.
      bind_res (cell_at_addr s1 next) (\<lambda>n.
        if m_eStatus n = FULL then
          if ring_limit s1 then Inr (s1\<lparr>m_pCurBuf := next, m_uLastLogFailTime := curSec\<rparr>)
          else grow new a cur next s1
        else Inr (s1\<lparr>m_pCurBuf := next\<rparr>))))))"

text \<open>
  \<open>TryAppendLog\<close> with the expanded texts. The result says whether the writer thread is signalled.
\<close>

definition TryAppendLog ::
  "64 word \<Rightarrow> string \<Rightarrow> string \<Rightarrow> shmid option \<Rightarrow> addr \<Rightarrow> CRingLog \<Rightarrow> (bool \<times> CRingLog) res" where
  "TryAppendLog curSec pre post new a s =
     (if m_uLastLogFailTime s \<noteq> 0 \<and> curSec - m_uLastLogFailTime s < RELOGTHRESOLD then Inr (False, s)
      else
        let len = log_len pre post; s0 = s\<lparr>m_uLastLogFailTime := 0\<rparr> in
        bind_res (log_line pre post) (\<lambda>line.
        bind_res (cell_at_addr s0 (m_pCurBuf s0)) (\<lambda>c.
          if m_eStatus c = FREE \<and> len \<le> GetFreeLen c then
            bind_res (append_to (m_pCurBuf s0) line len s0) (\<lambda>s1. Inr (False, s1))
          else if m_eStatus c = FREE then
            bind_res (next_cell curSec new a s0) (\<lambda>s1.
              if m_uLastLogFailTime s1 = 0 then
                bind_res (append_to (m_pCurBuf s1) line len s1) (\<lambda>s2. Inr (True, s2))
              else Inr (True, s1))
          else Inr (False, s0\<lparr>m_uLastLogFailTime := curSec\<rparr>))))"

section \<open>Writing the log\<close>

text \<open>
  The iteration of \<open>PersistLog\<close> in its atomic parts. \<open>persist_begin\<close> is the first critical section
  after the timed wait: whether there is a cell to write. \<open>persist_end\<close> is the second one.
\<close>

definition must_wait :: "CRingLog \<Rightarrow> bool res" where
  "must_wait s = bind_res (cell_at_addr s (m_pPrstBuf s)) (\<lambda>c. Inr (m_eStatus c = FREE))"

definition persist_begin :: "CRingLog \<Rightarrow> (bool \<times> CRingLog) res" where
  "persist_begin s =
     bind_res (cell_at_addr s (m_pPrstBuf s)) (\<lambda>c.
       if IsEmpty c then Inr (False, s)
       else if m_eStatus c = FREE then
         if m_pCurBuf s \<noteq> m_pPrstBuf s then Inl AssertFailed
         else
           bind_res (on_cell (m_pCurBuf s) (\<lambda>c. c\<lparr>m_eStatus := FULL\<rparr>) s) (\<lambda>s1.
           bind_res (cell_at_addr s1 (m_pCurBuf s1)) (\<lambda>c.
           bind_res (deref_ptr (m_pNext c)) (\<lambda>next. Inr (True, s1\<lparr>m_pCurBuf := next\<rparr>))))
       else Inr (True, s))"

definition persist_write :: "nat \<Rightarrow> CRingLog \<Rightarrow> string \<Rightarrow> string res" where
  "persist_write n s fp = bind_res (cell_at_addr s (m_pPrstBuf s)) (\<lambda>c. Inr (Persist n c fp))"

definition persist_end :: "CRingLog \<Rightarrow> CRingLog res" where
  "persist_end s =
     bind_res (on_cell (m_pPrstBuf s) ClearBuffer s) (\<lambda>s1.
     bind_res (cell_at_addr s1 (m_pPrstBuf s1)) (\<lambda>c.
     bind_res (deref_ptr (m_pNext c)) (\<lambda>next.
     bind_res (cell_at_addr s1 next) (\<lambda>n.
       Inr (s1\<lparr>m_pPrstBuf := next, m_pPrstBCShmId := m_iShmId n\<rparr>)))))"

end
