(* ===== verification/Log_Inv.thy ===== *)
theory Log_Inv
  imports Log_Ring
begin

text \<open>
  The invariant of the log ring: the cells form a circle through \<open>m_pNext\<close> and \<open>m_iNextShmId\<close>, and
  from the writer's cell on come full cells, the current one, and free ones. Then the three changes
  it is made for: an update of a cell, a text added to the current cell, a new cell put into the circle.
\<close>

section \<open>The cells of the ring\<close>

definition seg :: "CRingLog \<Rightarrow> addr \<Rightarrow> shmid" where
  "seg s a = the (attached s a)"

definition cellat :: "CRingLog \<Rightarrow> addr \<Rightarrow> CBufferCell" where
  "cellat s a = the (cells s (seg s a))"

definition cell_ok :: "nat \<Rightarrow> shmid \<Rightarrow> CBufferCell \<Rightarrow> bool" where
  "cell_ok len i c \<longleftrightarrow> m_iShmId c = i \<and> m_uTolLength c = len \<and> len \<le> length (m_aData c) \<and> m_uCurLength c \<le> len"

definition holds :: "CRingLog \<Rightarrow> addr \<Rightarrow> bool" where
  "holds s a \<longleftrightarrow> attached s a = Some (seg s a) \<and> cells s (seg s a) = Some (cellat s a) \<and>
     cell_ok (m_uOneBuffLen s) (seg s a) (cellat s a)"

definition links_to :: "CRingLog \<Rightarrow> addr \<Rightarrow> addr \<Rightarrow> bool" where
  "links_to s a b \<longleftrightarrow> m_pNext (cellat s a) = Some b \<and> m_iNextShmId (cellat s a) = seg s b"

text \<open>\<open>linked s as e\<close>: each cell of the list points to the next one, the last one to \<open>e\<close>.\<close>

fun linked :: "CRingLog \<Rightarrow> addr list \<Rightarrow> addr \<Rightarrow> bool" where
  "linked s [] e \<longleftrightarrow> True"
| "linked s (a # as) e \<longleftrightarrow> links_to s a (hd (as @ [e])) \<and> linked s as e"

definition ring :: "CRingLog \<Rightarrow> addr list \<Rightarrow> bool" where
  "ring s as \<longleftrightarrow> as \<noteq> [] \<and> (\<forall>a \<in> set as. holds s a) \<and> distinct (map (seg s) as) \<and> linked s as (hd as)"

lemma linked_append: "linked s (as @ bs) e \<longleftrightarrow> linked s as (hd (bs @ [e])) \<and> linked s bs e"
proof (induction as)
  case (Cons a as)
  have "hd ((as @ bs) @ [e]) = hd (as @ [hd (bs @ [e])])" by (cases as) auto
  with Cons show ?case by simp
qed simp

lemma linked_cong:
  assumes "\<And>a. a \<in> set as \<Longrightarrow> m_pNext (cellat t a) = m_pNext (cellat s a) \<and> m_iNextShmId (cellat t a) = m_iNextShmId (cellat s a)"
    and "\<And>a. a \<in> set as \<or> a = e \<Longrightarrow> seg t a = seg s a"
  shows "linked t as e = linked s as e"
  using assms
proof (induction as)
  case (Cons a as)
  have "seg t (hd (as @ [e])) = seg s (hd (as @ [e]))" using Cons.prems(2) by (cases as) auto
  with Cons show ?case by (simp add: links_to_def)
qed simp

lemma hd_before: "hd (xs @ a # b # ys) = hd (xs @ [a])"
  by (cases xs) simp_all

text \<open>The ring starts anywhere.\<close>

lemma ring_rotate: "ring s (a # as) \<Longrightarrow> ring s (as @ [a])"
  by (cases as) (auto simp: ring_def linked_append hd_before)

lemma ring_next:
  assumes "ring s (xs @ a # ys)"
  shows "m_pNext (cellat s a) = Some (hd (ys @ xs @ [a]))"
  using assms by (cases xs; cases ys) (auto simp: ring_def linked_append links_to_def)

lemma ring_holds: "ring s as \<Longrightarrow> a \<in> set as \<Longrightarrow> holds s a"
  by (simp add: ring_def)

lemma ring_seg_eq: "ring s as \<Longrightarrow> a \<in> set as \<Longrightarrow> b \<in> set as \<Longrightarrow> seg s a = seg s b \<longleftrightarrow> a = b"
  by (auto simp: ring_def distinct_map inj_on_def)

lemma ring_distinct: "ring s as \<Longrightarrow> distinct as"
  by (simp add: ring_def distinct_map)

section \<open>Updating a cell\<close>

definition upd :: "addr \<Rightarrow> (CBufferCell \<Rightarrow> CBufferCell) \<Rightarrow> CRingLog \<Rightarrow> CRingLog" where
  "upd a f s = s\<lparr>cells := (cells s)(seg s a \<mapsto> f (cellat s a))\<rparr>"

lemma cell_at_addr_holds [simp]: "holds s a \<Longrightarrow> cell_at_addr s a = Inr (cellat s a)"
  by (simp add: holds_def cell_at_addr_def)

lemma on_cell_holds [simp]: "holds s a \<Longrightarrow> on_cell a f s = Inr (upd a f s)"
  by (simp add: on_cell_def upd_def seg_def)

lemma upd_fields [simp]:
  "m_pCurBuf (upd a f s) = m_pCurBuf s" "m_pPrstBuf (upd a f s) = m_pPrstBuf s"
  "m_uOneBuffLen (upd a f s) = m_uOneBuffLen s" "m_iBuffCnt (upd a f s) = m_iBuffCnt s"
  "m_uLastLogFailTime (upd a f s) = m_uLastLogFailTime s" "m_pPrstBCShmId (upd a f s) = m_pPrstBCShmId s"
  "shm_keys (upd a f s) = shm_keys s" "attached (upd a f s) = attached s" "seg (upd a f s) = seg s"
  by (simp_all add: upd_def seg_def fun_eq_iff)

lemma ring_limit_fields [simp]:
  "ring_limit (upd a f s) = ring_limit s" "ring_limit (s\<lparr>m_pCurBuf := x\<rparr>) = ring_limit s"
  "ring_limit (s\<lparr>m_uLastLogFailTime := t\<rparr>) = ring_limit s"
  by (simp_all add: ring_limit_def)

lemma upd_self: "cellat (upd a f s) a = f (cellat s a)"
  by (simp add: upd_def cellat_def seg_def)

lemma upd_other: "seg s b \<noteq> seg s a \<Longrightarrow> cellat (upd a f s) b = cellat s b"
  by (simp add: upd_def cellat_def seg_def)

lemma ring_upd_cell:
  assumes "ring s as" and "a \<in> set as" and "b \<in> set as"
  shows "cellat (upd a f s) b = (if b = a then f (cellat s a) else cellat s b)"
  using ring_seg_eq [OF assms(1,3,2)] by (auto simp: upd_self upd_other)

lemma holds_upd:
  assumes "holds s a" "holds s b" "cell_ok (m_uOneBuffLen s) (seg s a) (f (cellat s a))"
  shows "holds (upd a f s) b"
proof (cases "seg s a = seg s b")
  case True
  then have "cellat (upd a f s) b = f (cellat s a)" by (simp add: upd_def cellat_def seg_def)
  with True assms show ?thesis by (simp add: holds_def) (simp add: upd_def)
next
  case False
  with assms show ?thesis
    by (simp add: holds_def upd_other [of s b a f]) (simp add: upd_def)
qed

text \<open>Changing a cell but not its links keeps the ring.\<close>

definition same_links :: "CBufferCell \<Rightarrow> CBufferCell \<Rightarrow> bool" where
  "same_links c d \<longleftrightarrow> m_pNext d = m_pNext c \<and> m_iNextShmId d = m_iNextShmId c"

lemma ring_upd:
  assumes "ring s as" and "a \<in> set as" and "same_links (cellat s a) (f (cellat s a))"
    and "cell_ok (m_uOneBuffLen s) (seg s a) (f (cellat s a))"
  shows "ring (upd a f s) as"
proof -
  have "linked (upd a f s) as (hd as) = linked s as (hd as)"
    using assms by (intro linked_cong) (auto simp: ring_upd_cell same_links_def)
  with assms holds_upd show ?thesis by (auto simp: ring_def)
qed

text \<open>Changing the fields the ring does not depend on.\<close>

lemma cellat_other_fields [simp]:
  "cellat (s\<lparr>m_pCurBuf := x\<rparr>) = cellat s" "cellat (s\<lparr>m_pPrstBuf := x\<rparr>) = cellat s"
  "cellat (s\<lparr>m_uLastLogFailTime := t\<rparr>) = cellat s" "cellat (s\<lparr>m_pPrstBCShmId := i\<rparr>) = cellat s"
  "cellat (s\<lparr>m_iBuffCnt := n\<rparr>) = cellat s"
  by (simp_all add: cellat_def seg_def fun_eq_iff)

lemma seg_other_fields [simp]:
  "seg (s\<lparr>m_pCurBuf := x\<rparr>) = seg s" "seg (s\<lparr>m_pPrstBuf := x\<rparr>) = seg s"
  "seg (s\<lparr>m_uLastLogFailTime := t\<rparr>) = seg s" "seg (s\<lparr>m_pPrstBCShmId := i\<rparr>) = seg s"
  "seg (s\<lparr>m_iBuffCnt := n\<rparr>) = seg s"
  by (simp_all add: seg_def fun_eq_iff)

lemma holds_other_fields [simp]:
  "holds (s\<lparr>m_pCurBuf := x\<rparr>) = holds s" "holds (s\<lparr>m_pPrstBuf := x\<rparr>) = holds s"
  "holds (s\<lparr>m_uLastLogFailTime := t\<rparr>) = holds s" "holds (s\<lparr>m_pPrstBCShmId := i\<rparr>) = holds s"
  "holds (s\<lparr>m_iBuffCnt := n\<rparr>) = holds s"
  by (simp_all add: holds_def fun_eq_iff)

lemma linked_other_fields [simp]:
  "linked (s\<lparr>m_pCurBuf := x\<rparr>) as e = linked s as e" "linked (s\<lparr>m_pPrstBuf := x\<rparr>) as e = linked s as e"
  "linked (s\<lparr>m_uLastLogFailTime := t\<rparr>) as e = linked s as e" "linked (s\<lparr>m_pPrstBCShmId := i\<rparr>) as e = linked s as e"
  "linked (s\<lparr>m_iBuffCnt := n\<rparr>) as e = linked s as e"
  by (auto intro!: linked_cong)

lemma ring_other_fields [simp]:
  "ring (s\<lparr>m_pCurBuf := x\<rparr>) as = ring s as" "ring (s\<lparr>m_pPrstBuf := x\<rparr>) as = ring s as"
  "ring (s\<lparr>m_uLastLogFailTime := t\<rparr>) as = ring s as" "ring (s\<lparr>m_pPrstBCShmId := i\<rparr>) as = ring s as"
  "ring (s\<lparr>m_iBuffCnt := n\<rparr>) as = ring s as"
  by (simp_all add: ring_def)

section \<open>The invariant\<close>

definition is_full :: "CRingLog \<Rightarrow> addr \<Rightarrow> bool" where
  "is_full s a \<longleftrightarrow> m_eStatus (cellat s a) = FULL \<and> 0 < m_uCurLength (cellat s a)"

definition is_free :: "CRingLog \<Rightarrow> addr \<Rightarrow> bool" where
  "is_free s a \<longleftrightarrow> m_eStatus (cellat s a) = FREE \<and> m_uCurLength (cellat s a) = 0"

text \<open>
  From the cell being written to the log on: full cells, the current cell, free cells; or all cells
  are full, the memory limit is reached, and the current cell is the one being written.
\<close>

definition layout :: "CRingLog \<Rightarrow> addr list \<Rightarrow> bool" where
  "layout s as \<longleftrightarrow>
     (\<exists>full free. as = full @ m_pCurBuf s # free \<and>
        (m_eStatus (cellat s (m_pCurBuf s)) = FREE \<and> (\<forall>a \<in> set full. is_full s a) \<and> (\<forall>a \<in> set free. is_free s a) \<or>
         full = [] \<and> (\<forall>a \<in> set as. is_full s a) \<and> ring_limit s))"

definition sizes_ok :: "CRingLog \<Rightarrow> bool" where
  "sizes_ok s \<longleftrightarrow> ONELOGLEN \<le> m_uOneBuffLen s \<and> m_uOneBuffLen s < 2 ^ 30 \<and>
     m_uOneBuffLen s * m_iBuffCnt s \<le> 3 * 2 ^ 30 \<and>
     (\<forall>k \<ge> m_iBuffCnt s. shm_keys s (SHMKEY + int k) = None)"

definition log_inv :: "CRingLog \<Rightarrow> addr list \<Rightarrow> bool" where
  "log_inv s as \<longleftrightarrow> ring s as \<and> m_pPrstBuf s = hd as \<and> m_pPrstBCShmId s = seg s (hd as) \<and>
     2 \<le> length as \<and> m_iBuffCnt s = length as + 1 \<and> layout s as \<and> sizes_ok s"

definition cell_text :: "CRingLog \<Rightarrow> addr \<Rightarrow> string" where
  "cell_text s a = take (m_uCurLength (cellat s a)) (m_aData (cellat s a))"

definition contents :: "CRingLog \<Rightarrow> addr list \<Rightarrow> string" where
  "contents s as = concat (map (cell_text s) as)"

section \<open>Appending to a cell\<close>

definition filled :: "string \<Rightarrow> CBufferCell \<Rightarrow> CBufferCell" where
  "filled t c = c\<lparr>m_aData := take (m_uCurLength c) (m_aData c) @ t @ drop (m_uCurLength c + length t) (m_aData c),
                  m_uCurLength := m_uCurLength c + length t\<rparr>"

lemma filled_fields:
  assumes "cell_ok len i c" and "length t \<le> GetFreeLen c"
  shows "cell_ok len i (filled t c)" "same_links c (filled t c)" "m_eStatus (filled t c) = m_eStatus c"
    "m_uCurLength (filled t c) = m_uCurLength c + length t"
    "take (m_uCurLength (filled t c)) (m_aData (filled t c)) = take (m_uCurLength c) (m_aData c) @ t"
  using assms by (auto simp: filled_def cell_ok_def same_links_def GetFreeLen_def min_def)

lemma append_to_fits:
  assumes "holds s a" and "length t \<le> GetFreeLen (cellat s a)"
  shows "append_to a (t @ u) (length t) s = Inr (upd a (filled t) s)"
  using assms by (simp add: append_to_def CBufferCell_Append_def upd_def filled_def)

lemma cell_text_upd:
  assumes "ring s as" and "a \<in> set as" and "b \<in> set as"
  shows "cell_text (upd a f s) b = (if b = a then take (m_uCurLength (f (cellat s a))) (m_aData (f (cellat s a))) else cell_text s b)"
  using ring_upd_cell [OF assms] by (simp add: cell_text_def)

lemma contents_append [simp]: "contents s (as @ bs) = contents s as @ contents s bs"
  by (simp add: contents_def)

lemma contents_simps [simp]: "contents s [] = []" "contents s (a # as) = cell_text s a @ contents s as"
  by (simp_all add: contents_def)

lemma contents_cong: "(\<And>a. a \<in> set as \<Longrightarrow> cell_text t a = cell_text s a) \<Longrightarrow> contents t as = contents s as"
  by (induction as) simp_all

lemma contents_free: "\<forall>a \<in> set as. is_free s a \<Longrightarrow> contents s as = []"
  by (induction as) (simp_all add: cell_text_def is_free_def)

lemma cell_text_other_fields [simp]:
  "cell_text (s\<lparr>m_pCurBuf := x\<rparr>) = cell_text s" "cell_text (s\<lparr>m_pPrstBuf := x\<rparr>) = cell_text s"
  "cell_text (s\<lparr>m_uLastLogFailTime := t\<rparr>) = cell_text s" "cell_text (s\<lparr>m_pPrstBCShmId := i\<rparr>) = cell_text s"
  by (simp_all add: cell_text_def fun_eq_iff)

lemma contents_other_fields [simp]:
  "contents (s\<lparr>m_pCurBuf := x\<rparr>) as = contents s as" "contents (s\<lparr>m_pPrstBuf := x\<rparr>) as = contents s as"
  "contents (s\<lparr>m_uLastLogFailTime := t\<rparr>) as = contents s as" "contents (s\<lparr>m_pPrstBCShmId := i\<rparr>) as = contents s as"
  by (simp_all add: contents_def)

lemma is_full_other_fields [simp]:
  "is_full (s\<lparr>m_pCurBuf := x\<rparr>) = is_full s" "is_full (s\<lparr>m_pPrstBuf := x\<rparr>) = is_full s"
  "is_full (s\<lparr>m_uLastLogFailTime := t\<rparr>) = is_full s" "is_full (s\<lparr>m_pPrstBCShmId := i\<rparr>) = is_full s"
  "is_free (s\<lparr>m_pCurBuf := x\<rparr>) = is_free s" "is_free (s\<lparr>m_pPrstBuf := x\<rparr>) = is_free s"
  "is_free (s\<lparr>m_uLastLogFailTime := t\<rparr>) = is_free s" "is_free (s\<lparr>m_pPrstBCShmId := i\<rparr>) = is_free s"
  by (simp_all add: is_full_def is_free_def fun_eq_iff)

lemma sizes_upd [simp]: "sizes_ok (upd a f s) = sizes_ok s"
  by (simp add: sizes_ok_def)

text \<open>
  The state with current cell \<open>m_pCurBuf\<close> free, between full and free cells. \<open>open_at\<close> is the common
  case of \<open>log_inv\<close>.
\<close>

definition log_base :: "CRingLog \<Rightarrow> addr list \<Rightarrow> bool" where
  "log_base s as \<longleftrightarrow> ring s as \<and> m_pPrstBuf s = hd as \<and> m_pPrstBCShmId s = seg s (hd as) \<and>
     2 \<le> length as \<and> m_iBuffCnt s = length as + 1 \<and> sizes_ok s"

lemma log_inv_base: "log_inv s as \<longleftrightarrow> log_base s as \<and> layout s as"
  by (auto simp: log_inv_def log_base_def)

lemma log_base_upd:
  assumes "log_base s as" "a \<in> set as" "same_links (cellat s a) (f (cellat s a))"
    "cell_ok (m_uOneBuffLen s) (seg s a) (f (cellat s a))"
  shows "log_base (upd a f s) as"
  using assms ring_upd by (auto simp: log_base_def)

lemma log_base_other_fields [simp]:
  "log_base (s\<lparr>m_pCurBuf := x\<rparr>) as = log_base s as"
  "log_base (s\<lparr>m_uLastLogFailTime := t\<rparr>) as = log_base s as"
  by (simp_all add: log_base_def sizes_ok_def)

lemma log_base_cell_ok: "log_base s as \<Longrightarrow> a \<in> set as \<Longrightarrow> cell_ok (m_uOneBuffLen s) (seg s a) (cellat s a)"
  using ring_holds by (auto simp: log_base_def holds_def)

lemma layoutE:
  assumes "layout s as"
  obtains (current) full free where "as = full @ m_pCurBuf s # free" "m_eStatus (cellat s (m_pCurBuf s)) = FREE"
      "\<forall>a \<in> set full. is_full s a" "\<forall>a \<in> set free. is_free s a"
    | (all_full) free where "as = m_pCurBuf s # free" "\<forall>a \<in> set as. is_full s a" "ring_limit s"
  using assms unfolding layout_def by (metis append_Nil)

text \<open>Putting a line that fits into the free current cell.\<close>

lemma open_append:
  assumes "log_base s as" and "as = full @ m_pCurBuf s # free" and "m_eStatus (cellat s (m_pCurBuf s)) = FREE"
    and "\<forall>a \<in> set full. is_full s a" and "\<forall>a \<in> set free. is_free s a"
    and "length t \<le> GetFreeLen (cellat s (m_pCurBuf s))"
  defines "s' \<equiv> upd (m_pCurBuf s) (filled t) s"
  shows "append_to (m_pCurBuf s) (t @ u) (length t) s = Inr s'" "log_inv s' as"
    "contents s' as = contents s as @ t" "\<forall>a \<in> set as. is_full s a \<longrightarrow> is_full s' a \<and> cell_text s' a = cell_text s a"
    "m_uLastLogFailTime s' = m_uLastLogFailTime s"
proof -
  let ?a = "m_pCurBuf s"
  have a: "?a \<in> set as" and ring: "ring s as" using assms(1,2) by (auto simp: log_base_def)
  have holds: "holds s ?a" using ring a by (rule ring_holds)
  note fld = filled_fields [OF log_base_cell_ok [OF assms(1) a] assms(6)]
  show "append_to ?a (t @ u) (length t) s = Inr s'"
    unfolding s'_def using append_to_fits [OF holds assms(6)] .
  have cells: "cellat s' b = (if b = ?a then filled t (cellat s ?a) else cellat s b)" if "b \<in> set as" for b
    unfolding s'_def using ring_upd_cell [OF ring a that] .
  have notin: "?a \<notin> set full" "?a \<notin> set free" using ring_distinct [OF ring] assms(2) by auto
  have other: "cellat s' b = cellat s b" if "b \<in> set full \<or> b \<in> set free" for b
    using cells [of b] that notin assms(2) by auto
  have cur: "m_pCurBuf s' = ?a" by (simp add: s'_def)
  have "layout s' as"
    unfolding layout_def
    by (rule exI [of _ full], rule exI [of _ free])
      (use assms(2-5) cur cells [OF a] fld other in \<open>simp add: is_full_def is_free_def\<close>)
  moreover have "log_base s' as"
    unfolding s'_def using assms(1) a fld(2,1) by (rule log_base_upd)
  ultimately show "log_inv s' as" by (simp add: log_inv_base)
  have "cell_text s' ?a = cell_text s ?a @ t" using cells [OF a] fld(5) by (simp add: cell_text_def)
  moreover have "contents s' full = contents s full" "contents s' free = []" "contents s free = []"
    using other contents_free [OF assms(5)] contents_cong [of free s' s]
    by (auto intro!: contents_cong simp: cell_text_def)
  ultimately show "contents s' as = contents s as @ t" by (simp add: assms(2))
  show "\<forall>a \<in> set as. is_full s a \<longrightarrow> is_full s' a \<and> cell_text s' a = cell_text s a"
    using assms(2,3) other by (auto simp: is_full_def cell_text_def)
  show "m_uLastLogFailTime s' = m_uLastLogFailTime s" by (simp add: s'_def)
qed

section \<open>Growing\<close>

lemma inj_upd_cell:
  assumes "inj_on (seg s) A" "a \<in> A" "b \<in> A"
  shows "cellat (upd a f s) b = (if b = a then f (cellat s a) else cellat s b)"
proof (cases "b = a")
  case False
  then have "seg s b \<noteq> seg s a" using assms by (auto simp: inj_on_def)
  with False show ?thesis by (simp add: upd_other)
qed (simp add: upd_self)

text \<open>A fresh segment joins the process; what was there stays.\<close>

definition joined :: "int \<Rightarrow> shmid \<Rightarrow> addr \<Rightarrow> CRingLog \<Rightarrow> CRingLog" where
  "joined key i a s = s\<lparr>shm_keys := (shm_keys s)(key \<mapsto> i), attached := (attached s)(a \<mapsto> i),
     cells := (cells s)(i \<mapsto> CBufferCell_new i (m_uOneBuffLen s))\<rparr>"

lemma create_fresh:
  assumes "shm_keys s key = None"
  shows "CreateCellBuffer key (m_uOneBuffLen s) (Some i) a s = (Some a, joined key i a s)"
  using assms by (simp add: CreateCellBuffer_def joined_def CBufferCell_new_def)

lemma joined_fields [simp]:
  "m_pCurBuf (joined k i a s) = m_pCurBuf s" "m_pPrstBuf (joined k i a s) = m_pPrstBuf s"
  "m_uOneBuffLen (joined k i a s) = m_uOneBuffLen s" "m_iBuffCnt (joined k i a s) = m_iBuffCnt s"
  "m_uLastLogFailTime (joined k i a s) = m_uLastLogFailTime s"
  "m_pPrstBCShmId (joined k i a s) = m_pPrstBCShmId s"
  "shm_keys (joined k i a s) = (shm_keys s)(k \<mapsto> i)"
  by (simp_all add: joined_def)

lemma joined_new: "seg (joined k i a s) a = i" "cellat (joined k i a s) a = CBufferCell_new i (m_uOneBuffLen s)"
    "holds (joined k i a s) a"
  by (simp_all add: joined_def seg_def cellat_def holds_def cell_ok_def CBufferCell_new_def)

lemma joined_old:
  assumes "holds s b" "cells s i = None" "attached s a = None"
  shows "b \<noteq> a" "seg (joined k i a s) b = seg s b" "cellat (joined k i a s) b = cellat s b"
    "holds (joined k i a s) b" "seg s b \<noteq> i"
proof -
  show ne: "b \<noteq> a" "seg s b \<noteq> i" using assms by (auto simp: holds_def)
  show sg: "seg (joined k i a s) b = seg s b" using ne by (simp add: joined_def seg_def)
  show ct: "cellat (joined k i a s) b = cellat s b" using ne by (simp add: joined_def cellat_def seg_def)
  show "holds (joined k i a s) b"
    using assms(1) ne sg ct by (simp add: holds_def) (simp add: joined_def)
qed

text \<open>What \<open>grow\<close> makes of the state.\<close>

definition grown :: "shmid \<Rightarrow> addr \<Rightarrow> addr \<Rightarrow> addr \<Rightarrow> CRingLog \<Rightarrow> CRingLog" where
  "grown i a cur next s =
     (let s1 = (joined (SHMKEY + int (m_iBuffCnt s)) i a s)\<lparr>m_iBuffCnt := m_iBuffCnt s + 1\<rparr>;
          s2 = upd a (\<lambda>c. c\<lparr>m_pPre := Some cur, m_iPreShmId := seg s cur\<rparr>) s1;
          s3 = upd cur (\<lambda>c. c\<lparr>m_pNext := Some a, m_iNextShmId := i\<rparr>) s2;
          s4 = upd a (\<lambda>c. c\<lparr>m_pNext := Some next, m_iNextShmId := seg s next\<rparr>) s3
      in (upd next (\<lambda>c. c\<lparr>m_pPre := Some a, m_iPreShmId := i\<rparr>) s4)\<lparr>m_pCurBuf := a\<rparr>)"

lemma grow_fresh:
  assumes "holds s cur" "holds s next" "cur \<noteq> next" "seg s cur \<noteq> seg s next"
    and "cells s i = None" "attached s a = None" "shm_keys s (SHMKEY + int (m_iBuffCnt s)) = None"
  shows "grow (Some i) a cur next s = Inr (grown i a cur next s)"
    "\<And>b. holds s b \<Longrightarrow> holds (grown i a cur next s) b \<and> seg (grown i a cur next s) b = seg s b"
    "holds (grown i a cur next s) a" "seg (grown i a cur next s) a = i"
    "cellat (grown i a cur next s) a = (CBufferCell_new i (m_uOneBuffLen s))
       \<lparr>m_pPre := Some cur, m_iPreShmId := seg s cur, m_pNext := Some next, m_iNextShmId := seg s next\<rparr>"
    "cellat (grown i a cur next s) cur = (cellat s cur)\<lparr>m_pNext := Some a, m_iNextShmId := i\<rparr>"
    "cellat (grown i a cur next s) next = (cellat s next)\<lparr>m_pPre := Some a, m_iPreShmId := i\<rparr>"
    "\<And>b. holds s b \<Longrightarrow> seg s b \<noteq> seg s cur \<Longrightarrow> seg s b \<noteq> seg s next \<Longrightarrow>
       cellat (grown i a cur next s) b = cellat s b"
proof -
  let ?k = "SHMKEY + int (m_iBuffCnt s)"
  define s1 where "s1 = (joined ?k i a s)\<lparr>m_iBuffCnt := m_iBuffCnt s + 1\<rparr>"
  let ?s2 = "upd a (\<lambda>c. c\<lparr>m_pPre := Some cur, m_iPreShmId := seg s cur\<rparr>) s1"
  let ?s3 = "upd cur (\<lambda>c. c\<lparr>m_pNext := Some a, m_iNextShmId := i\<rparr>) ?s2"
  let ?s4 = "upd a (\<lambda>c. c\<lparr>m_pNext := Some next, m_iNextShmId := seg s next\<rparr>) ?s3"
  let ?s5 = "upd next (\<lambda>c. c\<lparr>m_pPre := Some a, m_iPreShmId := i\<rparr>) ?s4"
  note old = joined_old [OF _ assms(5,6)]
  note new = joined_new [where k="?k" and i=i and a=a and s=s]
  have s1: "holds s1 a" "seg s1 a = i" "cellat s1 a = CBufferCell_new i (m_uOneBuffLen s)"
    "m_uOneBuffLen s1 = m_uOneBuffLen s"
    using new by (simp_all add: s1_def)
  have b1: "holds s1 b" "seg s1 b = seg s b" "cellat s1 b = cellat s b" "seg s b \<noteq> i" if "holds s b" for b
    using old [OF that] by (simp_all add: s1_def)
  have ok: "\<And>c j. cell_ok l j (c\<lparr>m_pPre := p, m_iPreShmId := q\<rparr>) = cell_ok l j c"
    "\<And>c j. cell_ok l j (c\<lparr>m_pNext := p, m_iNextShmId := q\<rparr>) = cell_ok l j c" for l p q
    by (simp_all add: cell_ok_def)
  have hu: "holds (upd x f t) y" if "holds t x" "holds t y" "\<And>c. cell_ok (m_uOneBuffLen t) (seg t x) (f c) = cell_ok (m_uOneBuffLen t) (seg t x) c"
    for x y f t
    using that by (intro holds_upd) (auto simp: holds_def)
  have seg5: "seg ?s5 = seg s1" by simp
  have h2: "holds ?s2 b" if "holds s1 b" for b by (rule hu [OF s1(1) that]) (rule ok)
  have h3: "holds ?s3 b" if "holds s1 b" for b by (rule hu [OF h2 [OF b1(1) [OF assms(1)]] h2 [OF that]]) (rule ok)
  have h4: "holds ?s4 b" if "holds s1 b" for b by (rule hu [OF h3 [OF s1(1)] h3 [OF that]]) (rule ok)
  have h5: "holds ?s5 b" if "holds s1 b" for b by (rule hu [OF h4 [OF b1(1) [OF assms(2)]] h4 [OF that]]) (rule ok)
  have grown: "grown i a cur next s = ?s5\<lparr>m_pCurBuf := a\<rparr>" by (simp add: grown_def Let_def s1_def)
  have segs: "i \<noteq> seg s cur" "i \<noteq> seg s next" "seg s cur \<noteq> i" "seg s next \<noteq> i"
    using b1(4) assms(1,2) by metis+
  note c1 = b1(1,2,3) [OF assms(1)] and n1 = b1(1,2,3) [OF assms(2)]
  have ids: "m_iShmId (cellat s cur) = seg s cur" "m_iShmId (cellat s next) = seg s next"
    using assms(1,2) by (simp_all add: holds_def cell_ok_def)
  have "grow (Some i) a cur next s = bind_res (link_cells cur a s1) (\<lambda>s2.
          bind_res (cell_at_addr s2 next) (\<lambda>n.
          bind_res (on_cell a (\<lambda>c. c\<lparr>m_pNext := Some next, m_iNextShmId := m_iShmId n\<rparr>) s2) (\<lambda>s3.
          bind_res (cell_at_addr s3 a) (\<lambda>c.
          bind_res (on_cell next (\<lambda>n. n\<lparr>m_pPre := Some a, m_iPreShmId := m_iShmId c\<rparr>) s3) (\<lambda>s4.
            Inr (s4\<lparr>m_pCurBuf := a\<rparr>))))))"
    unfolding grow_def create_fresh [OF assms(7)] by (simp add: s1_def)
  also have "\<dots> = Inr (grown i a cur next s)"
    unfolding grown
    by (simp add: link_cells_def s1 c1 n1 h2 h3 h4 upd_self upd_other segs ids assms(4) [symmetric] assms(4) CBufferCell_new_def)
  finally show "grow (Some i) a cur next s = Inr (grown i a cur next s)" .
  show "holds (grown i a cur next s) b \<and> seg (grown i a cur next s) b = seg s b" if "holds s b" for b
    unfolding grown using h5 [OF b1(1) [OF that]] b1(2) [OF that] by simp
  show "holds (grown i a cur next s) a" "seg (grown i a cur next s) a = i"
    unfolding grown using h5 [OF s1(1)] s1(2) by simp_all
  show "cellat (grown i a cur next s) a = (CBufferCell_new i (m_uOneBuffLen s))
       \<lparr>m_pPre := Some cur, m_iPreShmId := seg s cur, m_pNext := Some next, m_iNextShmId := seg s next\<rparr>"
    unfolding grown using segs s1 c1 n1 assms(4) by (simp add: upd_self upd_other)
  show "cellat (grown i a cur next s) cur = (cellat s cur)\<lparr>m_pNext := Some a, m_iNextShmId := i\<rparr>"
    "cellat (grown i a cur next s) next = (cellat s next)\<lparr>m_pPre := Some a, m_iPreShmId := i\<rparr>"
    unfolding grown using segs s1 c1 n1 assms(4) by (simp_all add: upd_self upd_other)
  show "cellat (grown i a cur next s) b = cellat s b" if "holds s b" "seg s b \<noteq> seg s cur" "seg s b \<noteq> seg s next" for b
    unfolding grown using that segs s1 c1 n1 b1 [OF that(1)] by (simp add: upd_other)
qed

end
