(* ===== verification/Log_Ops.thy ===== *)
theory Log_Ops
  imports Log_Inv
begin

text \<open>
  The operations of the log ring keep its invariant: \<open>TryAppendLog\<close> and the two critical sections of
  \<open>PersistLog\<close>, with what each does to the text in the ring.
\<close>

lemma unat_small: "n < 2 ^ 32 \<Longrightarrow> unat (word_of_nat n :: 32 word) = n"
  by (simp add: unat_of_nat)

text \<open>The memory check does not wrap around.\<close>

lemma ring_limit_iff:
  assumes "sizes_ok s"
  shows "ring_limit s \<longleftrightarrow> 3 * 2 ^ 30 < m_uOneBuffLen s * (m_iBuffCnt s + 1)"
proof -
  have "m_uOneBuffLen s * (m_iBuffCnt s + 1) < 2 ^ 32"
    using assms by (simp add: sizes_ok_def)
  then have u: "unat (word_of_nat (m_uOneBuffLen s * (m_iBuffCnt s + 1)) :: 32 word) = m_uOneBuffLen s * (m_iBuffCnt s + 1)"
    by (rule unat_small)
  have "(word_of_nat (m_uOneBuffLen s) :: 32 word) * word_of_nat (m_iBuffCnt s + 1) =
      word_of_nat (m_uOneBuffLen s * (m_iBuffCnt s + 1))" by (simp only: of_nat_mult)
  moreover have "unat LOGFILEMEMLIMIT = 3 * 2 ^ 30" by (simp add: LOGFILEMEMLIMIT_def)
  ultimately show ?thesis
    unfolding ring_limit_def word_less_nat_alt by (metis u)
qed

lemma grown_fields:
  "m_pCurBuf (grown i a cur next s) = a" "m_pPrstBuf (grown i a cur next s) = m_pPrstBuf s"
  "m_uOneBuffLen (grown i a cur next s) = m_uOneBuffLen s" "m_iBuffCnt (grown i a cur next s) = m_iBuffCnt s + 1"
  "m_uLastLogFailTime (grown i a cur next s) = m_uLastLogFailTime s"
  "m_pPrstBCShmId (grown i a cur next s) = m_pPrstBCShmId s"
  "shm_keys (grown i a cur next s) = (shm_keys s)(SHMKEY + int (m_iBuffCnt s) \<mapsto> i)"
  by (simp_all add: grown_def Let_def)

lemma grow_ring:
  assumes base: "log_base s as" and "as = full @ [cur]" and "full \<noteq> []"
    and "\<not> ring_limit s" and "cells s i = None" and "attached s a = None"
  defines "s' \<equiv> grown i a cur (hd as) s"
  shows "grow (Some i) a cur (hd as) s = Inr s'" "log_base s' (as @ [a])" "m_pCurBuf s' = a" "is_free s' a"
    "\<And>b. b \<in> set as \<Longrightarrow> m_eStatus (cellat s' b) = m_eStatus (cellat s b) \<and>
       m_uCurLength (cellat s' b) = m_uCurLength (cellat s b) \<and> m_aData (cellat s' b) = m_aData (cellat s b)"
    "GetFreeLen (cellat s' a) = m_uOneBuffLen s'" "m_uLastLogFailTime s' = m_uLastLogFailTime s"
proof -
  have ring: "ring s as" using base by (simp add: log_base_def)
  have set: "cur \<in> set as" "hd as \<in> set as" "hd as = hd full" using assms(2,3) by auto
  have ne: "cur \<noteq> hd as" using ring_distinct [OF ring] assms(2,3) by (cases full) auto
  then have sne: "seg s cur \<noteq> seg s (hd as)" using ring_seg_eq [OF ring set(1,2)] by simp
  have key: "shm_keys s (SHMKEY + int (m_iBuffCnt s)) = None" using base unfolding log_base_def sizes_ok_def by blast
  note grow = grow_fresh [OF ring_holds [OF ring set(1)] ring_holds [OF ring set(2)] ne sne assms(5,6) key,
      folded s'_def]
  show "grow (Some i) a cur (hd as) s = Inr s'" by (rule grow(1))
  show cur: "m_pCurBuf s' = a" by (simp add: s'_def grown_fields)
  show "is_free s' a" using grow(5) by (simp add: is_free_def CBufferCell_new_def)
  show "GetFreeLen (cellat s' a) = m_uOneBuffLen s'"
    using grow(5) by (simp add: GetFreeLen_def CBufferCell_new_def s'_def grown_fields)
  show "m_uLastLogFailTime s' = m_uLastLogFailTime s" by (simp add: s'_def grown_fields)
  have cells: "cellat s' b = cellat s b" if "b \<in> set as" "b \<noteq> cur" "b \<noteq> hd as" for b
    using grow(8) [OF ring_holds [OF ring that(1)]] ring_seg_eq [OF ring that(1) set(1)]
      ring_seg_eq [OF ring that(1) set(2)] that by simp
  show "m_eStatus (cellat s' b) = m_eStatus (cellat s b) \<and>
       m_uCurLength (cellat s' b) = m_uCurLength (cellat s b) \<and> m_aData (cellat s' b) = m_aData (cellat s b)"
    if "b \<in> set as" for b
    using cells [OF that] grow(6,7) by (cases "b = cur"; cases "b = hd as") simp_all
  have segs: "seg s' b = seg s b" if "b \<in> set as" for b
    using grow(2) [OF ring_holds [OF ring that]] by simp
  have fresh: "seg s b \<noteq> i" if "b \<in> set as" for b
    using ring_holds [OF ring that] assms(5) by (auto simp: holds_def)
  have nexts: "m_pNext (cellat s' b) = m_pNext (cellat s b) \<and> m_iNextShmId (cellat s' b) = m_iNextShmId (cellat s b)"
    if "b \<in> set full" for b
  proof -
    have "b \<noteq> cur" using that ring_distinct [OF ring] assms(2) by auto
    then show ?thesis using cells [of b] that assms(2) grow(7) by (cases "b = hd as") auto
  qed
  have "linked s full cur" using ring assms(2) by (simp add: ring_def linked_append)
  then have "linked s' full cur"
    using nexts segs assms(2) linked_cong [of full s' s cur] by auto
  moreover have "links_to s' cur a" "links_to s' a (hd as)"
    using grow(4,5,6) segs set by (simp_all add: links_to_def CBufferCell_new_def)
  ultimately have "linked s' (as @ [a]) (hd (as @ [a]))"
    using assms(2,3) by (simp add: linked_append)
  moreover have "\<forall>b \<in> set (as @ [a]). holds s' b" using grow(2,3) ring_holds [OF ring] by auto
  moreover have "distinct (map (seg s') (as @ [a]))"
  proof -
    have eq: "map (seg s') as = map (seg s) as" using segs by simp
    have "i \<notin> set (map (seg s) as)" using fresh by auto
    moreover have "distinct (map (seg s) as)" using ring by (simp add: ring_def)
    ultimately show ?thesis unfolding map_append distinct_append eq using grow(4) by simp
  qed
  ultimately have "ring s' (as @ [a])" by (simp add: ring_def)
  moreover have "sizes_ok s'"
    using base ring_limit_iff [of s] assms(4) by (auto simp: log_base_def sizes_ok_def s'_def grown_fields)
  moreover have "as \<noteq> []" using assms(2) by simp
  ultimately show "log_base s' (as @ [a])"
    using base segs [OF set(2)] by (simp add: log_base_def s'_def grown_fields)
qed

section \<open>Adding a line\<close>

text \<open>Moving on from a current cell that is too full.\<close>

definition moved :: "64 word \<Rightarrow> CRingLog \<Rightarrow> CRingLog \<Rightarrow> addr list \<Rightarrow> addr list \<Rightarrow> bool" where
  "moved curSec s s' as as' \<longleftrightarrow> hd as' = hd as \<and> set as \<subseteq> set as' \<and> contents s' as' = contents s as \<and>
     (\<forall>a \<in> set as. is_full s a \<longrightarrow> is_full s' a \<and> cell_text s' a = cell_text s a) \<and> log_inv s' as' \<and>
     (m_uLastLogFailTime s' = m_uLastLogFailTime s \<and> is_free s' (m_pCurBuf s') \<and>
        GetFreeLen (cellat s' (m_pCurBuf s')) = m_uOneBuffLen s' \<or>
      m_uLastLogFailTime s' = curSec \<and> ring_limit s \<and> (\<forall>a \<in> set as'. is_full s' a))"

lemma set_status: "cell_ok l i (c\<lparr>m_eStatus := x\<rparr>) = cell_ok l i c" "same_links c (c\<lparr>m_eStatus := x\<rparr>)"
  by (simp_all add: cell_ok_def same_links_def)

lemma upd_status:
  fixes x :: BUFFER_STATUS
  assumes "log_base s as" and "a \<in> set as"
    and s': "s' = upd a (\<lambda>c. c\<lparr>m_eStatus := x\<rparr>) s"
  shows "log_base s' as" "\<And>b. b \<in> set as \<Longrightarrow> cell_text s' b = cell_text s b"
    "\<And>b. b \<in> set as \<Longrightarrow> b \<noteq> a \<Longrightarrow> cellat s' b = cellat s b"
    "cellat s' a = (cellat s a)\<lparr>m_eStatus := x\<rparr>" "contents s' as = contents s as"
proof -
  have ring: "ring s as" using assms(1) by (simp add: log_base_def)
  show "log_base s' as" unfolding s'
    using log_base_cell_ok [OF assms(1,2)] by (intro log_base_upd [OF assms(1,2)]) (simp_all add: set_status)
  show t: "cell_text s' b = cell_text s b" if "b \<in> set as" for b
    unfolding s' using cell_text_upd [OF ring assms(2) that] by (simp add: cell_text_def)
  show "cellat s' b = cellat s b" if "b \<in> set as" "b \<noteq> a" for b
    unfolding s' using ring_upd_cell [OF ring assms(2) that(1)] that(2) by simp
  show "cellat s' a = (cellat s a)\<lparr>m_eStatus := x\<rparr>" by (simp add: s' upd_self)
  show "contents s' as = contents s as" using t by (rule contents_cong)
qed

lemma next_cell_ok:
  assumes "log_base s as" and as: "as = full @ m_pCurBuf s # free" and "m_eStatus (cellat s (m_pCurBuf s)) = FREE"
    and fulls: "\<forall>a \<in> set full. is_full s a" and frees: "\<forall>a \<in> set free. is_free s a"
    and pos: "0 < m_uCurLength (cellat s (m_pCurBuf s))"
    and fresh: "cells s i = None" "attached s a = None"
  shows "\<exists>s' as'. next_cell curSec (Some i) a s = Inr s' \<and> moved curSec s s' as as'"
proof -
  let ?c = "m_pCurBuf s"
  define s1 where "s1 = upd ?c (\<lambda>c. c\<lparr>m_eStatus := FULL\<rparr>) s"
  have ring: "ring s as" using assms(1) by (simp add: log_base_def)
  have c: "?c \<in> set as" using as by simp
  note s1 = upd_status [OF assms(1) c s1_def]
  have ring1: "ring s1 as" using s1(1) by (simp add: log_base_def)
  have notin: "?c \<notin> set full" "?c \<notin> set free" using ring_distinct [OF ring] as by auto
  have fc: "is_full s1 ?c" using pos s1(4) by (simp add: is_full_def)
  have oth: "cellat s1 b = cellat s b" if "b \<in> set full \<or> b \<in> set free" for b
    using s1(3) [of b] that as notin by auto
  have full1: "\<forall>b \<in> set (full @ [?c]). is_full s1 b" using fc fulls oth by (simp add: is_full_def)
  have free1: "\<forall>b \<in> set free. is_free s1 b" using frees oth by (simp add: is_free_def)
  have keep: "is_full s1 b \<and> cell_text s1 b = cell_text s b" if "b \<in> set as" "is_full s b" for b
    using s1(2,3) [OF that(1)] that(2) fc by (cases "b = ?c") (simp_all add: is_full_def)
  have cur1: "m_pCurBuf s1 = ?c" "m_uOneBuffLen s1 = m_uOneBuffLen s" "m_uLastLogFailTime s1 = m_uLastLogFailTime s"
    by (simp_all add: s1_def)
  have "seg s ?c \<noteq> i" using fresh(1) ring_holds [OF ring c] by (auto simp: holds_def)
  then have fresh1: "cells s1 i = None" "attached s1 a = None" using fresh by (simp_all add: s1_def upd_def)
  have "next_cell curSec (Some i) a s = bind_res (deref_ptr (m_pNext (cellat s1 ?c))) (\<lambda>next.
      bind_res (cell_at_addr s1 next) (\<lambda>n.
        if m_eStatus n = FULL then
          if ring_limit s1 then Inr (s1\<lparr>m_pCurBuf := next, m_uLastLogFailTime := curSec\<rparr>)
          else grow (Some i) a ?c next s1
        else Inr (s1\<lparr>m_pCurBuf := next\<rparr>)))"
    using ring_holds [OF ring c] ring_holds [OF ring1 c] unfolding s1_def by (simp add: next_cell_def Let_def)
  then have nc: "next_cell curSec (Some i) a s =
        (let next = hd (free @ full @ [?c]) in
        if m_eStatus (cellat s1 next) = FULL then
          if ring_limit s1 then Inr (s1\<lparr>m_pCurBuf := next, m_uLastLogFailTime := curSec\<rparr>)
          else grow (Some i) a ?c next s1
        else Inr (s1\<lparr>m_pCurBuf := next\<rparr>))" (is "_ = ?r")
    using ring_next [OF ring1 [unfolded as]] ring_holds [OF ring1, of "hd (free @ full @ [?c])"] as
    by (cases free; cases full) (simp_all add: deref_ptr_def Let_def)
  show ?thesis
  proof (cases free)
    case (Cons f fs)
    then have f: "is_free s1 f" "f \<in> set as" using free1 as by auto
    let ?s = "s1\<lparr>m_pCurBuf := f\<rparr>"
    have "next_cell curSec (Some i) a s = Inr ?s" using nc Cons f by (simp add: is_free_def)
    moreover have "layout ?s as"
      unfolding layout_def
      by (rule exI [of _ "full @ [?c]"], rule exI [of _ fs])
        (use as Cons full1 free1 in \<open>simp add: is_free_def is_full_def\<close>)
    moreover have "GetFreeLen (cellat s1 f) = m_uOneBuffLen s1"
      using f log_base_cell_ok [OF s1(1) f(2)] by (simp add: is_free_def GetFreeLen_def cell_ok_def)
    ultimately show ?thesis
      using s1(1,5) keep f cur1(3) by (intro exI [of _ ?s] exI [of _ as]) (simp add: moved_def log_inv_base)
  next
    case Nil
    have len: "2 \<le> length as" using assms(1) by (simp add: log_base_def)
    then obtain f fs where full: "full = f # fs" using as Nil by (cases full) auto
    have hd: "hd (free @ full @ [?c]) = hd as" "hd as = f" using Nil as full by simp_all
    have hf: "m_eStatus (cellat s1 f) = FULL" using full1 full by (simp add: is_full_def)
    show ?thesis
    proof (cases "ring_limit s1")
      case True
      let ?s = "s1\<lparr>m_pCurBuf := f, m_uLastLogFailTime := curSec\<rparr>"
      have "next_cell curSec (Some i) a s = Inr ?s" using nc hd hf True by simp
      moreover have "ring_limit s" "\<forall>b \<in> set as. is_full s1 b" using True as Nil full1 by (simp_all add: s1_def)
      moreover have "layout ?s as"
        unfolding layout_def
        by (rule exI [of _ "[]"], rule exI [of _ "fs @ [?c]"]) (use as Nil full full1 True in simp)
      ultimately show ?thesis
        using s1(1,5) keep by (intro exI [of _ ?s] exI [of _ as]) (simp add: moved_def log_inv_base)
    next
      case False
      have as1: "as = full @ [?c]" "full \<noteq> []" using as Nil full by simp_all
      note g = grow_ring [OF s1(1) as1 False fresh1]
      let ?s = "grown i a ?c (hd as) s1"
      have nc1: "next_cell curSec (Some i) a s = Inr ?s" using nc g(1) hd hf False by simp
      have same: "is_full ?s b = is_full s1 b" "cell_text ?s b = cell_text s1 b" if "b \<in> set as" for b
        using g(5) [OF that] by (simp_all add: is_full_def cell_text_def)
      have cnt: "contents ?s (as @ [a]) = contents s1 as"
        using g(4) same contents_cong [of as ?s s1] by (simp add: is_free_def cell_text_def)
      have lay: "layout ?s (as @ [a])"
        unfolding layout_def
        by (rule exI [of _ as], rule exI [of _ "[]"]) (use g(3,4) same full1 as1 in \<open>simp add: is_free_def\<close>)
      have free': "is_free ?s (m_pCurBuf ?s)" "GetFreeLen (cellat ?s (m_pCurBuf ?s)) = m_uOneBuffLen ?s"
        using g(3,4,6) by simp_all
      have "moved curSec s ?s as (as @ [a])"
        unfolding moved_def log_inv_base
        using nc1 g(2,7) lay cnt s1(5) keep same free' cur1(3) as1 by (auto simp: hd_append)
      then show ?thesis using nc1 by blast
    qed
  qed
qed

lemma log_line_short:
  assumes "length pre + length post < ONELOGLEN"
  shows "\<exists>u. log_line pre post = Inr ((pre @ post) @ u) \<and> log_len pre post = length (pre @ post)"
  using assms by (simp add: log_line_def log_len_def ONELOGLEN_def Let_def)

text \<open>
  A line shorter than \<open>ONELOGLEN\<close> is added at the end, or dropped, and it is dropped exactly when the
  failure time is set afterwards. The full cells are left alone.
\<close>

lemma TryAppendLog_ok:
  assumes inv: "log_inv s as" and len: "length pre + length post < ONELOGLEN" and sec: "curSec \<noteq> 0"
    and fresh: "cells s i = None" "attached s a = None"
  shows "\<exists>b s' as'. TryAppendLog curSec pre post (Some i) a s = Inr (b, s') \<and> log_inv s' as' \<and> hd as' = hd as \<and>
    (\<forall>a \<in> set as. is_full s a \<longrightarrow> is_full s' a \<and> cell_text s' a = cell_text s a) \<and>
    contents s' as' = contents s as @ (if m_uLastLogFailTime s' = 0 then pre @ post else []) \<and>
    (m_uLastLogFailTime s' \<noteq> 0 \<longrightarrow>
      m_uLastLogFailTime s \<noteq> 0 \<and> curSec - m_uLastLogFailTime s < RELOGTHRESOLD \<or>
      ring_limit s \<and> (\<forall>a \<in> set as'. is_full s' a))"
proof (cases "m_uLastLogFailTime s \<noteq> 0 \<and> curSec - m_uLastLogFailTime s < RELOGTHRESOLD")
  case True
  then show ?thesis using inv by (intro exI [of _ False] exI [of _ s] exI [of _ as]) (simp add: TryAppendLog_def)
next
  case False
  let ?c = "m_pCurBuf s"
  define t where "t = pre @ post"
  define s0 where "s0 = s\<lparr>m_uLastLogFailTime := 0\<rparr>"
  obtain u where line: "log_line pre post = Inr (t @ u)" "log_len pre post = length t"
    using log_line_short [OF len] by (auto simp: t_def)
  have tlen: "length t < ONELOGLEN" using len by (simp add: t_def)
  have lay: "layout s0 as" and base: "log_base s0 as"
    using inv by (simp_all add: s0_def log_inv_base layout_def)
  have s0: "m_pCurBuf s0 = ?c" "m_uLastLogFailTime s0 = 0" "contents s0 as = contents s as"
    "is_full s0 = is_full s" "cell_text s0 = cell_text s" "cells s0 i = None" "attached s0 a = None"
    "ring_limit s0 = ring_limit s"
    using fresh by (simp_all add: s0_def)
  have size: "ONELOGLEN \<le> m_uOneBuffLen s0" using base by (simp add: log_base_def sizes_ok_def)
  have ring: "ring s0 as" using base by (simp add: log_base_def)
  have c: "?c \<in> set as" using lay s0 by (auto simp: layout_def)
  have run: "TryAppendLog curSec pre post (Some i) a s =
      (if m_eStatus (cellat s0 ?c) = FREE \<and> length t \<le> GetFreeLen (cellat s0 ?c) then
            bind_res (append_to ?c (t @ u) (length t) s0) (\<lambda>s1. Inr (False, s1))
          else if m_eStatus (cellat s0 ?c) = FREE then
            bind_res (next_cell curSec (Some i) a s0) (\<lambda>s1.
              if m_uLastLogFailTime s1 = 0 then
                bind_res (append_to (m_pCurBuf s1) (t @ u) (length t) s1) (\<lambda>s2. Inr (True, s2))
              else Inr (True, s1))
          else Inr (False, s0\<lparr>m_uLastLogFailTime := curSec\<rparr>))"
    using ring_holds [OF ring c] unfolding TryAppendLog_def if_not_P [OF False] s0_def
    by (simp add: Let_def line)
  have "\<exists>b s' as'. TryAppendLog curSec pre post (Some i) a s = Inr (b, s') \<and> log_inv s' as' \<and> hd as' = hd as \<and>
    (\<forall>a \<in> set as. is_full s a \<longrightarrow> is_full s' a \<and> cell_text s' a = cell_text s a) \<and>
    contents s' as' = contents s as @ (if m_uLastLogFailTime s' = 0 then t else []) \<and>
    (m_uLastLogFailTime s' \<noteq> 0 \<longrightarrow>
      m_uLastLogFailTime s \<noteq> 0 \<and> curSec - m_uLastLogFailTime s < RELOGTHRESOLD \<or>
      ring_limit s \<and> (\<forall>a \<in> set as'. is_full s' a))"
    using lay
  proof (cases rule: layoutE)
    case (all_full free)
    then have "m_eStatus (cellat s0 ?c) = FULL" using c unfolding is_full_def by blast
    moreover have "log_inv (s0\<lparr>m_uLastLogFailTime := curSec\<rparr>) as"
      using base lay by (simp add: log_inv_base layout_def)
    ultimately show ?thesis
      using run sec s0 all_full(2,3) by (intro exI [of _ False] exI [of _ "s0\<lparr>m_uLastLogFailTime := curSec\<rparr>"] exI [of _ as]) simp
  next
    case (current full free)
    note cur = current [unfolded s0(1)]
    show ?thesis
    proof (cases "length t \<le> GetFreeLen (cellat s0 ?c)")
      case True
      note app = open_append [OF base current True [folded s0(1)], unfolded s0(1)]
      let ?s = "upd ?c (filled t) s0"
      show ?thesis
        using run app s0 cur(2) True
        by (intro exI [of _ False] exI [of _ ?s] exI [of _ as]) simp
    next
      case nofit: False
      have "0 < m_uCurLength (cellat s0 ?c)"
        using nofit size tlen log_base_cell_ok [OF base c] by (auto simp: GetFreeLen_def cell_ok_def)
      with next_cell_ok [OF base current, unfolded s0(1)] s0(6,7)
      obtain s1 as1 where nc: "next_cell curSec (Some i) a s0 = Inr s1" and mv: "moved curSec s0 s1 as as1" by blast
      show ?thesis
      proof (cases "m_uLastLogFailTime s1 = 0")
        case False
        then show ?thesis using run nofit cur(2) nc mv s0 unfolding moved_def
          by (intro exI [of _ True] exI [of _ s1] exI [of _ as1]) auto
      next
        case True
        then have fr: "is_free s1 (m_pCurBuf s1)" "GetFreeLen (cellat s1 (m_pCurBuf s1)) = m_uOneBuffLen s1"
          and inv1: "log_base s1 as1" "layout s1 as1"
          using mv sec by (auto simp: moved_def log_inv_base)
        have fit: "length t \<le> GetFreeLen (cellat s1 (m_pCurBuf s1))"
          using fr(2) inv1(1) tlen by (simp add: log_base_def sizes_ok_def)
        from inv1(2) obtain full1 free1 where cur1: "as1 = full1 @ m_pCurBuf s1 # free1"
          "m_eStatus (cellat s1 (m_pCurBuf s1)) = FREE" "\<forall>a \<in> set full1. is_full s1 a" "\<forall>a \<in> set free1. is_free s1 a"
          using fr(1) by (auto elim!: layoutE simp: is_full_def is_free_def)
        note app = open_append [OF inv1(1) cur1 fit]
        let ?s = "upd (m_pCurBuf s1) (filled t) s1"
        show ?thesis
          using run nofit cur(2) nc mv s0 True app unfolding moved_def
          by (intro exI [of _ True] exI [of _ ?s] exI [of _ as1]) auto
      qed
    qed
  qed
  then show ?thesis unfolding t_def .
qed

section \<open>Writing the log\<close>

lemma log_base_hd: "log_base s as \<Longrightarrow> hd as \<in> set as"
  by (cases as) (simp_all add: log_base_def)

lemma persist_begin_ok:
  assumes inv: "log_inv s as"
  shows "\<exists>s'. persist_begin s = Inr (contents s as \<noteq> [], s') \<and> log_inv s' as \<and> contents s' as = contents s as \<and>
    m_uLastLogFailTime s' = m_uLastLogFailTime s \<and> (contents s as \<noteq> [] \<longrightarrow> is_full s' (hd as))"
proof -
  let ?p = "hd as"
  have base: "log_base s as" and lay: "layout s as" using inv by (simp_all add: log_inv_base)
  have ring: "ring s as" and p: "m_pPrstBuf s = ?p" "?p \<in> set as" and len: "2 \<le> length as"
    using base log_base_hd [OF base] by (simp_all add: log_base_def)
  note hp = ring_holds [OF ring p(2)]
  have nonempty: "cell_text s b \<noteq> [] \<longleftrightarrow> 0 < m_uCurLength (cellat s b)" if "b \<in> set as" for b
    using log_base_cell_ok [OF base that] by (auto simp: cell_text_def cell_ok_def)
  have full: ?thesis if "is_full s ?p"
  proof -
    have "contents s as \<noteq> []" using that nonempty [OF p(2)] len by (cases as) (auto simp: is_full_def)
    then show ?thesis using that hp p inv
      by (intro exI [of _ s]) (simp add: persist_begin_def IsEmpty_def is_full_def)
  qed
  from lay show ?thesis
  proof (cases rule: layoutE)
    case (all_full free)
    then have "is_full s ?p" using p(2) by blast
    then show ?thesis by (rule full)
  next
    case (current fu free)
    show ?thesis
    proof (cases fu)
      case (Cons f fs)
      then have "is_full s ?p" using current by simp
      then show ?thesis by (rule full)
    next
      case Nil
      then have c: "m_pCurBuf s = ?p" "as = ?p # free" "contents s as = cell_text s ?p"
        using current contents_free [of free s] by auto
      show ?thesis
      proof (cases "m_uCurLength (cellat s ?p) = 0")
        case True
        then show ?thesis using c(3) nonempty [OF p(2)] hp p inv
          by (intro exI [of _ s]) (simp add: persist_begin_def IsEmpty_def)
      next
        case pos: False
        define s1 where "s1 = upd ?p (\<lambda>c. c\<lparr>m_eStatus := FULL\<rparr>) s"
        note s1 = upd_status [OF base p(2) s1_def]
        have "length as = Suc (length free)" using c(2) by (metis length_Cons)
        then obtain f fs where free: "free = f # fs" using len by (cases free) auto
        have ring1: "ring s1 as" using s1(1) by (simp add: log_base_def)
        have "m_pNext (cellat s1 ?p) = Some f"
          using ring_next [of s1 "[]" ?p free] ring1 c(2) free by simp
        then have run: "persist_begin s = Inr (True, s1\<lparr>m_pCurBuf := f\<rparr>)"
          using pos hp p c(1) current(2) ring_holds [OF ring1 p(2)]
          unfolding persist_begin_def s1_def by (simp add: IsEmpty_def deref_ptr_def)
        have oth: "cellat s1 b = cellat s b" if "b \<in> set free" for b
          using s1(3) [of b] that c(2) ring_distinct [OF ring] by (metis distinct.simps(2) list.set_intros(2))
        have "is_full s1 ?p" using pos s1(4) by (simp add: is_full_def)
        moreover have "\<forall>b \<in> set free. is_free s1 b" using current(4) oth by (simp add: is_free_def)
        ultimately have "layout (s1\<lparr>m_pCurBuf := f\<rparr>) as"
          unfolding layout_def using c(2) free
          by (intro exI [of _ "[?p]"] exI [of _ fs]) (simp add: is_free_def)
        moreover have "is_full s1 ?p" by fact
        moreover have "contents s as \<noteq> []" using pos c(3) nonempty [OF p(2)] by simp
        moreover have "m_uLastLogFailTime s1 = m_uLastLogFailTime s" by (simp add: s1_def)
        ultimately show ?thesis using run s1(1,5)
          by (intro exI [of _ "s1\<lparr>m_pCurBuf := f\<rparr>"]) (simp add: log_inv_base)
      qed
    qed
  qed
qed

lemma persist_write_ok:
  assumes "log_inv s as" and "m_uOneBuffLen s \<le> n"
  shows "persist_write n s fp = Inr (fp @ cell_text s (hd as))"
proof -
  have base: "log_base s as" and p: "m_pPrstBuf s = hd as" "hd as \<in> set as" "ring s as"
    using assms(1) log_base_hd [of s as] by (simp_all add: log_inv_base log_base_def)
  then show ?thesis
    using ring_holds [OF p(3,2)] log_base_cell_ok [OF base p(2)] assms(2)
    by (simp add: persist_write_def Persist_def cell_text_def cell_ok_def min_absorb2)
qed

lemma cleared:
  assumes "cell_ok l i c"
  shows "cell_ok l i (ClearBuffer c)" "same_links c (ClearBuffer c)" "m_uCurLength (ClearBuffer c) = 0"
    "m_eStatus (ClearBuffer c) = FREE"
  using assms by (simp_all add: ClearBuffer_def cell_ok_def same_links_def)

text \<open>The written cell becomes the last of the free ones.\<close>

lemma persist_end_ok:
  assumes inv: "log_inv s as" and full: "is_full s (hd as)"
  shows "\<exists>s'. persist_end s = Inr s' \<and> log_inv s' (tl as @ [hd as]) \<and>
    cell_text s (hd as) @ contents s' (tl as @ [hd as]) = contents s as \<and>
    m_uLastLogFailTime s' = m_uLastLogFailTime s"
proof -
  have base: "log_base s as" and lay: "layout s as" using inv by (simp_all add: log_inv_base)
  then obtain p q bs where as: "as = p # q # bs"
    by (cases as; cases "tl as") (auto simp: log_base_def)
  have ring: "ring s as" and p: "m_pPrstBuf s = p" "p \<in> set as" and sz: "sizes_ok s" and cnt: "m_iBuffCnt s = length as + 1"
    using base as by (auto simp: log_base_def)
  define s1 where "s1 = upd p ClearBuffer s"
  note cl = cleared [OF log_base_cell_ok [OF base p(2)]]
  have base1: "log_base s1 as" unfolding s1_def using base p(2) cl(2,1) by (rule log_base_upd)
  then have ring1: "ring s1 as" by (simp add: log_base_def)
  have q: "q \<in> set as" using as by simp
  have dist: "p \<notin> set (q # bs)" using ring_distinct [OF ring] as by simp
  have cells: "cellat s1 p = ClearBuffer (cellat s p)" "\<And>b. b \<in> set (q # bs) \<Longrightarrow> cellat s1 b = cellat s b"
    using ring_upd_cell [OF ring p(2)] p(2) dist as by (auto simp: s1_def)
  let ?s = "s1\<lparr>m_pPrstBuf := q, m_pPrstBCShmId := seg s1 q\<rparr>"
  have id: "m_iShmId (cellat s1 q) = seg s1 q"
    using log_base_cell_ok [OF base1 q] by (simp add: cell_ok_def)
  have nx: "m_pNext (cellat s1 p) = Some q" using ring_next [of s1 "[]" p "q # bs"] ring1 as by simp
  have run: "persist_end s = Inr ?s"
    using p(1) ring_holds [OF ring p(2)] ring_holds [OF ring1 p(2)] ring_holds [OF ring1 q] id nx
    unfolding s1_def by (simp add: persist_end_def deref_ptr_def)
  have ring2: "ring ?s (q # bs @ [p])" using ring_rotate [of s1 p "q # bs"] ring1 as by simp
  have "sizes_ok ?s = sizes_ok s1" by (simp add: sizes_ok_def)
  then have sizes: "sizes_ok ?s" using base1 by (simp add: log_base_def)
  have base2: "log_base ?s (q # bs @ [p])"
    using ring2 base1 sizes as unfolding log_base_def by simp
  have pf: "is_free ?s p" using cells(1) cl(3,4) by (simp add: is_free_def)
  have cur: "m_pCurBuf s1 = m_pCurBuf s" by (simp add: s1_def)
  have "layout ?s (q # bs @ [p])"
    using lay
  proof (cases rule: layoutE)
    case (all_full free)
    then have "m_pCurBuf s = p" "\<forall>b \<in> set (q # bs). is_full s1 b" using as cells(2) by (auto simp: is_full_def)
    then show ?thesis unfolding layout_def using pf cur
      by (intro exI [of _ "q # bs"] exI [of _ "[]"]) (simp add: is_free_def)
  next
    case (current fu free)
    then obtain f fs where fu: "fu = p # fs" using full as by (cases fu) (auto simp: is_full_def)
    then have split: "q # bs = fs @ m_pCurBuf s # free" using as current(1) by simp
    then have c: "cellat s1 b = cellat s b" if "b \<in> set fs \<or> b = m_pCurBuf s \<or> b \<in> set free" for b
      using cells(2) [of b] that by auto
    have "q # bs @ [p] = fs @ m_pCurBuf s # (free @ [p])" using split by (simp flip: append_Cons)
    then show ?thesis unfolding layout_def using pf cur current(2-4) fu c
      by (intro exI [of _ fs] exI [of _ "free @ [p]"]) (simp add: is_free_def is_full_def)
  qed
  with base2 have "log_inv ?s (tl as @ [hd as])" by (simp add: log_inv_base as)
  moreover have "cell_text s1 b = cell_text s b" if "b \<in> set (q # bs)" for b
    using cells(2) [OF that] by (simp add: cell_text_def)
  then have "contents s1 (q # bs) = contents s (q # bs)" by (rule contents_cong)
  moreover have "cell_text s1 p = []" using cells(1) cl(3) by (simp add: cell_text_def)
  moreover have "m_uLastLogFailTime s1 = m_uLastLogFailTime s" by (simp add: s1_def)
  ultimately show ?thesis using run as by (intro exI [of _ ?s]) simp
qed

end
