(* ===== verification/Log_Fifo.thy ===== *)
theory Log_Fifo
  imports Log_Ops
begin

text \<open>
  The logger as a state machine, producers and the writer thread in any interleaving, from the
  constructor on; what it promises: no fault, order, completeness, the memory bound.
\<close>

section \<open>The start\<close>

text \<open>No segment has a key of the log, and the kernel's ids and addresses are new.\<close>

definition clean_start ::
  "(int \<rightharpoonup> shmid) \<Rightarrow> (shmid \<rightharpoonup> CBufferCell) \<Rightarrow> nat \<Rightarrow> shmid \<times> shmid \<Rightarrow> addr \<times> addr \<times> addr \<Rightarrow> bool" where
  "clean_start keys segs len ids addrs \<longleftrightarrow>
     (case ids of (i, j) \<Rightarrow> case addrs of (a, b, c) \<Rightarrow>
        (\<forall>k. keys (SHMKEY + int k) = None) \<and> i \<noteq> j \<and> distinct [a, b, c] \<and>
        ONELOGLEN \<le> len \<and> len < 2 ^ 30)"

definition start_cell :: "shmid \<Rightarrow> nat \<Rightarrow> addr \<Rightarrow> shmid \<Rightarrow> addr \<Rightarrow> shmid \<Rightarrow> CBufferCell" where
  "start_cell i len next nexti pre prei = (CBufferCell_new i len)
     \<lparr>m_pPre := Some pre, m_iPreShmId := prei, m_pNext := Some next, m_iNextShmId := nexti\<rparr>"

definition start_ring ::
  "(int \<rightharpoonup> shmid) \<Rightarrow> (shmid \<rightharpoonup> CBufferCell) \<Rightarrow> nat \<Rightarrow> shmid \<times> shmid \<Rightarrow> addr \<times> addr \<times> addr \<Rightarrow> CRingLog" where
  "start_ring keys segs len ids addrs =
     (case ids of (i, j) \<Rightarrow> case addrs of (a, b, c) \<Rightarrow>
       \<lparr>shm_keys = keys(SHMKEY \<mapsto> i, SHMKEY + 1 \<mapsto> j),
        cells = segs(i \<mapsto> start_cell i len b j c j, j \<mapsto> start_cell j len a i b j),
        attached = [a \<mapsto> i, b \<mapsto> j, c \<mapsto> j], m_iBuffCnt = 3, m_pCurBuf = a, m_pPrstBuf = a,
        m_uOneBuffLen = len, m_uLastLogFailTime = 0, m_pPrstBCShmId = i\<rparr>)"

lemma CRingLog_new_start:
  assumes "clean_start keys segs len (i, j) (a, b, c)"
  shows "CRingLog_new keys segs len (Some i, a) ((Some j, b), (k, c)) =
    Inr (start_ring keys segs len (i, j) (a, b, c))"
proof -
  have ne: "a \<noteq> b" "a \<noteq> c" "b \<noteq> c" "b \<noteq> a" "c \<noteq> a" "c \<noteq> b" "i \<noteq> j" "j \<noteq> i"
    using assms by (auto simp: clean_start_def)
  have k0: "keys SHMKEY = None" and k1: "keys (SHMKEY + 1) = None"
    using assms by (auto simp: clean_start_def dest: spec [of _ 0] spec [of _ 1])
  let ?n = "CBufferCell_new"
  let ?s1 = "(ring_zero keys segs len)\<lparr>shm_keys := keys(SHMKEY \<mapsto> i), attached := [a \<mapsto> i],
      cells := segs(i \<mapsto> ?n i len)\<rparr>"
  have first: "CreateCellBuffer SHMKEY len (Some i) a (ring_zero keys segs len) = (Some a, ?s1)"
    by (simp add: CreateCellBuffer_def ring_zero_def k0 CBufferCell_new_def)
  have run: "CRingLog_new keys segs len (Some i, a) ((Some j, b), (k, c)) =
      bind_res (add_cells [(Some j, b), (k, c)] a ?s1) (\<lambda>(prev, s1).
        bind_res (close_ring prev a s1) (\<lambda>s2.
        bind_res (cell_at_addr s2 a) (\<lambda>h.
          Inr (s2\<lparr>m_pCurBuf := a, m_pPrstBuf := a, m_pPrstBCShmId := m_iShmId h\<rparr>))))"
    by (simp add: CRingLog_new_def first)
  show ?thesis
    unfolding run using ne k1
    by (simp add: CreateCellBuffer_def ring_zero_def link_cells_def close_ring_def
        cell_at_addr_def on_cell_def CBufferCell_new_def start_ring_def start_cell_def fun_upd_twist)
qed

lemma start_ring_inv:
  assumes "clean_start keys segs len (i, j) (a, b, c)"
  shows "log_inv (start_ring keys segs len (i, j) (a, b, c)) [a, b]"
    "contents (start_ring keys segs len (i, j) (a, b, c)) [a, b] = []"
proof -
  let ?s = "start_ring keys segs len (i, j) (a, b, c)"
  have ne: "b \<noteq> a" "c \<noteq> a" "c \<noteq> b" "j \<noteq> i" "a \<noteq> b" "i \<noteq> j" "a \<noteq> c" "b \<noteq> c"
    and len: "ONELOGLEN \<le> len" "len < 2 ^ 30" and keys: "\<And>k. keys (SHMKEY + int k) = None"
    using assms by (auto simp: clean_start_def)
  have fields: "m_pCurBuf ?s = a" "m_pPrstBuf ?s = a" "m_pPrstBCShmId ?s = i" "m_iBuffCnt ?s = 3"
    "m_uOneBuffLen ?s = len" "shm_keys ?s = keys(SHMKEY \<mapsto> i, SHMKEY + 1 \<mapsto> j)"
    by (simp_all add: start_ring_def)
  have segs: "seg ?s a = i" "seg ?s b = j"
    using ne by (simp_all add: seg_def start_ring_def)
  have cells: "cellat ?s a = start_cell i len b j c j" "cellat ?s b = start_cell j len a i b j"
    using ne by (simp_all add: cellat_def segs) (simp_all add: start_ring_def)
  have "holds ?s a" "holds ?s b"
    using ne by (simp_all add: holds_def cell_ok_def segs cells)
      (simp_all add: start_ring_def start_cell_def CBufferCell_new_def)
  then have "ring ?s [a, b]"
    using ne by (simp add: ring_def links_to_def segs cells) (simp add: start_cell_def)
  moreover have "layout ?s [a, b]"
    unfolding layout_def
    by (rule exI [of _ "[]"], rule exI [of _ "[b]"])
      (simp add: fields cells is_free_def start_cell_def CBufferCell_new_def)
  moreover have "sizes_ok ?s"
    using len keys by (auto simp: sizes_ok_def fields)
  ultimately show "log_inv ?s [a, b]" by (simp add: log_inv_def fields segs)
  show "contents ?s [a, b] = []" by (simp add: cell_text_def cells start_cell_def CBufferCell_new_def)
qed

section \<open>The logger as a state machine\<close>

text \<open>
  Where the thread of \<open>PersistLog\<close> is: about to lock and look at its cell, in the timed wait, before
  the choice of the file, before the write, before the second critical section.
\<close>

datatype writer = Looking | In_timed_wait | Choosing_file | Writing | Clearing

record logger =
  log_ring :: CRingLog
  log_writer :: writer
  log_out :: string

definition log_begin :: "logger \<Rightarrow> logger res" where
  "log_begin l = bind_res (persist_begin (log_ring l)) (\<lambda>(go, s).
     Inr (l\<lparr>log_ring := s, log_writer := (if go then Choosing_file else Looking)\<rparr>))"

definition log_look :: "logger \<Rightarrow> logger res" where
  "log_look l = bind_res (must_wait (log_ring l)) (\<lambda>wait.
     if wait then Inr (l\<lparr>log_writer := In_timed_wait\<rparr>) else log_begin l)"

definition log_write :: "nat \<Rightarrow> logger \<Rightarrow> logger res" where
  "log_write n l = bind_res (persist_write n (log_ring l) (log_out l)) (\<lambda>out.
     Inr (l\<lparr>log_out := out, log_writer := Clearing\<rparr>))"

definition log_clear :: "logger \<Rightarrow> logger res" where
  "log_clear l = bind_res (persist_end (log_ring l)) (\<lambda>s.
     Inr (l\<lparr>log_ring := s, log_writer := Looking\<rparr>))"

text \<open>
  One step, with the text it accepts. A producer runs between any two steps of the writer; the new
  segment and its address are the kernel's choice. \<open>log_out\<close> is everything written to log files, and
  \<open>fwrite\<close> writes what it is given.
\<close>

inductive log_step :: "logger \<Rightarrow> string \<Rightarrow> logger \<Rightarrow> bool" where
  append: "length pre + length post < ONELOGLEN \<Longrightarrow> curSec \<noteq> 0 \<Longrightarrow>
    cells (log_ring l) i = None \<Longrightarrow> attached (log_ring l) a = None \<Longrightarrow>
    TryAppendLog curSec pre post (Some i) a (log_ring l) = Inr (b, s) \<Longrightarrow>
    log_step l (if m_uLastLogFailTime s = 0 then pre @ post else []) (l\<lparr>log_ring := s\<rparr>)"
| look: "log_writer l = Looking \<Longrightarrow> log_look l = Inr l' \<Longrightarrow> log_step l [] l'"
| wake: "log_writer l = In_timed_wait \<Longrightarrow> log_begin l = Inr l' \<Longrightarrow> log_step l [] l'"
| file_open: "log_writer l = Choosing_file \<Longrightarrow> log_step l [] (l\<lparr>log_writer := Writing\<rparr>)"
| file_fails: "log_writer l = Choosing_file \<Longrightarrow> log_step l [] (l\<lparr>log_writer := Looking\<rparr>)"
| writes: "log_writer l = Writing \<Longrightarrow> m_uOneBuffLen (log_ring l) \<le> n \<Longrightarrow> log_write n l = Inr l' \<Longrightarrow>
    log_step l [] l'"
| clear: "log_writer l = Clearing \<Longrightarrow> log_clear l = Inr l' \<Longrightarrow> log_step l [] l'"

text \<open>What is in the ring and not yet in the file.\<close>

definition unwritten :: "logger \<Rightarrow> addr list \<Rightarrow> string" where
  "unwritten l as = contents (log_ring l) (if log_writer l = Clearing then tl as else as)"

definition logger_inv :: "string \<Rightarrow> logger \<Rightarrow> bool" where
  "logger_inv accepted l \<longleftrightarrow> (\<exists>as. log_inv (log_ring l) as \<and> accepted = log_out l @ unwritten l as \<and>
     (log_writer l \<in> {Choosing_file, Writing, Clearing} \<longrightarrow> is_full (log_ring l) (hd as)) \<and>
     (log_writer l = Clearing \<longrightarrow> (\<exists>out. log_out l = out @ cell_text (log_ring l) (hd as))))"

lemma log_begin_ok:
  assumes "log_inv (log_ring l) as" and "log_writer l \<noteq> Clearing" and "accepted = log_out l @ unwritten l as"
  shows "yields (log_begin l) (logger_inv accepted)"
proof -
  obtain s where "persist_begin (log_ring l) = Inr (contents (log_ring l) as \<noteq> [], s)" "log_inv s as"
    "contents s as = contents (log_ring l) as" "contents (log_ring l) as \<noteq> [] \<longrightarrow> is_full s (hd as)"
    using persist_begin_ok [OF assms(1)] by blast
  then show ?thesis using assms(2,3)
    by (auto simp: yields_def log_begin_def logger_inv_def unwritten_def)
qed

lemma logger_step_ok:
  assumes "logger_inv accepted l"
  shows
    "log_writer l = Looking \<Longrightarrow> yields (log_look l) (logger_inv accepted)"
    "log_writer l = In_timed_wait \<Longrightarrow> yields (log_begin l) (logger_inv accepted)"
    "log_writer l = Writing \<Longrightarrow> m_uOneBuffLen (log_ring l) \<le> n \<Longrightarrow> yields (log_write n l) (logger_inv accepted)"
    "log_writer l = Clearing \<Longrightarrow> yields (log_clear l) (logger_inv accepted)"
    "length pre + length post < ONELOGLEN \<Longrightarrow> curSec \<noteq> 0 \<Longrightarrow> cells (log_ring l) i = None \<Longrightarrow>
      attached (log_ring l) a = None \<Longrightarrow>
      yields (TryAppendLog curSec pre post (Some i) a (log_ring l)) (\<lambda>(b, s).
        logger_inv (accepted @ (if m_uLastLogFailTime s = 0 then pre @ post else [])) (l\<lparr>log_ring := s\<rparr>))"
proof -
  obtain as where as: "log_inv (log_ring l) as" "accepted = log_out l @ unwritten l as"
    "log_writer l \<in> {Choosing_file, Writing, Clearing} \<longrightarrow> is_full (log_ring l) (hd as)"
    "log_writer l = Clearing \<longrightarrow> (\<exists>out. log_out l = out @ cell_text (log_ring l) (hd as))"
    using assms by (auto simp: logger_inv_def)
  have base: "log_base (log_ring l) as" using as(1) by (simp add: log_inv_base)
  have split: "as = hd as # tl as" using log_base_hd [OF base] by (cases as) auto
  have cnt: "contents (log_ring l) as = cell_text (log_ring l) (hd as) @ contents (log_ring l) (tl as)"
    using split by (metis contents_simps(2))
  show "yields (log_begin l) (logger_inv accepted)" if "log_writer l = In_timed_wait"
    using log_begin_ok [OF as(1) _ as(2)] that by simp
  show "yields (log_look l) (logger_inv accepted)" if "log_writer l = Looking"
  proof -
    have "ring (log_ring l) as" "m_pPrstBuf (log_ring l) = hd as" using base by (simp_all add: log_base_def)
    then have "must_wait (log_ring l) = Inr (m_eStatus (cellat (log_ring l) (hd as)) = FREE)"
      using ring_holds log_base_hd [OF base] by (simp add: must_wait_def)
    then show ?thesis
      using log_begin_ok [OF as(1) _ as(2)] that as(1,2)
      by (auto simp: log_look_def yields_def logger_inv_def unwritten_def)
  qed
  show "yields (log_write n l) (logger_inv accepted)" if "log_writer l = Writing" "m_uOneBuffLen (log_ring l) \<le> n"
    using persist_write_ok [OF as(1) that(2)] that(1) as cnt
    by (auto simp: log_write_def yields_def logger_inv_def unwritten_def)
  show "yields (log_clear l) (logger_inv accepted)" if "log_writer l = Clearing"
  proof -
    have "is_full (log_ring l) (hd as)" using that as(3) by simp
    from persist_end_ok [OF as(1) this]
    obtain s where "persist_end (log_ring l) = Inr s" "log_inv s (tl as @ [hd as])"
      "cell_text (log_ring l) (hd as) @ contents s (tl as @ [hd as]) = contents (log_ring l) as" by blast
    then show ?thesis using as(2) that cnt
      by (auto simp: log_clear_def yields_def logger_inv_def unwritten_def)
  qed
  show "yields (TryAppendLog curSec pre post (Some i) a (log_ring l)) (\<lambda>(b, s).
        logger_inv (accepted @ (if m_uLastLogFailTime s = 0 then pre @ post else [])) (l\<lparr>log_ring := s\<rparr>))"
    if "length pre + length post < ONELOGLEN" "curSec \<noteq> 0" "cells (log_ring l) i = None" "attached (log_ring l) a = None"
  proof -
    from TryAppendLog_ok [OF as(1) that]
    obtain b s as' where run: "TryAppendLog curSec pre post (Some i) a (log_ring l) = Inr (b, s)" "log_inv s as'"
      "hd as' = hd as" "\<forall>a \<in> set as. is_full (log_ring l) a \<longrightarrow> is_full s a \<and> cell_text s a = cell_text (log_ring l) a"
      "contents s as' = contents (log_ring l) as @ (if m_uLastLogFailTime s = 0 then pre @ post else [])" by blast
    have hd: "is_full (log_ring l) (hd as) \<Longrightarrow> is_full s (hd as') \<and> cell_text s (hd as') = cell_text (log_ring l) (hd as)"
      using run(3,4) log_base_hd [OF base] by simp
    have "as' = hd as' # tl as'" using run(2) log_base_hd [of s as'] by (cases as') (auto simp: log_inv_base)
    then have "contents s as' = cell_text s (hd as') @ contents s (tl as')" by (metis contents_simps(2))
    then have "accepted @ (if m_uLastLogFailTime s = 0 then pre @ post else []) = log_out l @ unwritten (l\<lparr>log_ring := s\<rparr>) as'"
      using as(2,3) hd run(5) cnt by (auto simp: unwritten_def)
    moreover have "log_writer l \<in> {Choosing_file, Writing, Clearing} \<longrightarrow> is_full s (hd as')"
      "log_writer l = Clearing \<longrightarrow> (\<exists>out. log_out l = out @ cell_text s (hd as'))"
      using as(3,4) hd by auto
    ultimately show ?thesis using run(1,2)
      by (auto simp: yields_def logger_inv_def intro!: exI [of _ as'])
  qed
qed

lemma log_step_inv:
  assumes "logger_inv t l" and "log_step l u l'"
  shows "logger_inv (t @ u) l'"
proof -
  note ok = logger_step_ok [OF assms(1)]
  from assms(2) show ?thesis
  proof (cases rule: log_step.cases)
    case (append pre post curSec i a b s)
    then show ?thesis using ok(5) [OF append(3-6)] by (simp add: yields_def)
  next
    case look
    then show ?thesis using ok(1) by (simp add: yields_def)
  next
    case wake
    then show ?thesis using ok(2) by (simp add: yields_def)
  next
    case file_open
    then show ?thesis using assms(1) by (auto simp: logger_inv_def unwritten_def)
  next
    case file_fails
    then show ?thesis using assms(1) by (auto simp: logger_inv_def unwritten_def)
  next
    case (writes n)
    with ok(3) [OF writes(2,3)] show ?thesis by (simp add: yields_def)
  next
    case clear
    then show ?thesis using ok(4) by (simp add: yields_def)
  qed
qed

interpretation logger: accounted_steps log_step logger_inv
  by unfold_locales (rule log_step_inv)

text \<open>
  \<open>logged t l\<close>: the program started on a machine without segments of these keys, has accepted the
  text \<open>t\<close> so far, and is in the state \<open>l\<close>.
\<close>

definition logged :: "string \<Rightarrow> logger \<Rightarrow> bool" where
  "logged t l \<longleftrightarrow> (\<exists>keys segs len i j a b c k s. clean_start keys segs len (i, j) (a, b, c) \<and>
     CRingLog_new keys segs len (Some i, a) ((Some j, b), (k, c)) = Inr s \<and>
     trace log_step \<lparr>log_ring = s, log_writer = Looking, log_out = []\<rparr> t l)"

lemma loggedI:
  assumes "clean_start keys segs len (i, j) (a, b, c)"
    and "trace log_step \<lparr>log_ring = start_ring keys segs len (i, j) (a, b, c), log_writer = Looking, log_out = []\<rparr> t l"
  shows "logged t l"
  using assms CRingLog_new_start [OF assms(1)] unfolding logged_def by blast

lemma logged_inv:
  assumes "logged t l"
  shows "logger_inv t l"
proof -
  obtain keys segs len i j a b c k s where
    start: "clean_start keys segs len (i, j) (a, b, c)"
      "CRingLog_new keys segs len (Some i, a) ((Some j, b), (k, c)) = Inr s" and
    run: "trace log_step \<lparr>log_ring = s, log_writer = Looking, log_out = []\<rparr> t l"
    using assms by (auto simp: logged_def)
  have s: "s = start_ring keys segs len (i, j) (a, b, c)"
    using start(2) CRingLog_new_start [OF start(1)] by simp
  have "logger_inv [] \<lparr>log_ring = s, log_writer = Looking, log_out = []\<rparr>"
    using start_ring_inv [OF start(1)] s by (auto simp: logger_inv_def unwritten_def intro!: exI [of _ "[a, b]"])
  from logger.trace_from_start [OF run this] show ?thesis .
qed

lemma loggedE:
  assumes "logged t l"
  obtains as where "log_inv (log_ring l) as" "t = log_out l @ unwritten l as"
    "log_writer l = Clearing \<Longrightarrow> \<exists>out. log_out l = out @ cell_text (log_ring l) (hd as)"
  using logged_inv [OF assms] by (auto simp: logger_inv_def)

text \<open>A first state, and one line logged.\<close>

definition log_demo :: logger where
  "log_demo = \<lparr>log_ring = start_ring Map.empty Map.empty (2 * ONELOGLEN) (1, 2) (10, 20, 30),
     log_writer = Looking, log_out = []\<rparr>"

definition log_demo_line :: logger where
  "log_demo_line = log_demo\<lparr>log_ring := upd 10 (filled ''[INFO]hi'') (log_ring log_demo)\<rparr>"

lemma clean_demo: "clean_start Map.empty Map.empty (2 * ONELOGLEN) (1, 2) (10, 20, 30)"
  by (simp add: clean_start_def) (simp add: ONELOGLEN_def)

lemma logged_demo: "logged [] log_demo"
  unfolding log_demo_def by (rule loggedI [OF clean_demo trace.start])

lemma demo_append:
  "TryAppendLog 7 ''[INFO]'' ''hi'' (Some 3) 40 (log_ring log_demo) = Inr (False, log_ring log_demo_line)"
proof -
  let ?s = "start_ring Map.empty Map.empty (2 * ONELOGLEN) (1, 2) (10, 20, 30)" and ?t = "''[INFO]'' @ ''hi''"
  have cur: "m_pCurBuf ?s = 10" "m_uLastLogFailTime ?s = 0" by (simp_all add: start_ring_def)
  have s0: "?s\<lparr>m_uLastLogFailTime := 0\<rparr> = ?s" by (simp add: start_ring_def)
  have holds: "holds ?s 10"
    using start_ring_inv(1) [OF clean_demo] by (simp add: log_inv_def ring_def)
  have cell: "cellat ?s 10 = start_cell 1 (2 * ONELOGLEN) 20 2 30 2"
    by (simp add: cellat_def seg_def start_ring_def)
  then have free: "m_eStatus (cellat ?s 10) = FREE" and len: "length ?t \<le> GetFreeLen (cellat ?s 10)"
    by (simp_all add: start_cell_def CBufferCell_new_def GetFreeLen_def ONELOGLEN_def)
  obtain u where line: "log_line ''[INFO]'' ''hi'' = Inr (?t @ u)" "log_len ''[INFO]'' ''hi'' = length ?t"
    using log_line_short [of "''[INFO]''" "''hi''"] by (auto simp: ONELOGLEN_def)
  have "append_to 10 (?t @ u) (length ?t) ?s = Inr (upd 10 (filled ?t) ?s)"
    using holds len by (rule append_to_fits)
  then have "TryAppendLog 7 ''[INFO]'' ''hi'' (Some 3) 40 ?s = Inr (False, upd 10 (filled ?t) ?s)"
    using holds cur line free len unfolding TryAppendLog_def s0 Let_def by (simp only: bind_res_simps) simp
  then show ?thesis by (simp add: log_demo_def log_demo_line_def)
qed

lemma demo_fresh: "cells (log_ring log_demo) 3 = None" "attached (log_ring log_demo) 40 = None"
  by (simp_all add: log_demo_def start_ring_def)

lemma logged_demo_line: "logged ''[INFO]hi'' log_demo_line"
proof -
  have "m_uLastLogFailTime (log_ring log_demo_line) = 0"
    by (simp add: log_demo_line_def log_demo_def start_ring_def)
  then have "log_step log_demo ''[INFO]hi'' log_demo_line"
    using log_step.append [OF _ _ demo_fresh demo_append] by (simp add: ONELOGLEN_def) (simp add: log_demo_line_def)
  then have "trace log_step log_demo ''[INFO]hi'' log_demo_line" by (rule trace_step)
  then show ?thesis unfolding log_demo_def by (rule loggedI [OF clean_demo])
qed

section \<open>What the log promises\<close>





text \<open>
  C35: the memory bound. The ring never holds more than 3 GB of cells, counted as \<open>m_iBuffCnt\<close> does,
  and the check that refuses another one is exact: its 32-bit product does not wrap around.
\<close>

theorem log_memory_bound:
  assumes "logged t l"
  shows "m_uOneBuffLen (log_ring l) * m_iBuffCnt (log_ring l) \<le> 3 * 2 ^ 30 \<and>
    (ring_limit (log_ring l) \<longleftrightarrow> 3 * 2 ^ 30 < m_uOneBuffLen (log_ring l) * (m_iBuffCnt (log_ring l) + 1))"
proof -
  obtain as where "log_inv (log_ring l) as" using loggedE [OF assms] by blast
  then have "sizes_ok (log_ring l)" by (simp add: log_inv_def)
  then show ?thesis using ring_limit_iff by (simp add: sizes_ok_def)
qed

lemma log_memory_bound_witness:
  "m_uOneBuffLen (log_ring log_demo) * m_iBuffCnt (log_ring log_demo) \<le> 3 * 2 ^ 30 \<and> \<not> ring_limit (log_ring log_demo)"
proof -
  have "m_uOneBuffLen (log_ring log_demo) = 2 * ONELOGLEN" "m_iBuffCnt (log_ring log_demo) = 3"
    by (simp_all add: log_demo_def start_ring_def)
  with log_memory_bound [OF logged_demo] show ?thesis by (simp add: ONELOGLEN_def)
qed

text \<open>
  C33: the ring starts with two cells, not three. The loop of the constructor uses one key for all
  its cells, so the third cell is the second one attached again: \<open>m_iBuffCnt\<close> is 3, the addresses \<open>b\<close>
  and \<open>c\<close> share a segment whose \<open>m_pPre\<close> names itself, and following \<open>m_pNext\<close> from the head one
  returns after two steps.
\<close>

theorem ring_starts_with_two:
  assumes "clean_start keys segs len (i, j) (a, b, c)"
  shows "\<exists>s. CRingLog_new keys segs len (Some i, a) ((Some j, b), (k, c)) = Inr s \<and> m_iBuffCnt s = 3 \<and>
    attached s b = attached s c \<and> m_pPre (cellat s c) = Some b \<and>
    m_pNext (cellat s a) = Some b \<and> m_pNext (cellat s b) = Some a"
proof -
  have "a \<noteq> b" "a \<noteq> c" "b \<noteq> c" "i \<noteq> j" using assms by (auto simp: clean_start_def)
  then show ?thesis
    using CRingLog_new_start [OF assms]
    by (intro exI [of _ "start_ring keys segs len (i, j) (a, b, c)"])
      (simp add: cellat_def seg_def start_ring_def start_cell_def)
qed

lemma ring_starts_with_two_witness:
  "\<exists>s. CRingLog_new Map.empty Map.empty (2 * ONELOGLEN) (Some 1, 10) ((Some 2, 20), (None, 30)) = Inr s \<and>
    m_iBuffCnt s = 3 \<and> attached s 20 = attached s 30 \<and> m_pPre (cellat s 30) = Some 20 \<and>
    m_pNext (cellat s 10) = Some 20 \<and> m_pNext (cellat s 20) = Some 10"
  by (rule ring_starts_with_two [OF clean_demo])

text \<open>
  C34: an overlong line is read past its end. \<open>snprintf\<close> returns the length of the whole text, so when
  prefix and message together exceed the array of 4096 bytes, and the current cell has room for that
  many, \<open>Append\<close> copies from beyond the array.
\<close>

theorem long_line_overread:
  assumes "logged t l" and "m_uLastLogFailTime (log_ring l) = 0"
    and "m_eStatus (cellat (log_ring l) (m_pCurBuf (log_ring l))) = FREE"
    and "length pre \<le> ONELOGLEN" and "ONELOGLEN < length pre + length post"
    and "length pre + length post \<le> GetFreeLen (cellat (log_ring l) (m_pCurBuf (log_ring l)))"
  shows "TryAppendLog curSec pre post new a (log_ring l) = Inl OutOfBounds"
proof -
  let ?s = "log_ring l"
  obtain as where "log_inv ?s as" using loggedE [OF assms(1)] by blast
  then have base: "log_base ?s as" and lay: "layout ?s as" by (simp_all add: log_inv_base)
  then have c: "m_pCurBuf ?s \<in> set as" by (auto simp: layout_def)
  have holds: "holds ?s (m_pCurBuf ?s)" using base c by (auto simp: log_base_def ring_def)
  have "length pre + length post < 2 ^ 32"
    using assms(6) log_base_cell_ok [OF base c] base by (auto simp: GetFreeLen_def cell_ok_def log_base_def sizes_ok_def)
  then have len: "log_len pre post = length pre + length post" by (simp add: log_len_def)
  obtain line where line: "log_line pre post = Inr line" "length line = ONELOGLEN"
    using assms(4,5) by (auto simp: log_line_def Let_def ONELOGLEN_def)
  have s0: "?s\<lparr>m_uLastLogFailTime := 0\<rparr> = ?s" using assms(2) by simp
  have "CBufferCell_Append line (length pre + length post) (cellat ?s (m_pCurBuf ?s)) = Inl OutOfBounds"
    using assms(5,6) line(2) by (simp add: CBufferCell_Append_def)
  then have "append_to (m_pCurBuf ?s) line (length pre + length post) ?s = Inl OutOfBounds"
    using holds by (simp add: append_to_def)
  then show ?thesis using holds assms(2,3,6) by (simp add: TryAppendLog_def s0 line(1) len Let_def)
qed

lemma long_line_overread_witness:
  "TryAppendLog 7 ''[INFO]'' (replicate ONELOGLEN CHR ''x'') (Some 3) 40 (log_ring log_demo) = Inl OutOfBounds"
proof -
  have cell: "cellat (log_ring log_demo) 10 = start_cell 1 (2 * ONELOGLEN) 20 2 30 2"
    and st: "m_pCurBuf (log_ring log_demo) = 10" "m_uLastLogFailTime (log_ring log_demo) = 0"
    by (simp_all add: cellat_def seg_def log_demo_def start_ring_def)
  have free: "m_eStatus (cellat (log_ring log_demo) (m_pCurBuf (log_ring log_demo))) = FREE"
    "GetFreeLen (cellat (log_ring log_demo) (m_pCurBuf (log_ring log_demo))) = 2 * ONELOGLEN"
    unfolding st cell by (simp_all add: start_cell_def CBufferCell_new_def GetFreeLen_def)
  show ?thesis
    by (rule long_line_overread [OF logged_demo st(2) free(1)]) (simp_all add: free(2), simp_all add: ONELOGLEN_def)
qed

end
