(* ===== verification/Log_Full.thy ===== *)
theory Log_Full
  imports Log_Fifo
begin

text \<open>
  When the log loses a line. A line is lost only when the ring has reached its limit and is full, and
  this does happen: with the writer thread stopped, lines added one after the other fill the memory.
\<close>

section \<open>Filling the ring\<close>

text \<open>Every operation uses at most one new segment, so the kernel always has another one.\<close>

definition finite_memory :: "CRingLog \<Rightarrow> bool" where
  "finite_memory s \<longleftrightarrow> finite (dom (cells s)) \<and> finite (dom (attached s))"

lemma finite_memory_fields [simp]:
  "finite_memory (s\<lparr>m_pCurBuf := x\<rparr>) = finite_memory s" "finite_memory (s\<lparr>m_iBuffCnt := n\<rparr>) = finite_memory s"
  "finite_memory (s\<lparr>m_uLastLogFailTime := t\<rparr>) = finite_memory s"
  by (simp_all add: finite_memory_def)

lemma finite_on_cell: "on_cell a f s = Inr s' \<Longrightarrow> finite_memory s \<Longrightarrow> finite_memory s'"
  by (auto simp: on_cell_def finite_memory_def bind_res_Inr_iff)

lemma finite_link_cells: "link_cells p c s = Inr s' \<Longrightarrow> finite_memory s \<Longrightarrow> finite_memory s'"
  by (auto simp: link_cells_def bind_res_Inr_iff dest!: finite_on_cell)

lemma finite_create: "CreateCellBuffer key len new a s = (p, s') \<Longrightarrow> finite_memory s \<Longrightarrow> finite_memory s'"
  by (auto simp: CreateCellBuffer_def finite_memory_def Let_def split: option.splits if_splits)

lemma finite_grow:
  assumes "grow new a cur next s = Inr s'" and "finite_memory s"
  shows "finite_memory s'"
  using assms by (auto simp: grow_def bind_res_Inr_iff dest!: finite_create finite_link_cells finite_on_cell
      split: prod.splits option.splits)

lemma finite_append_to: "append_to a line len s = Inr s' \<Longrightarrow> finite_memory s \<Longrightarrow> finite_memory s'"
  by (auto simp: append_to_def bind_res_Inr_iff dest!: finite_on_cell)

lemma finite_next_cell: "next_cell sec new a s = Inr s' \<Longrightarrow> finite_memory s \<Longrightarrow> finite_memory s'"
  by (auto simp: next_cell_def Let_def bind_res_Inr_iff dest!: finite_on_cell finite_grow split: if_splits)

lemma finite_TryAppendLog:
  "TryAppendLog sec pre post new a s = Inr (b, s') \<Longrightarrow> finite_memory s \<Longrightarrow> finite_memory s'"
  by (auto simp: TryAppendLog_def Let_def bind_res_Inr_iff dest!: finite_append_to finite_next_cell split: if_splits)

text \<open>What the ring holds fits its memory.\<close>

lemma contents_bound:
  assumes "log_inv s as"
  shows "length (contents s as) \<le> 3 * 2 ^ 30"
proof -
  have base: "log_base s as" using assms by (simp add: log_inv_base)
  have "length (cell_text s a) \<le> m_uOneBuffLen s" if "a \<in> set as" for a
    using log_base_cell_ok [OF base that] by (simp add: cell_ok_def cell_text_def)
  then have "length (contents s as) \<le> m_uOneBuffLen s * length as"
    by (induction as) (auto simp: contents_def intro!: add_mono)
  also have "\<dots> \<le> m_uOneBuffLen s * m_iBuffCnt s" using assms by (simp add: log_inv_def)
  also have "\<dots> \<le> 3 * 2 ^ 30" using assms unfolding log_inv_def sizes_ok_def by blast
  finally show ?thesis .
qed

lemma logged_append:
  assumes "logged t l" and "length pre + length post < ONELOGLEN" and "sec \<noteq> 0"
    and "cells (log_ring l) i = None" and "attached (log_ring l) a = None"
    and "TryAppendLog sec pre post (Some i) a (log_ring l) = Inr (b, s)"
  shows "logged (t @ (if m_uLastLogFailTime s = 0 then pre @ post else [])) (l\<lparr>log_ring := s\<rparr>)"
proof -
  let ?u = "if m_uLastLogFailTime s = 0 then pre @ post else []"
  have "log_step l ?u (l\<lparr>log_ring := s\<rparr>)" by (rule log_step.append [OF assms(2-6)])
  then have "trace log_step l0 (t @ ?u) (l\<lparr>log_ring := s\<rparr>)" if "trace log_step l0 t l" for l0
    using trace.steps that by fast
  then show ?thesis using assms(1) unfolding logged_def by blast
qed

text \<open>A state in which a line of one char would be lost.\<close>

definition losing :: "logger \<Rightarrow> bool" where
  "losing l \<longleftrightarrow> (\<exists>i a b s. cells (log_ring l) i = None \<and> attached (log_ring l) a = None \<and>
     TryAppendLog 7 [] ''x'' (Some i) a (log_ring l) = Inr (b, s) \<and> m_uLastLogFailTime s \<noteq> 0)"

text \<open>With the writer stopped, either a line is lost or the text grows.\<close>

lemma lost_or_longer:
  "(\<exists>t l. logged t l \<and> m_uLastLogFailTime (log_ring l) = 0 \<and> losing l) \<or>
   (\<exists>t l. logged t l \<and> m_uLastLogFailTime (log_ring l) = 0 \<and> log_writer l = Looking \<and> log_out l = [] \<and>
     finite_memory (log_ring l) \<and> length t = n)"
proof (induction n)
  case 0
  have "finite_memory (log_ring log_demo)" "m_uLastLogFailTime (log_ring log_demo) = 0"
    "log_writer log_demo = Looking" "log_out log_demo = []"
    by (simp_all add: finite_memory_def log_demo_def start_ring_def)
  with logged_demo show ?case by fastforce
next
  case (Suc n)
  then show ?case
  proof
    assume "\<exists>t l. logged t l \<and> m_uLastLogFailTime (log_ring l) = 0 \<and> log_writer l = Looking \<and> log_out l = [] \<and>
     finite_memory (log_ring l) \<and> length t = n"
    then obtain t l where l: "logged t l" "m_uLastLogFailTime (log_ring l) = 0" "log_writer l = Looking"
      "log_out l = []" "finite_memory (log_ring l)" "length t = n" by blast
    obtain i where i: "cells (log_ring l) i = None"
      using l(5) ex_new_if_finite [of "dom (cells (log_ring l))"] by (auto simp: finite_memory_def infinite_UNIV_int)
    obtain a where a: "attached (log_ring l) a = None"
      using l(5) ex_new_if_finite [of "dom (attached (log_ring l))"] by (auto simp: finite_memory_def)
    have len: "length [] + length ''x'' < ONELOGLEN" and sec: "(7 :: 64 word) \<noteq> 0" by (simp_all add: ONELOGLEN_def)
    obtain b s where s: "TryAppendLog 7 [] ''x'' (Some i) a (log_ring l) = Inr (b, s)"
      using logger_step_ok(5) [OF logged_inv [OF l(1)] len sec i a] by (auto elim!: yieldsE)
    show ?thesis
    proof (cases "m_uLastLogFailTime s = 0")
      case True
      then have "logged (t @ ''x'') (l\<lparr>log_ring := s\<rparr>)" using logged_append [OF l(1) len sec i a s] by simp
      with l True finite_TryAppendLog [OF s l(5)] show ?thesis
        by (intro disjI2 exI [of _ "t @ ''x''"] exI [of _ "l\<lparr>log_ring := s\<rparr>"]) simp
    next
      case False
      with l(1,2) i a s show ?thesis unfolding losing_def by blast
    qed
  qed blast
qed

lemma demo_loss: "\<exists>t l. logged t l \<and> m_uLastLogFailTime (log_ring l) = 0 \<and> losing l"
proof -
  have "length t \<le> 3 * 2 ^ 30" if "logged t l" "log_writer l = Looking" "log_out l = []" for t l
    using loggedE [OF that(1)] contents_bound that(2,3) by (metis append_Nil unwritten_def writer.distinct(7))
  then have "\<not> (\<exists>t l. logged t l \<and> m_uLastLogFailTime (log_ring l) = 0 \<and> log_writer l = Looking \<and> log_out l = [] \<and>
     finite_memory (log_ring l) \<and> length t = 3 * 2 ^ 30 + 1)" by fastforce
  then show ?thesis using lost_or_longer [of "3 * 2 ^ 30 + 1"] by blast
qed

section \<open>Losing a line\<close>

text \<open>
  C13: when a line is lost. If a line shorter than the line buffer is not added, then the last loss was
  less than 5 seconds ago, or the memory limit is reached and every cell of the ring is waiting to be
  written: all cells from the writer's on are full.
\<close>

theorem line_lost_only_when_full:
  assumes "logged t l"
    and "length pre + length post < ONELOGLEN" and "curSec \<noteq> 0"
    and "cells (log_ring l) i = None" and "attached (log_ring l) a = None"
    and "TryAppendLog curSec pre post (Some i) a (log_ring l) = Inr (b, s)" and "m_uLastLogFailTime s \<noteq> 0"
  shows "m_uLastLogFailTime (log_ring l) \<noteq> 0 \<and> curSec - m_uLastLogFailTime (log_ring l) < RELOGTHRESOLD \<or>
    ring_limit (log_ring l) \<and>
      (\<exists>as. ring s as \<and> hd as = m_pPrstBuf s \<and> length as + 1 = m_iBuffCnt s \<and> (\<forall>x \<in> set as. is_full s x))"
proof -
  obtain as where "log_inv (log_ring l) as" using loggedE [OF assms(1)] by blast
  from TryAppendLog_ok [OF this assms(2-5)] assms(6,7)
  obtain as' where "log_inv s as'" "m_uLastLogFailTime (log_ring l) \<noteq> 0 \<and> curSec - m_uLastLogFailTime (log_ring l) < RELOGTHRESOLD \<or>
    ring_limit (log_ring l) \<and> (\<forall>x \<in> set as'. is_full s x)" by auto
  moreover from this(1) have "ring s as'" "hd as' = m_pPrstBuf s" "length as' + 1 = m_iBuffCnt s" by (simp_all add: log_inv_def)
  ultimately show ?thesis by blast
qed


lemma line_lost_only_when_full_witness:
  "\<exists>t l i a b s. logged t l \<and> m_uLastLogFailTime (log_ring l) = 0 \<and>
    TryAppendLog 7 [] ''x'' (Some i) a (log_ring l) = Inr (b, s) \<and> m_uLastLogFailTime s \<noteq> 0 \<and>
    ring_limit (log_ring l) \<and>
    (\<exists>as. ring s as \<and> length as + 1 = m_iBuffCnt s \<and> filter (is_full s) as = as)"
proof -
  obtain t l i a b s where l: "logged t l" "m_uLastLogFailTime (log_ring l) = 0"
    and i: "cells (log_ring l) i = None" "attached (log_ring l) a = None"
    and s: "TryAppendLog 7 [] ''x'' (Some i) a (log_ring l) = Inr (b, s)" "m_uLastLogFailTime s \<noteq> 0"
    using demo_loss unfolding losing_def by blast
  have "length [] + length ''x'' < ONELOGLEN" "(7 :: 64 word) \<noteq> 0" by (simp_all add: ONELOGLEN_def)
  from line_lost_only_when_full [OF l(1) this i s] l(2)
  obtain as where "ring_limit (log_ring l)" "ring s as" "length as + 1 = m_iBuffCnt s" "\<forall>x \<in> set as. is_full s x"
    by blast
  then show ?thesis using l i s by (intro exI conjI) (assumption | simp add: filter_id_conv)+
qed

end
