(* ===== verification/Shm_Tool.thy ===== *)
theory Shm_Tool
  imports Log_Fifo
begin

text \<open>
  The readers of a ring that a process left behind: \<open>log/shmtool.cpp\<close>, which saves its text, and
  \<open>GetPrstCBShmId\<close> of \<open>log/log.cpp\<close>, which removes it when the program starts again. Both follow
  \<open>m_iNextShmId\<close> from the segment the dead process noted last. \<open>shmat\<close> of an id that does not exist
  returns \<open>(void*)-1\<close>, which neither recognises, so the access that follows is a fault.
\<close>

section \<open>The loops\<close>

text \<open>
  \<open>leave\<close> is the file \<open>leaveLog.log\<close> when it is open; \<open>can_open\<close> says whether it can be opened. A
  removed segment is gone at once, as nobody else is attached to it.
\<close>

partial_function (option) flush_cells ::
  "bool \<Rightarrow> bool \<Rightarrow> shmid \<Rightarrow> shmid \<Rightarrow> string option \<Rightarrow> (shmid \<rightharpoonup> CBufferCell) \<Rightarrow>
   (string option \<times> (shmid \<rightharpoonup> CBufferCell)) res option" where
  "flush_cells can_open IsDel head cur leave segs =
     (case segs cur of None \<Rightarrow> Some (Inl OutOfBounds)
      | Some cf \<Rightarrow>
          if \<not> IsEmpty cf \<and> leave = None \<and> \<not> can_open then Some (Inl NullDeref)
          else
            let leave' = (if IsEmpty cf then leave
                          else Some (Persist (m_uCurLength cf) cf (case leave of None \<Rightarrow> [] | Some d \<Rightarrow> d)));
                segs' = (if IsDel then segs(cur := None) else segs)
            in if m_iNextShmId cf = head then Some (Inr (leave', segs'))
               else flush_cells can_open IsDel head (m_iNextShmId cf) leave' segs')"

partial_function (option) free_cells ::
  "shmid \<Rightarrow> shmid \<Rightarrow> (shmid \<rightharpoonup> CBufferCell) \<Rightarrow> (shmid \<rightharpoonup> CBufferCell) res option" where
  "free_cells head cur segs =
     (case segs cur of None \<Rightarrow> Some (Inl OutOfBounds)
      | Some CB \<Rightarrow>
          let segs' = segs(cur := None)
          in if m_iNextShmId CB = head then Some (Inr segs') else free_cells head (m_iNextShmId CB) segs')"

text \<open>\<open>seg_chain g is e\<close>: each segment of the list names the next one, the last one \<open>e\<close>.\<close>

fun seg_chain :: "(shmid \<rightharpoonup> CBufferCell) \<Rightarrow> shmid list \<Rightarrow> shmid \<Rightarrow> bool" where
  "seg_chain g [] e \<longleftrightarrow> True"
| "seg_chain g (i # is) e \<longleftrightarrow> (\<exists>c. g i = Some c \<and> m_iNextShmId c = hd (is @ [e])) \<and> seg_chain g is e"

definition seg_text :: "(shmid \<rightharpoonup> CBufferCell) \<Rightarrow> shmid \<Rightarrow> string" where
  "seg_text g i = (case g i of None \<Rightarrow> [] | Some c \<Rightarrow> take (m_uCurLength c) (m_aData c))"

definition seg_fits :: "(shmid \<rightharpoonup> CBufferCell) \<Rightarrow> shmid \<Rightarrow> bool" where
  "seg_fits g i \<longleftrightarrow> (\<forall>c. g i = Some c \<longrightarrow> m_uCurLength c \<le> length (m_aData c))"

text \<open>What \<open>leave\<close> is after more text.\<close>

definition saved :: "string option \<Rightarrow> string \<Rightarrow> string option" where
  "saved leave t = (if t = [] then leave else Some ((case leave of None \<Rightarrow> [] | Some d \<Rightarrow> d) @ t))"

lemma saved_append: "saved (saved leave t) u = saved leave (t @ u)"
  by (auto simp: saved_def)

lemma seg_chain_cong:
  "(\<And>i. i \<in> set is \<Longrightarrow> g' i = g i) \<Longrightarrow> seg_chain g' is e = seg_chain g is e"
  by (induction "is") simp_all

lemma flush_cells_chain:
  assumes "seg_chain g (i # is) head" "distinct (i # is)" "head \<notin> set is" "\<forall>j \<in> set (i # is). seg_fits g j"
  shows "flush_cells True del head i leave g =
    Some (Inr (saved leave (concat (map (seg_text g) (i # is))), if del then g |` (- set (i # is)) else g))"
  using assms
proof (induction "is" arbitrary: i g leave)
  case Nil
  then obtain c where c: "g i = Some c" "m_iNextShmId c = head" by auto
  then have "m_uCurLength c \<le> length (m_aData c)" using Nil.prems(4) by (simp add: seg_fits_def)
  with c show ?case
    by (subst flush_cells.simps)
      (auto simp: Let_def IsEmpty_def Persist_def saved_def seg_text_def restrict_map_def)
next
  case (Cons k ks)
  from Cons.prems obtain c where c: "g i = Some c" "m_iNextShmId c = k" by auto
  have fit: "m_uCurLength c \<le> length (m_aData c)" using Cons.prems(4) c by (simp add: seg_fits_def)
  let ?g = "if del then g(i := None) else g"
  have same: "?g j = g j" if "j \<in> set (k # ks)" for j using that Cons.prems(2) by auto
  have k: "k \<noteq> head" using Cons.prems(3) by auto
  have step: "flush_cells True del head i leave g = flush_cells True del head k (saved leave (seg_text g i)) ?g"
    using c k fit by (subst flush_cells.simps) (auto simp: Let_def IsEmpty_def Persist_def saved_def seg_text_def)
  have "seg_chain ?g (k # ks) head = seg_chain g (k # ks) head" by (rule seg_chain_cong) (rule same)
  then have "seg_chain ?g (k # ks) head" using Cons.prems(1) by simp
  moreover have "\<forall>j \<in> set (k # ks). seg_fits ?g j" using Cons.prems(4) same by (auto simp: seg_fits_def)
  ultimately have IH: "flush_cells True del head k (saved leave (seg_text g i)) ?g =
      Some (Inr (saved (saved leave (seg_text g i)) (concat (map (seg_text ?g) (k # ks))),
        if del then ?g |` (- set (k # ks)) else ?g))"
    using Cons.prems(2,3) by (intro Cons.IH) auto
  have texts: "map (seg_text ?g) (k # ks) = map (seg_text g) (k # ks)"
    using same by (intro map_cong) (auto simp: seg_text_def)
  have "(if del then ?g |` (- set (k # ks)) else ?g) = (if del then g |` (- set (i # k # ks)) else g)"
    by (auto simp: restrict_map_def fun_eq_iff)
  then show ?case unfolding step IH texts by (simp add: saved_append)
qed

lemma free_cells_chain:
  assumes "seg_chain g (i # is) head" "distinct (i # is)" "head \<notin> set is"
  shows "free_cells head i g = Some (Inr (g |` (- set (i # is))))"
  using assms
proof (induction "is" arbitrary: i g)
  case Nil
  then show ?case by (subst free_cells.simps) (auto simp: Let_def restrict_map_def fun_eq_iff)
next
  case (Cons k ks)
  from Cons.prems obtain c where c: "g i = Some c" "m_iNextShmId c = k" by auto
  have k: "k \<noteq> head" using Cons.prems(3) by auto
  have "free_cells head i g = free_cells head k (g(i := None))"
    using c k by (subst free_cells.simps) (simp add: Let_def)
  moreover have "seg_chain (g(i := None)) (k # ks) head = seg_chain g (k # ks) head"
    by (rule seg_chain_cong) (use Cons.prems(2) in auto)
  then have "seg_chain (g(i := None)) (k # ks) head" using Cons.prems(1) by simp
  then have "free_cells head k (g(i := None)) = Some (Inr ((g(i := None)) |` (- set (k # ks))))"
    by (rule Cons.IH) (use Cons.prems(2,3) in simp_all)
  moreover have "(g(i := None)) |` (- set (k # ks)) = g |` (- set (i # k # ks))"
    by (auto simp: restrict_map_def fun_eq_iff)
  ultimately show ?case by simp
qed

text \<open>The ring of a logger is such a chain.\<close>

lemma linked_seg_chain:
  assumes "linked s as e" and "\<forall>a \<in> set as. holds s a"
  shows "seg_chain (cells s) (map (seg s) as) (seg s e)"
  using assms
proof (induction as)
  case (Cons a as)
  have "seg s (hd (as @ [e])) = hd (map (seg s) as @ [seg s e])" by (cases as) simp_all
  with Cons show ?case by (auto simp: links_to_def holds_def)
qed simp

lemma holds_seg_text: "holds s a \<Longrightarrow> seg_text (cells s) (seg s a) = cell_text s a"
  by (simp add: holds_def seg_text_def cell_text_def)

lemma holds_seg_fits: "holds s a \<Longrightarrow> seg_fits (cells s) (seg s a)"
  by (simp add: holds_def seg_fits_def cell_ok_def)

lemma log_inv_chain:
  assumes "log_inv s as"
  obtains "is" where "map (seg s) as = m_pPrstBCShmId s # is"
    "seg_chain (cells s) (m_pPrstBCShmId s # is) (m_pPrstBCShmId s)" "distinct (m_pPrstBCShmId s # is)"
    "m_pPrstBCShmId s \<notin> set is" "\<forall>j \<in> set (m_pPrstBCShmId s # is). seg_fits (cells s) j"
    "concat (map (seg_text (cells s)) (m_pPrstBCShmId s # is)) = contents s as"
proof -
  have ring: "ring s as" and hd: "m_pPrstBCShmId s = seg s (hd as)" and ne: "as \<noteq> []"
    using assms by (auto simp: log_inv_def)
  have m: "map (seg s) as = m_pPrstBCShmId s # map (seg s) (tl as)" using hd ne by (cases as) simp_all
  have h: "\<forall>a \<in> set as. holds s a" using ring by (simp add: ring_def)
  have "concat (map (seg_text (cells s)) (map (seg s) as)) = contents s as"
    using h by (simp add: contents_def holds_seg_text cong: map_cong)
  moreover have "seg_chain (cells s) (map (seg s) as) (m_pPrstBCShmId s)"
    using ring h hd linked_seg_chain [of s as "hd as"] by (simp add: ring_def)
  moreover have "\<forall>j \<in> set (map (seg s) as). seg_fits (cells s) j" using h holds_seg_fits by auto
  moreover have "distinct (map (seg s) as)" using ring by (simp add: ring_def)
  ultimately show thesis using that [of "map (seg s) (tl as)"] unfolding m by simp
qed

lemma flush_ring:
  assumes "log_inv s as"
  shows "flush_cells True del (m_pPrstBCShmId s) (m_pPrstBCShmId s) None (cells s) =
    Some (Inr (saved None (contents s as), if del then cells s |` (- set (map (seg s) as)) else cells s))"
  using assms by (rule log_inv_chain) (simp add: flush_cells_chain)

lemma free_ring:
  assumes "log_inv s as"
  shows "free_cells (m_pPrstBCShmId s) (m_pPrstBCShmId s) (cells s) =
    Some (Inr (cells s |` (- set (map (seg s) as))))"
  using assms by (rule log_inv_chain) (simp add: free_cells_chain)

section \<open>The two programs\<close>

text \<open>
  The options of the tool. \<open>argv\<close> is without the program's name; the word after \<open>-f\<close> may be the null
  pointer behind the last argument, of which \<open>realpath\<close> gives none.
\<close>

fun tool_options :: "(string \<Rightarrow> string option) \<Rightarrow> string list \<Rightarrow> string option \<Rightarrow> bool \<Rightarrow> (string option \<times> bool) option" where
  "tool_options realpath [] exePath IsDel = Some (exePath, IsDel)"
| "tool_options realpath (x # xs) exePath IsDel =
     (if x = ''-f'' then
        (case xs of [] \<Rightarrow> Some (None, IsDel) | p # ys \<Rightarrow> tool_options realpath ys (realpath p) IsDel)
      else if x = ''-d'' then tool_options realpath xs exePath True
      else None)"

datatype tool_result =
  Refused
| Left_data string
| No_data

text \<open>
  \<open>ftok\<close> is the C library's; \<open>keys\<close> and \<open>ints\<close> are the segments that hold an id and what they hold. The
  result is what is reported, and the segments left.
\<close>

definition shmtool_main ::
  "(string \<Rightarrow> string option) \<Rightarrow> (string \<Rightarrow> int \<Rightarrow> int) \<Rightarrow> (int \<rightharpoonup> shmid) \<Rightarrow> (shmid \<rightharpoonup> shmid) \<Rightarrow> bool \<Rightarrow> string list \<Rightarrow>
   (shmid \<rightharpoonup> CBufferCell) \<Rightarrow> (tool_result \<times> (shmid \<rightharpoonup> shmid) \<times> (shmid \<rightharpoonup> CBufferCell)) res option" where
  "shmtool_main realpath ftok keys ints can_open argv segs =
     (if length argv \<noteq> 2 \<and> length argv \<noteq> 3 then Some (Inr (Refused, ints, segs))
      else case tool_options realpath argv None False of
        None \<Rightarrow> Some (Inr (Refused, ints, segs))
      | Some (None, IsDel) \<Rightarrow> Some (Inr (Refused, ints, segs))
      | Some (Some exePath, IsDel) \<Rightarrow>
          if ftok exePath SHMKEY < 0 then Some (Inr (Refused, ints, segs))
          else case keys (ftok exePath SHMKEY) of
            None \<Rightarrow> Some (Inr (Refused, ints, segs))
          | Some shmid \<Rightarrow>
              case ints shmid of
                None \<Rightarrow> Some (Inl OutOfBounds)
              | Some headCBShmid \<Rightarrow>
                  map_option (\<lambda>r. bind_res r (\<lambda>(leave, segs').
                      Inr (case leave of None \<Rightarrow> No_data | Some t \<Rightarrow> Left_data t,
                           if IsDel then ints(shmid := None) else ints, segs')))
                    (flush_cells can_open IsDel headCBShmid headCBShmid None segs))"

text \<open>
  \<open>GetPrstCBShmId\<close>. \<open>exe\<close> is what \<open>readlink\<close> stores, \<open>None\<close> when it fails; it adds no terminator, so a
  path that fills the array has none. \<open>new\<close> is the kernel's answer to the request for a new segment.
\<close>

definition GetPrstCBShmId ::
  "string option \<Rightarrow> (string \<Rightarrow> int \<Rightarrow> int) \<Rightarrow> (int \<rightharpoonup> shmid) \<Rightarrow> (shmid \<rightharpoonup> shmid) \<Rightarrow> shmid option \<Rightarrow>
   (shmid \<rightharpoonup> CBufferCell) \<Rightarrow> (int \<times> (shmid \<rightharpoonup> CBufferCell)) res option" where
  "GetPrstCBShmId exe ftok keys ints new segs =
     (case exe of
        None \<Rightarrow> Some (Inr (-1, segs))
      | Some exePatch \<Rightarrow>
          if 4069 \<le> length exePatch then Some (Inl OutOfBounds)
          else case keys (ftok exePatch SHMKEY) of
            None \<Rightarrow> Some (Inr (case new of None \<Rightarrow> -1 | Some i \<Rightarrow> i, segs))
          | Some shmId \<Rightarrow>
              case ints shmId of
                None \<Rightarrow> Some (Inl OutOfBounds)
              | Some headCBShmId \<Rightarrow>
                  map_option (\<lambda>r. bind_res r (\<lambda>segs'. Inr (shmId, segs')))
                    (free_cells headCBShmId headCBShmId segs))"

section \<open>Recovery\<close>





end
