(* ===== verification/Log_Time.thy ===== *)
theory Log_Time
  imports CLib
begin

text \<open>
  The clock of the log, \<open>UTC_Time\<close> of \<open>log/log.h\<close>: it calls \<open>localtime_r\<close> only when the minute
  changes and otherwise overwrites the two digits of the second in the text it keeps.
  \<open>gettimeofday\<close>'s answers and \<open>localtime_r\<close> are parameters.
\<close>

section \<open>Model\<close>

record tm =
  tm_sec :: int
  tm_min :: int
  tm_hour :: int
  tm_mday :: int
  tm_mon :: int
  tm_year :: int

record UTC_Time =
  m_aTimeCache :: string
  m_year :: int
  m_month :: int
  m_day :: int
  m_hour :: int
  m_minute :: int
  m_sec :: int
  m_cache_sec :: nat
  m_cache_min :: nat

text \<open>\<open>"%0wd"\<close> of \<open>printf\<close>, for the numbers that occur here, which are not negative.\<close>

definition padded :: "nat \<Rightarrow> int \<Rightarrow> string" where
  "padded w x = replicate (w - length (dec_int x)) CHR ''0'' @ dec_int x"

text \<open>The text that \<open>snprintf\<close> stores in an array of \<open>n\<close> bytes; its terminator is left out.\<close>

definition snprintf :: "nat \<Rightarrow> string \<Rightarrow> string" where
  "snprintf n t = take (n - 1) t"

definition AddTimeAll :: "UTC_Time \<Rightarrow> UTC_Time" where
  "AddTimeAll t = t\<lparr>m_aTimeCache := snprintf 20
     (padded 4 (m_year t) @ ''-'' @ padded 2 (m_month t) @ ''-'' @ padded 2 (m_day t) @ '' '' @
      padded 2 (m_hour t) @ '':'' @ padded 2 (m_minute t) @ '':'' @ padded 2 (m_sec t))\<rparr>"

text \<open>The text from position 17 on is replaced, and ends there.\<close>

definition AddTimeSec :: "UTC_Time \<Rightarrow> UTC_Time" where
  "AddTimeSec t = t\<lparr>m_aTimeCache := take 17 (m_aTimeCache t) @ snprintf 3 (padded 2 (m_sec t))\<rparr>"

definition UpdateTime :: "(nat \<Rightarrow> tm) \<Rightarrow> nat \<Rightarrow> UTC_Time \<Rightarrow> UTC_Time" where
  "UpdateTime localtime tv_sec t =
     (let cur_tm = localtime tv_sec in
      t\<lparr>m_cache_sec := tv_sec, m_cache_min := tv_sec div 60,
        m_year := tm_year cur_tm + 1900, m_month := tm_mon cur_tm + 1, m_day := tm_mday cur_tm,
        m_hour := tm_hour cur_tm, m_minute := tm_min cur_tm, m_sec := tm_sec cur_tm\<rparr>)"

text \<open>The constructor, on the memory \<open>t\<close> as it is found.\<close>

definition UTC_Time_new :: "(nat \<Rightarrow> tm) \<Rightarrow> nat \<Rightarrow> UTC_Time \<Rightarrow> UTC_Time" where
  "UTC_Time_new localtime tv_sec t = AddTimeAll (UpdateTime localtime tv_sec t)"

text \<open>\<open>GetCurTime\<close>: the milliseconds, the second, and the new state.\<close>

definition GetCurTime :: "(nat \<Rightarrow> tm) \<Rightarrow> nat \<times> nat \<Rightarrow> UTC_Time \<Rightarrow> nat \<times> nat \<times> UTC_Time" where
  "GetCurTime localtime tv t =
     (case tv of (tv_sec, tv_usec) \<Rightarrow>
        let p_msec = tv_usec div 1000;
            t' = (if tv_sec \<noteq> m_cache_sec t then
                    let t1 = t\<lparr>m_cache_sec := tv_sec\<rparr> in
                    if m_cache_sec t1 div 60 = m_cache_min t1
                    then AddTimeSec (t1\<lparr>m_sec := int (m_cache_sec t1 mod 60)\<rparr>)
                    else AddTimeAll (UpdateTime localtime tv_sec t1)
                  else t)
        in (p_msec, m_cache_sec t', t'))"

section \<open>The cache is exact\<close>

text \<open>
  What the cache relies on: the fields are in their ranges, years have four digits, and within a
  minute of the clock only the second changes, as in every time zone whose offset is a whole number
  of minutes.
\<close>

definition calendar :: "(nat \<Rightarrow> tm) \<Rightarrow> bool" where
  "calendar localtime \<longleftrightarrow>
     (\<forall>t. let m = localtime t in
        0 \<le> tm_year m + 1900 \<and> tm_year m + 1900 \<le> 9999 \<and> 0 \<le> tm_mon m \<and> tm_mon m \<le> 11 \<and>
        1 \<le> tm_mday m \<and> tm_mday m \<le> 31 \<and> 0 \<le> tm_hour m \<and> tm_hour m \<le> 23 \<and> 0 \<le> tm_min m \<and> tm_min m \<le> 59 \<and>
        tm_sec m = int (t mod 60) \<and>
        (\<forall>u. u div 60 = t div 60 \<longrightarrow> localtime u = m\<lparr>tm_sec := int (u mod 60)\<rparr>))"

text \<open>The text of a time without any cache.\<close>

definition time_prefix :: "tm \<Rightarrow> string" where
  "time_prefix m = padded 4 (tm_year m + 1900) @ ''-'' @ padded 2 (tm_mon m + 1) @ ''-'' @ padded 2 (tm_mday m) @ '' '' @
     padded 2 (tm_hour m) @ '':'' @ padded 2 (tm_min m) @ '':''"

definition time_text :: "tm \<Rightarrow> string" where
  "time_text m = time_prefix m @ padded 2 (tm_sec m)"

lemma padded_length:
  assumes "0 \<le> x" "x < 10 ^ w" "0 < w"
  shows "length (padded w x) = w"
proof -
  have "nat x < 10 ^ w" using assms by (simp add: nat_less_iff)
  then have "length (dec_int x) \<le> w" using assms dec_nat_length [of w "nat x"] by (simp add: dec_int_def)
  then show ?thesis by (simp add: padded_def)
qed

lemma padded_two: "0 \<le> x \<Longrightarrow> x < 100 \<Longrightarrow> length (padded 2 x) = 2"
  using padded_length [of x 2] by simp

lemma calendar_at:
  assumes "calendar localtime"
  shows "length (time_prefix (localtime t)) = 17" "length (padded 2 (tm_sec (localtime t))) = 2"
    "tm_sec (localtime t) = int (t mod 60)"
    "\<And>u. u div 60 = t div 60 \<Longrightarrow> localtime u = (localtime t)\<lparr>tm_sec := int (u mod 60)\<rparr>"
proof -
  let ?m = "localtime t"
  have r: "0 \<le> tm_year ?m + 1900" "tm_year ?m + 1900 \<le> 9999" "0 \<le> tm_mon ?m" "tm_mon ?m \<le> 11"
    "1 \<le> tm_mday ?m" "tm_mday ?m \<le> 31" "0 \<le> tm_hour ?m" "tm_hour ?m \<le> 23" "0 \<le> tm_min ?m" "tm_min ?m \<le> 59"
    "tm_sec ?m = int (t mod 60)" "\<forall>u. u div 60 = t div 60 \<longrightarrow> localtime u = ?m\<lparr>tm_sec := int (u mod 60)\<rparr>"
    using assms unfolding calendar_def Let_def by blast+
  show "tm_sec ?m = int (t mod 60)" by (rule r(11))
  show "\<And>u. u div 60 = t div 60 \<Longrightarrow> localtime u = ?m\<lparr>tm_sec := int (u mod 60)\<rparr>" using r(12) by blast
  have "length (padded 4 (tm_year ?m + 1900)) = 4" using r(1,2) by (intro padded_length) simp_all
  then show "length (time_prefix ?m) = 17" using r(3-10) by (simp add: time_prefix_def padded_two)
  have "t mod 60 < 60" by simp
  then have "int (t mod 60) < 100" by linarith
  then show "length (padded 2 (tm_sec ?m)) = 2" using r(11) by (intro padded_two) simp_all
qed

text \<open>The state holds the fields and the text of its second.\<close>

definition exact :: "(nat \<Rightarrow> tm) \<Rightarrow> UTC_Time \<Rightarrow> bool" where
  "exact localtime t \<longleftrightarrow>
     (let m = localtime (m_cache_sec t) in
      m_cache_min t = m_cache_sec t div 60 \<and> m_aTimeCache t = time_text m \<and>
      m_year t = tm_year m + 1900 \<and> m_month t = tm_mon m + 1 \<and> m_day t = tm_mday m \<and>
      m_hour t = tm_hour m \<and> m_minute t = tm_min m \<and> m_sec t = tm_sec m)"

lemma update_exact:
  assumes "calendar localtime"
  shows "exact localtime (AddTimeAll (UpdateTime localtime s t))"
proof -
  have "length (time_text (localtime s)) = 19"
    using calendar_at(1,2) [OF assms, of s] by (simp add: time_text_def)
  then show ?thesis
    by (simp add: exact_def AddTimeAll_def UpdateTime_def Let_def snprintf_def time_text_def time_prefix_def)
qed

lemma GetCurTime_exact:
  assumes "calendar localtime" and "exact localtime t"
  shows "\<exists>t'. GetCurTime localtime (s, us) t = (us div 1000, s, t') \<and> m_cache_sec t' = s \<and> exact localtime t'"
proof (cases "s = m_cache_sec t")
  case True
  then show ?thesis using assms(2) by (simp add: GetCurTime_def Let_def)
next
  case False
  show ?thesis
  proof (cases "s div 60 = m_cache_min t")
    case False
    then show ?thesis using \<open>s \<noteq> m_cache_sec t\<close> update_exact [OF assms(1)]
      by (simp add: GetCurTime_def Let_def AddTimeAll_def) (simp add: UpdateTime_def Let_def)
  next
    case True
    let ?m = "localtime (m_cache_sec t)"
    have eq: "localtime s = ?m\<lparr>tm_sec := int (s mod 60)\<rparr>"
      by (rule calendar_at(4) [OF assms(1)]) (use True assms(2) in \<open>simp add: exact_def Let_def\<close>)
    have pre: "time_prefix (localtime s) = time_prefix ?m" by (simp add: eq time_prefix_def)
    have "length (padded 2 (int (s mod 60))) = 2" using calendar_at(2,3) [OF assms(1), of s] by simp
    then have "take 17 (m_aTimeCache t) @ snprintf 3 (padded 2 (int (s mod 60))) = time_text (localtime s)"
      using assms(2) calendar_at(1) [OF assms(1), of "m_cache_sec t"] pre
      by (simp add: exact_def Let_def time_text_def snprintf_def) (simp add: eq)
    then show ?thesis using \<open>s \<noteq> m_cache_sec t\<close> True assms(2)
      by (simp add: GetCurTime_def Let_def AddTimeSec_def exact_def eq)
  qed
qed

text \<open>A sequence of readings, with what each call leaves in the text.\<close>

fun readings :: "(nat \<Rightarrow> tm) \<Rightarrow> (nat \<times> nat) list \<Rightarrow> UTC_Time \<Rightarrow> (string \<times> nat \<times> nat) list" where
  "readings localtime [] t = []"
| "readings localtime (tv # tvs) t =
     (case GetCurTime localtime tv t of
        (ms, sec, t') \<Rightarrow> (m_aTimeCache t', ms, sec) # readings localtime tvs t')"

text \<open>
  C16: the cached clock equals the uncached one. Whatever the clock shows, at the start and in the
  calls after it, also when it is set back, every call of \<open>GetCurTime\<close> returns its second and
  millisecond and leaves the text of that second, as if \<open>localtime_r\<close> and the whole format were
  used each time.
\<close>

theorem cached_time_exact:
  assumes "calendar localtime"
  shows "readings localtime tvs (UTC_Time_new localtime start t) =
    map (\<lambda>(s, us). (time_text (localtime s), us div 1000, s)) tvs"
proof -
  have "readings localtime tvs t1 = map (\<lambda>(s, us). (time_text (localtime s), us div 1000, s)) tvs"
    if "exact localtime t1" for t1
    using that
  proof (induction tvs arbitrary: t1)
    case (Cons tv tvs)
    obtain s us where tv: "tv = (s, us)" by (cases tv)
    obtain t' where "GetCurTime localtime (s, us) t1 = (us div 1000, s, t')" "m_cache_sec t' = s" "exact localtime t'"
      using GetCurTime_exact [OF assms Cons.prems] by blast
    with Cons.IH [of t'] tv show ?case by (simp add: exact_def Let_def)
  qed simp
  with update_exact [OF assms] show ?thesis by (simp add: UTC_Time_new_def)
qed

definition demo_localtime :: "nat \<Rightarrow> tm" where
  "demo_localtime t = \<lparr>tm_sec = int (t mod 60), tm_min = int (t div 60 mod 60), tm_hour = int (t div 3600 mod 24),
     tm_mday = 1, tm_mon = 0, tm_year = 70\<rparr>"

lemma demo_calendar: "calendar demo_localtime"
  unfolding calendar_def Let_def
proof (intro allI conjI impI)
  fix t u :: nat
  assume uv: "u div 60 = t div 60"
  have "x div 3600 = x div 60 div 60" for x :: nat by (simp flip: div_mult2_eq)
  then have "u div 3600 = t div 3600" using uv by simp
  then show "demo_localtime u = (demo_localtime t)\<lparr>tm_sec := int (u mod 60)\<rparr>"
    using uv by (simp add: demo_localtime_def)
next
  fix t :: nat
  have "t div 60 mod 60 < 60" "t div 3600 mod 24 < 24" by simp_all
  then show "tm_min (demo_localtime t) \<le> 59" "tm_hour (demo_localtime t) \<le> 23"
    by (simp_all add: demo_localtime_def)
qed (simp_all add: demo_localtime_def)

lemma cached_time_exact_witness:
  "readings demo_localtime [(61, 5000), (62, 7999), (119, 0), (120, 0)]
     (UTC_Time_new demo_localtime 3 \<lparr>m_aTimeCache = [], m_year = 0, m_month = 0, m_day = 0, m_hour = 0,
        m_minute = 0, m_sec = 0, m_cache_sec = 0, m_cache_min = 0\<rparr>) =
   [(''1970-01-01 00:01:01'', 5, 61), (''1970-01-01 00:01:02'', 7, 62), (''1970-01-01 00:01:59'', 0, 119),
    (''1970-01-01 00:02:00'', 0, 120)]"
  unfolding cached_time_exact [OF demo_calendar]
  by (simp add: demo_localtime_def time_text_def time_prefix_def padded_def dec_int_def dec_nat.simps digit_char_def)
    code_simp

end
