(* ===== verification/Log_File.thy ===== *)
theory Log_File
  imports Log_Time
begin

text \<open>
  The log's configuration and files, of \<open>log/log.h\<close> and \<open>log/log.cpp\<close>: levels and the macros that test
  them, \<open>InitLogPath\<close>, and \<open>DecisFile\<close>, which chooses the file to write to: one per day, and a new one
  when it has reached 1 GB, the older ones being renumbered.
\<close>

section \<open>Levels\<close>

datatype LOG_LEVEL = FATAL | ERROR | WARN | INFO | DEBUG | TRACE

definition level_num :: "LOG_LEVEL \<Rightarrow> int" where
  "level_num l = (case l of FATAL \<Rightarrow> 1 | ERROR \<Rightarrow> 2 | WARN \<Rightarrow> 3 | INFO \<Rightarrow> 4 | DEBUG \<Rightarrow> 5 | TRACE \<Rightarrow> 6)"

lemma level_num_inject: "level_num l = level_num l' \<longleftrightarrow> l = l'"
  by (cases l; cases l') (simp_all add: level_num_def)

instantiation LOG_LEVEL :: linorder
begin

definition less_eq_LOG_LEVEL :: "LOG_LEVEL \<Rightarrow> LOG_LEVEL \<Rightarrow> bool" where
  "less_eq_LOG_LEVEL l l' \<longleftrightarrow> level_num l \<le> level_num l'"

definition less_LOG_LEVEL :: "LOG_LEVEL \<Rightarrow> LOG_LEVEL \<Rightarrow> bool" where
  "less_LOG_LEVEL l l' \<longleftrightarrow> level_num l < level_num l'"

instance
  by standard (auto simp: less_eq_LOG_LEVEL_def less_LOG_LEVEL_def level_num_inject)

end

text \<open>
  \<open>m_eLevel\<close> can hold any number, as the level is cast from an \<open>int\<close>. \<open>log_guard\<close> is the test of the
  macro of a level; \<open>LOG_FATAL\<close> has none. \<open>log_tag\<close> is the prefix it passes, \<open>LOG_NORMAL\<close> being
  \<open>LOG_INFO\<close> under another name.
\<close>

definition log_guard :: "LOG_LEVEL \<Rightarrow> int \<Rightarrow> bool" where
  "log_guard l m_eLevel \<longleftrightarrow> l = FATAL \<or> level_num l \<le> m_eLevel"

definition log_tag :: "LOG_LEVEL \<Rightarrow> string" where
  "log_tag l = (case l of FATAL \<Rightarrow> ''[FATAL]'' | ERROR \<Rightarrow> ''[ERROR]'' | WARN \<Rightarrow> ''[WARN]''
     | INFO \<Rightarrow> ''[INFO]'' | DEBUG \<Rightarrow> ''[DEBUG]'' | TRACE \<Rightarrow> ''[TRACE]'')"

definition log_macro :: "LOG_LEVEL \<Rightarrow> int \<Rightarrow> string option" where
  "log_macro l m_eLevel = (if log_guard l m_eLevel then Some (log_tag l) else None)"

text \<open>A configured level lets the messages up to it through.\<close>

lemma log_guard_order: "log_guard l (level_num k) \<longleftrightarrow> l \<le> k"
  by (cases l; cases k) (simp_all add: log_guard_def less_eq_LOG_LEVEL_def level_num_def)

text \<open>\<open>LOG_MEM_SET\<close>: the size of a cell.\<close>

definition LOG_MEM_SET :: "nat \<Rightarrow> nat" where
  "LOG_MEM_SET mem_lmt =
     (if mem_lmt < 10 * 1024 * 1024 then 10 * 1024 * 1024
      else if mem_lmt > 50 * 1024 * 1024 then 50 * 1024 * 1024
      else mem_lmt)"

lemma LOG_MEM_SET_range: "10 * 1024 * 1024 \<le> LOG_MEM_SET n \<and> LOG_MEM_SET n \<le> 50 * 1024 * 1024"
  by (simp add: LOG_MEM_SET_def)

section \<open>Configuration\<close>

definition MAX_PROG_NAME_LEN :: nat where "MAX_PROG_NAME_LEN = 128"
definition MAX_LOG_DIR_LEN :: nat where "MAX_LOG_DIR_LEN = 512"

type_synonym path = string

text \<open>The members of \<open>CRingLog\<close> that concern the files; \<open>m_pFp\<close> names the open file.\<close>

record log_files =
  m_pFp :: "path option"
  m_Pid :: nat
  m_iYear :: int
  m_iMon :: int
  m_iDay :: int
  m_iLogCnt :: nat
  m_aProgName :: string
  m_aLogDir :: string
  m_bEnv :: bool
  m_eLevel :: int

text \<open>
  \<open>strncpy\<close> leaves an array without terminator when the text fills it; the next use then reads beyond
  it, which is reported here. \<open>access_ok\<close> is what \<open>mkdir\<close> and \<open>access\<close> make of the directory.
\<close>

definition InitLogPath :: "(path \<Rightarrow> bool) \<Rightarrow> string \<Rightarrow> string \<Rightarrow> int \<Rightarrow> log_files \<Rightarrow> log_files res" where
  "InitLogPath access_ok logdir prog_name level st =
     (if MAX_LOG_DIR_LEN \<le> length logdir \<or> MAX_PROG_NAME_LEN \<le> length prog_name then Inl OutOfBounds
      else
        let st1 = st\<lparr>m_aLogDir := logdir, m_aProgName := prog_name\<rparr>;
            st2 = (if access_ok logdir then st1\<lparr>m_bEnv := True\<rparr> else st1);
            st3 = (if level > level_num TRACE then st2\<lparr>m_eLevel := level_num TRACE\<rparr> else st2);
            st4 = (if level < level_num FATAL then st3\<lparr>m_eLevel := level_num FATAL\<rparr> else st3)
        in Inr (st4\<lparr>m_eLevel := level\<rparr>))"

section \<open>The file to write to\<close>

definition ONELOGFILELIMIT :: nat where "ONELOGFILELIMIT = 1024 * 1024 * 1024"

definition logPath :: "log_files \<Rightarrow> int \<Rightarrow> int \<Rightarrow> int \<Rightarrow> path" where
  "logPath st year mon day = m_aLogDir st @ ''/'' @ m_aProgName st @ ''.'' @ dec_int year @ padded 2 mon @
     padded 2 day @ ''.'' @ dec_nat (m_Pid st) @ ''.log''"

definition numbered :: "path \<Rightarrow> nat \<Rightarrow> path" where
  "numbered base i = base @ ''.'' @ dec_nat i"

text \<open>The file system maps paths to contents; \<open>opens\<close> says which files can be opened.\<close>

definition fopen_w :: "(path \<Rightarrow> bool) \<Rightarrow> path \<Rightarrow> (path \<rightharpoonup> string) \<Rightarrow> path option \<times> (path \<rightharpoonup> string)" where
  "fopen_w opens p fs = (if opens p then (Some p, fs(p \<mapsto> [])) else (None, fs))"

definition rename :: "path \<Rightarrow> path \<Rightarrow> (path \<rightharpoonup> string) \<Rightarrow> (path \<rightharpoonup> string)" where
  "rename old_path new_path fs =
     (case fs old_path of None \<Rightarrow> fs | Some t \<Rightarrow> fs(old_path := None, new_path \<mapsto> t))"

text \<open>The loop over \<open>i\<close> from \<open>m_iLogCnt - 1\<close> down to 1.\<close>

fun shift_logs :: "path \<Rightarrow> nat \<Rightarrow> (path \<rightharpoonup> string) \<Rightarrow> (path \<rightharpoonup> string)" where
  "shift_logs base 0 fs = fs"
| "shift_logs base (Suc i) fs =
     shift_logs base i (rename (numbered base (Suc i)) (numbered base (Suc i + 1)) fs)"

definition ftell :: "path option \<Rightarrow> (path \<rightharpoonup> string) \<Rightarrow> nat" where
  "ftell fp fs = (case fp of None \<Rightarrow> 0 | Some p \<Rightarrow> (case fs p of None \<Rightarrow> 0 | Some t \<Rightarrow> length t))"

definition DecisFile ::
  "(path \<Rightarrow> bool) \<Rightarrow> int \<Rightarrow> int \<Rightarrow> int \<Rightarrow> log_files \<Rightarrow> (path \<rightharpoonup> string) \<Rightarrow> bool \<times> log_files \<times> (path \<rightharpoonup> string)" where
  "DecisFile opens year mon day st fs =
     (if \<not> m_bEnv st then
        (case fopen_w opens ''/null'' fs of (fp, fs') \<Rightarrow> (fp \<noteq> None, st\<lparr>m_pFp := fp\<rparr>, fs'))
      else if m_pFp st = None then
        let st1 = st\<lparr>m_iYear := year, m_iDay := day, m_iMon := mon\<rparr> in
        (case fopen_w opens (logPath st1 (m_iYear st1) (m_iMon st1) (m_iDay st1)) fs of (fp, fs') \<Rightarrow>
           (fp \<noteq> None, st1\<lparr>m_pFp := fp, m_iLogCnt := (if fp \<noteq> None then m_iLogCnt st1 + 1 else m_iLogCnt st1)\<rparr>, fs'))
      else if m_iDay st \<noteq> day then
        let st1 = st\<lparr>m_iDay := day\<rparr> in
        (case fopen_w opens (logPath st1 (m_iYear st1) (m_iMon st1) (m_iDay st1)) fs of (fp, fs') \<Rightarrow>
           (fp \<noteq> None, st1\<lparr>m_pFp := fp, m_iLogCnt := (if fp \<noteq> None then 1 else m_iLogCnt st1)\<rparr>, fs'))
      else if ftell (m_pFp st) fs \<ge> ONELOGFILELIMIT then
        let old_path = logPath st year mon day;
            fs1 = shift_logs old_path (m_iLogCnt st - 1) fs;
            fs2 = rename old_path (numbered old_path 1) fs1
        in (case fopen_w opens old_path fs2 of (fp, fs') \<Rightarrow>
              (fp \<noteq> None, st\<lparr>m_pFp := fp, m_iLogCnt := (if fp \<noteq> None then m_iLogCnt st + 1 else m_iLogCnt st)\<rparr>, fs'))
      else (True, st, fs))"

section \<open>Rotation\<close>

lemma dec_nat_inject [simp]: "dec_nat i = dec_nat j \<longleftrightarrow> i = j"
  by (metis digits_val_dec_nat)

lemma numbered_inject [simp]: "numbered base i = numbered base j \<longleftrightarrow> i = j"
  by (simp add: numbered_def)

lemma numbered_base [simp]: "numbered base i \<noteq> base" "base \<noteq> numbered base i"
  by (simp_all add: numbered_def)

lemma shift_logs_moves:
  assumes "\<forall>i. 1 \<le> i \<and> i \<le> k \<longrightarrow> fs (numbered base i) \<noteq> None"
  shows "0 < k \<Longrightarrow> shift_logs base k fs (numbered base 1) = None"
    "\<And>i. 1 \<le> i \<Longrightarrow> i \<le> k \<Longrightarrow> shift_logs base k fs (numbered base (Suc i)) = fs (numbered base i)"
    "\<And>i. Suc k < i \<Longrightarrow> shift_logs base k fs (numbered base i) = fs (numbered base i)"
    "\<And>p. p \<notin> numbered base ` {1..Suc k} \<Longrightarrow> shift_logs base k fs p = fs p"
proof -
  have "(0 < k \<longrightarrow> shift_logs base k fs (numbered base 1) = None) \<and>
    (\<forall>i. 1 \<le> i \<and> i \<le> k \<longrightarrow> shift_logs base k fs (numbered base (Suc i)) = fs (numbered base i)) \<and>
    (\<forall>p. p \<notin> numbered base ` {1..Suc k} \<longrightarrow> shift_logs base k fs p = fs p)"
    using assms
  proof (induction k arbitrary: fs)
    case (Suc k)
    let ?n = "numbered base"
    obtain t where t: "fs (?n (Suc k)) = Some t" using Suc.prems by auto
    define fs1 where "fs1 = fs(?n (Suc k) := None, ?n (Suc (Suc k)) \<mapsto> t)"
    have fs1: "fs1 (?n (Suc k)) = None" "fs1 (?n (Suc (Suc k))) = Some t"
      "\<And>p. p \<noteq> ?n (Suc k) \<Longrightarrow> p \<noteq> ?n (Suc (Suc k)) \<Longrightarrow> fs1 p = fs p"
      by (simp_all add: fs1_def)
    have step: "shift_logs base (Suc k) fs = shift_logs base k fs1" using t by (simp add: rename_def fs1_def)
    have same: "fs1 (?n i) = fs (?n i)" if "i \<le> k" for i using that by (intro fs1(3)) simp_all
    then have "\<forall>i. 1 \<le> i \<and> i \<le> k \<longrightarrow> fs1 (?n i) \<noteq> None" using Suc.prems by simp
    note IH = Suc.IH [OF this]
    have one: "shift_logs base k fs1 (?n 1) = None"
    proof (cases "k = 0")
      case False
      then show ?thesis using IH by blast
    qed (use fs1(1) in simp)
    have moved: "shift_logs base k fs1 (?n (Suc i)) = fs (?n i)" if "1 \<le> i" "i \<le> Suc k" for i
    proof (cases "i = Suc k")
      case True
      have "?n (Suc (Suc k)) \<notin> ?n ` {1..Suc k}" by auto
      then have "shift_logs base k fs1 (?n (Suc (Suc k))) = fs1 (?n (Suc (Suc k)))" using IH by blast
      then show ?thesis using t fs1(2) True by simp
    next
      case False
      then have "i \<le> k" using that by simp
      then have "shift_logs base k fs1 (?n (Suc i)) = fs1 (?n i)" using IH that(1) by blast
      then show ?thesis using same [OF \<open>i \<le> k\<close>] by simp
    qed
    have rest: "shift_logs base k fs1 p = fs p" if "p \<notin> ?n ` {1..Suc (Suc k)}" for p
    proof -
      have "p \<notin> ?n ` {1..Suc k}" "p \<noteq> ?n (Suc k)" "p \<noteq> ?n (Suc (Suc k))" using that by auto
      then show ?thesis using IH fs1(3) by metis
    qed
    show ?case unfolding step using one moved rest by blast
  qed auto
  then show "0 < k \<Longrightarrow> shift_logs base k fs (numbered base 1) = None"
    "\<And>i. 1 \<le> i \<Longrightarrow> i \<le> k \<Longrightarrow> shift_logs base k fs (numbered base (Suc i)) = fs (numbered base i)"
    and rest: "\<And>p. p \<notin> numbered base ` {1..Suc k} \<Longrightarrow> shift_logs base k fs p = fs p" by blast+
  show "\<And>i. Suc k < i \<Longrightarrow> shift_logs base k fs (numbered base i) = fs (numbered base i)"
    by (rule rest) auto
qed

text \<open>
  The log of a day is open in \<open>base\<close>, with the older files numbered from 1 without gaps. \<open>day_log\<close> is
  all its text, oldest first.
\<close>

definition day_open :: "int \<Rightarrow> int \<Rightarrow> int \<Rightarrow> log_files \<Rightarrow> (path \<rightharpoonup> string) \<Rightarrow> bool" where
  "day_open year mon day st fs \<longleftrightarrow>
     (let base = logPath st year mon day in
      m_bEnv st \<and> m_pFp st = Some base \<and> m_iDay st = day \<and> fs base \<noteq> None \<and> 1 \<le> m_iLogCnt st \<and>
      (\<forall>i. 1 \<le> i \<longrightarrow> (fs (numbered base i) \<noteq> None \<longleftrightarrow> i < m_iLogCnt st)))"

fun older_logs :: "(path \<rightharpoonup> string) \<Rightarrow> path \<Rightarrow> nat \<Rightarrow> string" where
  "older_logs fs base 0 = []"
| "older_logs fs base (Suc i) = the (fs (numbered base (Suc i))) @ older_logs fs base i"

definition day_log :: "(path \<rightharpoonup> string) \<Rightarrow> path \<Rightarrow> nat \<Rightarrow> string" where
  "day_log fs base cnt = older_logs fs base (cnt - 1) @ the (fs base)"

lemma older_logs_shift:
  assumes "\<And>i. 1 \<le> i \<Longrightarrow> i \<le> k \<Longrightarrow> g (numbered base (Suc i)) = f (numbered base i)"
  shows "older_logs g base (Suc k) = older_logs f base k @ the (g (numbered base 1))"
  using assms by (induction k) simp_all

lemma older_logs_cong:
  assumes "\<And>i. 1 \<le> i \<Longrightarrow> i \<le> k \<Longrightarrow> g (numbered base i) = f (numbered base i)"
  shows "older_logs g base k = older_logs f base k"
  using assms by (induction k) simp_all

text \<open>
  C18: choosing the file loses nothing on a day. While the log of the day is open, \<open>DecisFile\<close> keeps
  all text of the day in order, whether it starts a new file or not, and leaves every other file
  alone; afterwards the open file is shorter than 1 GB, with the older ones numbered without gaps,
  so that this holds for the next call too.
\<close>

theorem rotation_keeps_log:
  assumes "day_open year mon day st fs" and "opens (logPath st year mon day)"
  shows "\<exists>st' fs'. DecisFile opens year mon day st fs = (True, st', fs') \<and> day_open year mon day st' fs' \<and>
    logPath st' year mon day = logPath st year mon day \<and>
    day_log fs' (logPath st year mon day) (m_iLogCnt st') = day_log fs (logPath st year mon day) (m_iLogCnt st) \<and>
    ftell (m_pFp st') fs' < ONELOGFILELIMIT \<and>
    (\<forall>p. p \<noteq> logPath st year mon day \<longrightarrow> (\<forall>i \<ge> 1. p \<noteq> numbered (logPath st year mon day) i) \<longrightarrow> fs' p = fs p)"
proof -
  let ?b = "logPath st year mon day" and ?k = "m_iLogCnt st - 1"
  let ?n = "numbered ?b"
  have o: "m_bEnv st" "m_pFp st = Some ?b" "m_iDay st = day" "1 \<le> m_iLogCnt st"
    "\<And>i. 1 \<le> i \<Longrightarrow> fs (?n i) \<noteq> None \<longleftrightarrow> i < m_iLogCnt st"
    using assms(1) by (simp_all add: day_open_def Let_def)
  obtain t where t: "fs ?b = Some t" using assms(1) by (auto simp: day_open_def Let_def)
  show ?thesis
  proof (cases "ftell (m_pFp st) fs \<ge> ONELOGFILELIMIT")
    case False
    then have "DecisFile opens year mon day st fs = (True, st, fs)" using o by (simp add: DecisFile_def)
    then show ?thesis using False assms(1) by auto
  next
    case True
    define g where "g = shift_logs ?b ?k fs"
    define h where "h = g(?b := Some [], ?n 1 \<mapsto> t)"
    have exist: "\<forall>i. 1 \<le> i \<and> i \<le> ?k \<longrightarrow> fs (?n i) \<noteq> None" using o(4,5) by auto
    note moves = shift_logs_moves [OF exist, folded g_def]
    have gb: "g ?b = Some t" using moves(4) [of ?b] t numbered_base by (metis imageE)
    have hs: "h ?b = Some []" "h (?n 1) = Some t" "\<And>i. 1 \<le> i \<Longrightarrow> h (?n (Suc i)) = g (?n (Suc i))"
      by (simp_all add: h_def)
    let ?st = "st\<lparr>m_pFp := Some ?b, m_iLogCnt := m_iLogCnt st + 1\<rparr>"
    have lp: "logPath ?st year mon day = ?b" by (simp add: logPath_def)
    have "(rename ?b (?n 1) g)(?b \<mapsto> []) = h" using gb by (auto simp: rename_def h_def fun_eq_iff)
    then have run: "DecisFile opens year mon day st fs = (True, ?st, h)"
      using o(1-4) True assms(2) unfolding g_def by (simp add: DecisFile_def Let_def fopen_w_def)
    have num: "h (?n i) \<noteq> None \<longleftrightarrow> i < m_iLogCnt ?st" if i: "1 \<le> i" for i
    proof (cases i)
      case (Suc j)
      show ?thesis
      proof (cases "j = 0")
        case False
        then have j: "1 \<le> j" by simp
        show ?thesis
        proof (cases "j \<le> ?k")
          case True
          then show ?thesis using moves(2) [OF j True] hs(3) [OF j] o(4) exist j Suc by auto
        next
          case far: False
          have "g (?n (Suc j)) = fs (?n (Suc j))" using far by (intro moves(3)) simp
          then show ?thesis using hs(3) [OF j] o(5) [of "Suc j"] far Suc by auto
        qed
      qed (use Suc hs(2) o(4) in simp)
    qed (use i in simp)
    have "day_open year mon day ?st h"
      unfolding day_open_def Let_def lp using o(1,3,4) hs(1) num by simp
    moreover have "day_log h ?b (m_iLogCnt ?st) = day_log fs ?b (m_iLogCnt st)"
    proof -
      have "older_logs h ?b (Suc ?k) = older_logs fs ?b ?k @ the (h (?n 1))"
        using moves(2) hs(3) by (intro older_logs_shift) simp
      then show ?thesis using hs(1,2) t o(4) by (simp add: day_log_def del: older_logs.simps)
    qed
    moreover have "h p = fs p" if "p \<noteq> ?b" "\<forall>i \<ge> 1. p \<noteq> ?n i" for p
    proof -
      have "p \<notin> ?n ` {1..Suc ?k}" using that(2) by auto
      then have "g p = fs p" by (rule moves(4))
      then show ?thesis using that by (simp add: h_def)
    qed
    moreover have "ftell (m_pFp ?st) h < ONELOGFILELIMIT" using hs(1) by (simp add: ftell_def ONELOGFILELIMIT_def)
    ultimately show ?thesis using run lp by blast
  qed
qed

text \<open>
  A month is not noticed. When the day changes while a file is open, \<open>DecisFile\<close> takes over the
  day only: the new file has the month and year of the file before. If that file exists already, as on
  the first day of the second month of a run, its text is erased.
\<close>

theorem month_rollover_erases:
  assumes "m_bEnv st" and "m_pFp st \<noteq> None" and "m_iDay st \<noteq> day"
    and "opens (logPath st (m_iYear st) (m_iMon st) day)"
  shows "\<exists>st'. DecisFile opens year mon day st fs =
      (True, st', fs(logPath st (m_iYear st) (m_iMon st) day \<mapsto> [])) \<and>
    m_pFp st' = Some (logPath st (m_iYear st) (m_iMon st) day) \<and> m_iDay st' = day \<and>
    m_iYear st' = m_iYear st \<and> m_iMon st' = m_iMon st"
  using assms by (auto simp: DecisFile_def Let_def fopen_w_def logPath_def)

definition january :: log_files where
  "january = \<lparr>m_pFp = Some ''./log/web.20240131.77.log'', m_Pid = 77, m_iYear = 2024, m_iMon = 1, m_iDay = 31,
     m_iLogCnt = 1, m_aProgName = ''web'', m_aLogDir = ''./log'', m_bEnv = True, m_eLevel = 6\<rparr>"

lemmas path_simps = logPath_def padded_def dec_int_def dec_nat.simps digit_char_def

lemma january_paths:
  "logPath january 2024 1 31 = ''./log/web.20240131.77.log''"
  "logPath january 2024 1 1 = ''./log/web.20240101.77.log''"
  by (simp add: path_simps january_def, code_simp)+

lemma month_rollover_erases_witness:
  "\<exists>st' fs'. DecisFile (\<lambda>_. True) 2024 2 1 january [''./log/web.20240101.77.log'' \<mapsto> ''new year''] = (True, st', fs') \<and>
    fs' ''./log/web.20240101.77.log'' = Some []"
  using month_rollover_erases [of january 1 "\<lambda>_. True" 2024 2 "[''./log/web.20240101.77.log'' \<mapsto> ''new year'']"]
    january_paths(2) by (auto simp: january_def)

lemma rotation_keeps_log_witness:
  "\<exists>st' fs'. DecisFile (\<lambda>_. True) 2024 1 31 january
      [''./log/web.20240131.77.log'' \<mapsto> replicate ONELOGFILELIMIT CHR ''x''] = (True, st', fs') \<and>
    day_log fs' ''./log/web.20240131.77.log'' (m_iLogCnt st') = replicate ONELOGFILELIMIT CHR ''x''"
proof -
  let ?p = "''./log/web.20240131.77.log''" and ?x = "replicate ONELOGFILELIMIT CHR ''x''"
  have "day_open 2024 1 31 january [?p \<mapsto> ?x]"
    unfolding day_open_def Let_def january_paths(1)
    by (simp add: january_def numbered_def)
  from rotation_keeps_log [OF this, of "\<lambda>_. True"] show ?thesis
    unfolding january_paths(1) by (auto simp: day_log_def january_def)
qed

end
