(* ===== verification/Spec2Isabelle.thy ===== *)
theory Spec2Isabelle
  imports Http_Send Http_Resume Task_Queue One_Shot Log_Full Shm_Tool Log_File
begin

text \<open>
  A development for WSlyh, a small epoll web server in C++. It models the whole server: the request
  parser, the connection object with its reading, replying and sending, the epoll registration of
  descriptors, the heap of connection timers, the event loop, the thread pool, and the log with its
  ring of buffers in shared memory, its clock, its files and the tool that recovers it.

  \<^bold>\<open>The program.\<close> The event loop in \<open>main.cpp\<close> accepts sockets and gives each a \<open>CHttp\<close> object and
  a timer. When a socket is readable it calls \<open>CHttp::Read\<close> and queues the object for a worker
  thread, which calls \<open>CHttp::HttpParse\<close>: \<open>ParseRead\<close> runs the parser over the receive buffer,
  \<open>ParseWrite\<close> builds the reply, and the socket is re-armed for input or output, or closed. When
  the socket is writable the loop calls \<open>CHttp::Write\<close>. Every success prolongs the timer; every
  failure, and \<open>CTimerHeap::Tick\<close> for timers that have expired, closes the connection. Signals reach
  the loop through a pipe. All parts write a log: \<open>CRingLog::TryAppendLog\<close> puts a line into a ring of
  buffers, a thread in \<open>CRingLog::PersistLog\<close> writes full buffers to a file. The buffers are in
  shared memory, so that \<open>log/shmtool.cpp\<close> can save what a killed server had not written.

  \<^bold>\<open>The theories: foundations.\<close>
  \<^item> \<open>Base\<close>: faults (null pointers, accesses outside an array, \<open>int\<close> overflow, freed memory, failed
    assertions) and results \<open>fault + 'a\<close>; words in a char array; the locale \<open>guarded_loop\<close> of a
    \<open>while\<close> loop whose body may fault; traces of a step relation and the locale
    \<open>accounted_steps\<close> of steps whose output is accounted for by an invariant.
  \<^item> \<open>CLib\<close>: the parts of the C library the code uses, \<open>ctype.h\<close>, \<open>atoi\<close>, decimal printing,
    \<open>std::map::insert\<close>.
  \<^item> \<open>Kernel\<close>: the border to the system. The calls that matter are recorded in \<open>w_calls\<close>; \<open>wire\<close> is
    what a descriptor has been sent, \<open>interest\<close> how it is registered. \<open>SetNonBlocking\<close>, \<open>AddFd\<close>,
    \<open>RemoveFd\<close>, \<open>ModFd\<close> of \<open>http/http.cpp\<close>.

  \<^bold>\<open>The theories: a connection.\<close>
  \<^item> \<open>Http_Request\<close>: \<open>SHttpRequest\<close> of \<open>http/http.h\<close> and \<open>http/http.cpp\<close>, one definition \<open>on_S\<close> per
    \<open>case S\<close> of \<open>ParseInternal\<close>. Pointers into the receive buffer are indices into it; reading
    beyond it or making a string from a null pointer is a fault.
  \<^item> \<open>Http_Grammar\<close>, \<open>Http_Parse\<close>: well-formed messages \<open>http_msg\<close>, their text \<open>render_head\<close>, and
    what the parser does on them: the round trip and the ways a body ends.
  \<^item> \<open>Http_Sound\<close>: what the parser does on any bytes, by an invariant of its loop: why it ends, what
    its fields can be, when it cannot fault.
  \<^item> \<open>Http_Resume\<close>: a request that arrives in pieces, parsed by several calls.
  \<^item> \<open>Http_Conn\<close>: \<open>CHttp\<close>, one definition per method. Answers of \<open>recv\<close> and \<open>writev\<close> are functions of
    the number of the call; the file system is the record \<open>kernel\<close>.
  \<^item> \<open>Http_Reply\<close>: the locale \<open>out_buffer\<close> of a bounded buffer of lines, its interpretation on the
    write buffer and \<open>AddLine\<close>, and the text of every reply.
  \<^item> \<open>Http_Serve\<close>: when a request is complete, and \<open>Read\<close>.
  \<^item> \<open>Http_Life\<close>: a connection as a step relation over its operations, and its invariant.
  \<^item> \<open>Http_Send\<close>: partial writes and what arrives at the peer.

  \<^bold>\<open>The theories: timers, threads and the loop.\<close>
  \<^item> \<open>Heap_Array\<close>: binary heaps in lists and their two repairs.
  \<^item> \<open>Timer_Heap\<close>: \<open>CTimerHeap\<close> of \<open>http/timer.h\<close> and \<open>http/timer.cpp\<close>, with the timer objects in a
    store and null pointers in the array.
  \<^item> \<open>Timer_Queue\<close>: the heap represents a queue of timers, each knowing its index; the locale
    \<open>timer_queue\<close> with the draining loop, interpreted on the heap; every operation.
  \<^item> \<open>Locks\<close>: the wrappers of \<open>lock/locker.h\<close>; a mutex and its condition variable are the record
    \<open>monitor\<close> of the thread that holds it and the threads that wait.
  \<^item> \<open>Thread_Pool\<close>: \<open>CThreadPool\<close> of \<open>threadpool/threadpool.h\<close>. \<open>Append\<close> and \<open>Work\<close> are inductive
    relations with one rule per program point, so that a run is any interleaving of the producer and
    the workers.
  \<^item> \<open>Event_Loop\<close>: \<open>main.cpp\<close>, one definition per handler, the dispatch, a round of the loop.
    The arrays \<open>https\<close> and \<open>clientDatas\<close> are functions of the index, which \<open>slot\<close> checks.
  \<^item> \<open>Task_Queue\<close>: the pool refines the queue of tasks that \<open>Event_Loop\<close> has.
  \<^item> \<open>Event_Inv\<close>: the invariant that ties descriptors, connections, timers and the counter together;
    every handler, the tick and a worker's task keep it.
  \<^item> \<open>Server_Run\<close>: the server as a step relation over events, ticks, tasks and signals.
  \<^item> \<open>Event_Calls\<close>, \<open>One_Shot\<close>: which descriptors each step re-arms, and runs in which a descriptor
    is not reported before it is re-armed: the loop and the workers never have the same connection.

  \<^bold>\<open>The theories: the log.\<close>
  \<^item> \<open>Log_Ring\<close>: cells, the constructor, \<open>TryAppendLog\<close> and the critical sections of \<open>PersistLog\<close>, over
    a store of shared-memory segments and the addresses they are attached at.
  \<^item> \<open>Log_Inv\<close>, \<open>Log_Ops\<close>: the cells form a circle, from the writer's cell on first full ones, the
    current one, and free ones; every operation keeps this and accounts for its text.
  \<^item> \<open>Log_Fifo\<close>: producers and the writer thread in any interleaving, as an interpretation of
    \<open>accounted_steps\<close>; order, completeness, absence of faults, the memory bound. \<open>Log_Full\<close>: when a
    line is lost.
  \<^item> \<open>Shm_Tool\<close>: \<open>log/shmtool.cpp\<close>, and the removal of an old ring at the start.
  \<^item> \<open>Log_Time\<close>: \<open>UTC_Time\<close>, the clock that caches its text. \<open>Log_File\<close>: levels and macros,
    \<open>InitLogPath\<close>, and the choice and renaming of files in \<open>DecisFile\<close>.
  \<^item> this theory: a request from its arrival to the page at the peer.

  \<^bold>\<open>Loops.\<close> The loops of the parser, of \<open>HeapDown\<close>, \<open>AddTimer\<close> and \<open>Tick\<close> are recursive functions
  with termination proofs. Those around \<open>recv\<close> and \<open>writev\<close> end only if the kernel's answers let
  them, and those of the two readers of the ring only if the segments form a circle; they are
  partial functions whose result is an option, and the properties state that there is a result. The
  endless loops of the event loop, the workers and the log's writer are step relations. No fuel is
  used, but for the draining loop of \<open>timer_queue\<close>, which is only a specification and is given the
  number of queued timers.

  \<^bold>\<open>Bounds.\<close> The buffers have the sizes of the source. Indices and counts that the proofs bound by
  those sizes are natural numbers; lengths that come from the peer or from the file system are
  integers with the conversion to \<open>int\<close> written out (\<open>c_int\<close>), or a fault where the source
  overflows. Event masks, the length of a log line and the memory check of the ring are 32-bit, the
  clock of the log 64-bit. The size of a log buffer, 30 MB in the source, is a parameter of at least a
  line and less than 1 GB.

  \<^bold>\<open>What the properties show.\<close> On a well-formed \<open>GET\<close> the server does
  what it should: the request is read, parsed to exactly its parts, answered with the page. In every
  state the server can reach, open connections, registered descriptors, timers and the counter
  agree, and the loop does not fault; a connection that waits for a worker is out of the loop's
  reach. The timer heap is correct for every use the event loop makes of it. The thread pool runs
  tasks in order, one at a time, and loses no wake-up. The log is written in order and completely,
  whatever the interleaving; a line is lost only when the ring is full; what a killed process leaves
  is recovered. The properties of kind \<open>error\<close> state where the code does something
  else: requests in pieces, bodies with a short \<open>Content-Length\<close>, error pages that are
  never sent, a head that needs three writes, tasks refused by a full queue, log lines longer than
  the line buffer. The theorems without a number are further cases of this kind, such as a log file
  of the month before that is erased, and a connection closed while its task is queued.

  \<^bold>\<open>Abstractions.\<close> A worker's task is one step of \<open>Server_Run\<close>; there the queue of tasks is the
  abstract one, and \<open>Task_Queue\<close> shows that the pool implements it. \<open>event_ok\<close> lets the kernel report a
  one-shot descriptor again before it is re-armed, so the properties of \<open>Server_Run\<close> hold for more
  events than there can be; \<open>One_Shot\<close> leaves these repeated reports out. Both exclude descriptors
  outside the arrays, and tasks are taken when their reply fits the write buffer. In the log, a
  producer's look at the time of the last loss outside of the lock is part of its critical section,
  and writing a cell with \<open>fwrite\<close> and \<open>fflush\<close> is one step.

  \<^bold>\<open>Not modelled.\<close> Log output inside the modelled methods of the other parts, which has no influence
  on them; the expansion of the log's \<open>printf\<close> formats, whose result is an argument; the variant
  \<open>listenfdET\<close> of accepting, which the source compiles out; \<open>AddSig\<close>, \<open>socket\<close>, \<open>bind\<close>, \<open>listen\<close> and the
  \<open>alarm\<close>, whose signal may come at any time; the end of \<open>main\<close> and the pool's destructor, which stops no
  thread; failing initialisation of locks; the debugging methods \<open>Test\<close>, \<open>Show\<close> and
  \<open>GetCurTime_debug\<close>; the test programs. The result of \<open>epoll_ctl\<close>, \<open>fcntl\<close>, \<open>close\<close> and \<open>munmap\<close> is
  ignored by the code and by the model. Negative values of \<open>char\<close>, for which \<open>ctype.h\<close> has no
  defined result, count as no letter and no digit.
\<close>

section \<open>From the request to the page\<close>

text \<open>A connection that has received a request and has nothing to send yet.\<close>

definition fresh_conn :: "CHttp \<Rightarrow> string \<Rightarrow> nat \<Rightarrow> bool" where
  "fresh_conn c buf n \<longleftrightarrow> received c buf n \<and> write_inv c \<and> written c = [] \<and> m_iDataSendLen c = 0"

text \<open>The page can be served: its status is good and the mapping holds all of it.\<close>

definition serves :: "kernel \<Rightarrow> string \<Rightarrow> string \<Rightarrow> bool" where
  "serves k f page \<longleftrightarrow> (\<exists>st. k_stat k f = Some st \<and> reply_error k COMPLETE f = None \<and>
     st_size st = int (length page) \<and> int (length page) \<le> INT_MAX - 1024 \<and>
     k_mmap k (st_size st) (k_open k f) = FMap page)"

lemma serve_get:
  assumes "wf_msg q" and "map_of (q_headers q) ''Content-Length'' = None" and "q_method q = ''GET''"
    and "fresh_conn c (render_head q @ rest) (length (render_head q))"
    and "serves k (m_aFile c) page"
  shows "\<exists>c'. HttpParse k c w = Inr (c', ModFd (m_iEpollFd w) (m_iSockFd c) EPOLLOUT (m_iTriggerMode c)
      (emit (CloseFd (k_open k (m_aFile c))) w)) \<and> reply_at c' page 0 \<and>
    written c' = reply_head 200 ok_200_title (int (length page)) (m_bLinger c) \<and>
    m_iSockFd c' = m_iSockFd c \<and> m_bLinger c' = m_bLinger c"
proof -
  have fresh: "received c (render_head q @ rest) (length (render_head q))" "write_inv c" "written c = []"
    "m_iDataSendLen c = 0" using assms(4) by (simp_all add: fresh_conn_def)
  obtain st where st: "k_stat k (m_aFile c) = Some st" "reply_error k COMPLETE (m_aFile c) = None"
    "st_size st = int (length page)" "int (length page) \<le> INT_MAX - 1024"
    "k_mmap k (st_size st) (k_open k (m_aFile c)) = FMap page" using assms(5) by (auto simp: serves_def)
  obtain r where read: "ParseRead c = Inr (COMPLETE, c\<lparr>m_sHttpParse := r\<rparr>)"
    using ParseRead_received [OF fresh(1) parse_stops_at_body [OF assms(1,2)]] assms(3)
    by (auto simp: fields_of_def)
  let ?c0 = "c\<lparr>m_sHttpParse := r, m_sFileStat := st\<rparr>"
  have c0: "write_inv ?c0" "written ?c0 = []" "0 \<le> st_size (m_sFileStat ?c0)"
    "st_size (m_sFileStat ?c0) \<le> INT_MAX - 1024"
    using fresh st by (simp_all add: write_inv_def written_def)
  obtain c3 where c3: "written c3 = reply_head 200 ok_200_title (st_size st) (m_bLinger c)"
    "write_inv c3"
    "rest_of c3 = rest_of (?c0\<lparr>m_pFileAddr := k_mmap k (st_size st) (k_open k (m_aFile c))\<rparr>)"
    and eq: "file_reply k ?c0 w = (True, c3\<lparr>m_sIv0 := \<lparr>iov_base = InWrite 0, iov_len = length (written c3)\<rparr>,
       m_sIv1 := \<lparr>iov_base = InFile 0, iov_len = nat (st_size st)\<rparr>, m_iIvCount := 2,
       m_iDataLen := int (length (written c3)) + st_size st\<rparr>,
       emit (CloseFd (k_open k (m_aFile c))) w)"
    by (rule file_reply_parts [OF c0, of k w]) simp
  note same = rest_of_fields [OF c3(3)]
  let ?c' = "c3\<lparr>m_sIv0 := \<lparr>iov_base = InWrite 0, iov_len = length (written c3)\<rparr>,
       m_sIv1 := \<lparr>iov_base = InFile 0, iov_len = nat (st_size st)\<rparr>, m_iIvCount := 2,
       m_iDataLen := int (length (written c3)) + st_size st\<rparr>"
  have "ParseWrite k COMPLETE (c\<lparr>m_sHttpParse := r\<rparr>) w = file_reply k ?c0 w"
    using ParseWrite_file [of k "c\<lparr>m_sHttpParse := r\<rparr>" st w] st(1,2) by simp
  then have run: "HttpParse k c w = Inr (?c', ModFd (m_iEpollFd w) (m_iSockFd c) EPOLLOUT (m_iTriggerMode c)
      (emit (CloseFd (k_open k (m_aFile c))) w))"
    unfolding eq using read same by (simp add: HttpParse_def)
  have "written ?c' = written c3" "write_inv ?c' = write_inv c3" by (simp_all add: written_def write_inv_def)
  then show ?thesis
    using c3(1,2) same st(3,5) fresh(4) written_length [OF c3(2)]
    by (intro exI [of _ ?c'] conjI run) (simp_all add: reply_at_def)
qed



end
